(* ===== verification/Prelude.thy ===== *)
theory Prelude
  imports Main "HOL-Library.Word" "HOL-Library.Monad_Syntax" "HOL-Library.Code_Target_Nat"
begin

text \<open>
  Shared vocabulary of the development: the machine types of the C++ sources, the little-endian
  memory image of an unsigned integer, the result type of the validation code, and the generic
  lemmas about lists and words that the component theories rely on.

  The sources run on a little-endian machine with 32-bit \<open>int\<close> and 64-bit \<open>int64_t\<close>.  Stored
  machine integers are words of that width; a signed one is read with \<^term>\<open>sint\<close>.
\<close>

unbundle bit_operations_syntax

section \<open>Machine types\<close>

type_synonym byte = "8 word"
type_synonym u16 = "16 word"
type_synonym u32 = "32 word"
type_synonym i32 = "32 word"
type_synonym u64 = "64 word"
type_synonym i64 = "64 word"
type_synonym uint160 = "160 word"
type_synonym uint256 = "256 word"
type_synonym valtype = "byte list"

named_theorems le_simps \<open>little-endian images\<close>
named_theorems wf_simps \<open>well-formedness predicates\<close>

section \<open>Little-endian images\<close>

text \<open>
  \<open>le_bytes k n\<close> is what \<open>memcpy\<close> of a \<open>k\<close>-byte unsigned integer with value \<open>n\<close> yields, and
  \<open>le_nat\<close> reads such an image back.
\<close>

fun le_bytes :: "nat \<Rightarrow> nat \<Rightarrow> byte list" where
  "le_bytes 0 n = []"
| "le_bytes (Suc k) n = word_of_nat n # le_bytes k (n div 256)"

fun le_nat :: "byte list \<Rightarrow> nat" where
  "le_nat [] = 0"
| "le_nat (b # bs) = unat b + 256 * le_nat bs"

lemma length_le_bytes [simp, le_simps]: "length (le_bytes k n) = k"
  by (induction k n rule: le_bytes.induct) auto

lemma unat_byte_of_nat: "unat (word_of_nat n :: byte) = n mod 256"
  by (simp add: unat_of_nat)

lemma unat_byte_less [simp]: "unat (b :: byte) < 256"
proof -
  have "unat b < 2 ^ LENGTH(8)" by (rule unsigned_less)
  then show ?thesis by simp
qed

lemma le_nat_le_bytes [le_simps]: "le_nat (le_bytes k n) = n mod 256 ^ k"
proof (induction k n rule: le_bytes.induct)
  case (1 n)
  then show ?case by simp
next
  case (2 k n)
  have "n mod 256 ^ Suc k = n mod 256 + 256 * (n div 256 mod 256 ^ k)"
    by (simp add: mod_mult2_eq)
  with 2 show ?case by (simp add: unat_byte_of_nat)
qed

lemma le_bytes_le_nat [le_simps]: "le_bytes (length bs) (le_nat bs) = bs"
proof (induction bs)
  case Nil
  then show ?case by simp
next
  case (Cons b bs)
  have "(word_of_nat (unat b + 256 * le_nat bs) :: byte) = b"
    using mod_less [OF unat_byte_less [of b]] by (simp add: word_unat_eq_iff unat_of_nat del: of_nat_add of_nat_mult)
  moreover have "(unat b + 256 * le_nat bs) div 256 = le_nat bs"
    using unat_byte_less [of b] by simp
  ultimately show ?case using Cons by simp
qed

lemma le_nat_bound: "le_nat bs < 256 ^ length bs"
proof (induction bs)
  case Nil
  then show ?case by simp
next
  case (Cons b bs)
  have "unat b + 256 * le_nat bs < 256 * (1 + le_nat bs)"
    using unat_byte_less [of b] by (simp add: algebra_simps)
  also have "\<dots> \<le> 256 * 256 ^ length bs"
    using Cons by (intro mult_le_mono) auto
  finally show ?case by simp
qed

lemma le_nat_append: "le_nat (xs @ ys) = le_nat xs + 256 ^ length xs * le_nat ys"
  by (induction xs) (auto simp: algebra_simps)

lemma le_nat_replicate0 [simp]: "le_nat (replicate k 0) = 0"
  by (induction k) auto

lemma le_nat_inject: "length xs = length ys \<Longrightarrow> le_nat xs = le_nat ys \<Longrightarrow> xs = ys"
  by (metis le_bytes_le_nat)

text \<open>The image of a word and back.  The width is a whole number of bytes.\<close>

definition word_to_le :: "'a::len word \<Rightarrow> byte list" where
  "word_to_le w = le_bytes (LENGTH('a) div 8) (unat w)"

definition word_of_le :: "byte list \<Rightarrow> 'a::len word" where
  "word_of_le bs = word_of_nat (le_nat bs)"

lemma length_word_to_le [simp, le_simps]:
  "length (word_to_le (w :: 'a::len word)) = LENGTH('a) div 8"
  by (simp add: word_to_le_def)

lemma word_of_le_to_le:
  assumes "LENGTH('a::len) mod 8 = 0"
  shows "word_of_le (word_to_le (w :: 'a word)) = w"
proof -
  have "(256::nat) ^ (LENGTH('a) div 8) = 2 ^ (8 * (LENGTH('a) div 8))"
    by (simp add: power_mult)
  also have "8 * (LENGTH('a) div 8) = LENGTH('a)"
    using assms by auto
  finally have "unat w mod 256 ^ (LENGTH('a) div 8) = unat w"
    by simp
  then show ?thesis
    by (simp add: word_of_le_def word_to_le_def le_nat_le_bytes)
qed

lemma word_to_le_of_le:
  assumes "LENGTH('a::len) mod 8 = 0" and "length bs = LENGTH('a) div 8"
  shows "word_to_le (word_of_le bs :: 'a word) = bs"
proof -
  have "(256::nat) ^ length bs = 2 ^ (8 * (LENGTH('a) div 8))"
    using assms(2) by (simp add: power_mult)
  also have "8 * (LENGTH('a) div 8) = LENGTH('a)"
    using assms(1) by auto
  finally have "256 ^ length bs = (2::nat) ^ LENGTH('a)" .
  then have "unat (word_of_le bs :: 'a word) = le_nat bs"
    using le_nat_bound [of bs] by (simp add: word_of_le_def unat_of_nat)
  then show ?thesis
    by (simp add: word_to_le_def le_bytes_le_nat flip: assms(2))
qed

lemma word_to_le_inject:
  assumes "LENGTH('a::len) mod 8 = 0"
  shows "word_to_le (v :: 'a word) = word_to_le w \<longleftrightarrow> v = w"
  using word_of_le_to_le [OF assms] by metis

section \<open>Signed 64-bit arithmetic\<close>

text \<open>A signed addition that stays in range is the integer addition.\<close>

lemma sint_add_in_range:
  fixes a b :: i64
  assumes "- (2 ^ 63) \<le> sint a + sint b" and "sint a + sint b < 2 ^ 63"
  shows "sint (a + b) = sint a + sint b"
proof -
  have "sint (a + b) = signed_take_bit 63 (sint a + sint b)"
    by (simp add: sint_word_add)
  also have "\<dots> = sint a + sint b"
    using assms by (intro signed_take_bit_int_eq_self) auto
  finally show ?thesis .
qed

lemma sint_diff_in_range:
  fixes a b :: i64
  assumes "- (2 ^ 63) \<le> sint a - sint b" and "sint a - sint b < 2 ^ 63"
  shows "sint (a - b) = sint a - sint b"
proof -
  have "sint (a - b) = signed_take_bit 63 (sint a - sint b)"
    by (simp add: sint_word_diff)
  also have "\<dots> = sint a - sint b"
    using assms by (intro signed_take_bit_int_eq_self) auto
  finally show ?thesis .
qed

lemma sint64_bounds: "- (2 ^ 63) \<le> sint (a :: i64)" "sint (a :: i64) < 2 ^ 63"
  using sint_ge [of a] sint_lt [of a] by simp_all

lemma sint_word_of_int: "- (2 ^ 63) \<le> z \<Longrightarrow> z < 2 ^ 63 \<Longrightarrow> sint (word_of_int z :: i64) = z"
  by (simp add: sint_sbintrunc' signed_take_bit_int_eq_self)

lemma sint_inject: "sint (a :: 'a::len word) = sint b \<longleftrightarrow> a = b"
  using word_eq_iff_signed [where 'a = int, of a b] by auto

lemma uint_of_sint: "uint (a :: i64) = (if sint a < 0 then sint a + 2 ^ 64 else sint a)"
proof -
  have u: "uint a = sint a mod 2 ^ 64" by (simp add: uint_sint take_bit_eq_mod)
  show ?thesis
  proof (cases "sint a < 0")
    case True
    have "(sint a + 2 ^ 64) mod 2 ^ 64 = sint a + 2 ^ 64"
      using True sint64_bounds(1) [of a] by (intro mod_pos_pos_trivial) auto
    then show ?thesis using True u by simp
  next
    case False
    then show ?thesis using u sint64_bounds(2) [of a] by (simp add: mod_pos_pos_trivial)
  qed
qed

lemma ucast_and_ff: "(ucast ((x :: 'a::len word) AND 0xff) :: byte) = ucast x"
proof -
  have "x AND 0xff = take_bit 8 x" by (simp add: take_bit_eq_mask mask_eq_exp_minus_1)
  then show ?thesis by (simp only:, intro bit_eqI) (auto simp: bit_simps dest: bit_imp_le_length)
qed

section \<open>Results of the validation code\<close>

text \<open>
  The checks of the sources return \<open>false\<close> through \<open>error(..)\<close> or \<open>DoS(n, error(..))\<close>: the
  second adds \<open>n\<close> to the misbehaviour score of the object.  A rejection is the value \<open>DoS n reason\<close>,
  with \<open>n = 0\<close> for a plain \<open>return false\<close>.  A thrown exception is \<open>Throw reason\<close>.
\<close>

datatype verdict = DoS nat string | Throw string

text \<open>An exception leaves the functions it passes at once; only a \<open>return false\<close> runs the code for failures.\<close>

fun thrown :: "verdict \<Rightarrow> bool" where
  "thrown (DoS n m) = False"
| "thrown (Throw m) = True"

type_synonym 'a checked = "verdict + 'a"

definition check :: "bool \<Rightarrow> verdict \<Rightarrow> unit checked" where
  "check c v = (if c then Inr () else Inl v)"

fun andthen :: "unit checked \<Rightarrow> 'a checked \<Rightarrow> 'a checked" where
  "andthen (Inl v) r = Inl v"
| "andthen (Inr _) r = r"

fun bindr :: "'e + 'a \<Rightarrow> ('a \<Rightarrow> 'e + 'b) \<Rightarrow> 'e + 'b" where
  "bindr (Inl e) f = Inl e"
| "bindr (Inr x) f = f x"

fun is_ok :: "'e + 'a \<Rightarrow> bool" where
  "is_ok (Inl _) = False"
| "is_ok (Inr _) = True"

lemma check_Inr [simp]: "check c v = Inr u \<longleftrightarrow> c"
  by (auto simp: check_def)

lemma check_Inl [simp]: "check c v = Inl w \<longleftrightarrow> \<not> c \<and> w = v"
  by (auto simp: check_def)

lemma andthen_Inr [simp]: "andthen m r = Inr x \<longleftrightarrow> m = Inr () \<and> r = Inr x"
  by (cases m) auto

lemma andthen_check: "andthen (check c v) r = (if c then r else Inl v)"
  by (auto simp: check_def)

lemma bindr_Inr: "bindr m f = Inr y \<longleftrightarrow> (\<exists>x. m = Inr x \<and> f x = Inr y)"
  by (cases m) auto

section \<open>Generic lemmas on lists and maps\<close>

lemma list_update_last: "xs[length xs := y] = xs"
  by (simp add: list_update_beyond)

lemma drop_eq_append: "take n xs @ drop n xs @ ys = xs @ ys"
  by (metis append.assoc append_take_drop_id)

lemma fold_invariant_list:
  assumes "P s" and "\<And>x s. x \<in> set xs \<Longrightarrow> P s \<Longrightarrow> P (f x s)"
  shows "P (fold f xs s)"
  using assms by (induction xs arbitrary: s) auto

section \<open>Ordered maps\<close>

text \<open>
  A \<open>std::map\<close> that the sources iterate over is the list of its entries in the order of the keys; its meaning
  is \<open>map_of\<close>.
\<close>

fun map_put :: "'k::linorder \<Rightarrow> 'v \<Rightarrow> ('k \<times> 'v) list \<Rightarrow> ('k \<times> 'v) list" where
  "map_put k v [] = [(k, v)]"
| "map_put k v ((k', v') # m) =
     (if k < k' then (k, v) # (k', v') # m else if k = k' then (k, v) # m else (k', v') # map_put k v m)"

definition map_erase :: "'k \<Rightarrow> ('k \<times> 'v) list \<Rightarrow> ('k \<times> 'v) list" where
  "map_erase k m = filter (\<lambda>(k', _). k' \<noteq> k) m"

lemma map_of_put [simp]: "map_of (map_put k v m) = (map_of m)(k \<mapsto> v)"
  by (induction m) (auto simp: fun_eq_iff)

lemma fst_set_put: "fst ` set (map_put k v m) = insert k (fst ` set m)"
  by (induction k v m rule: map_put.induct) (simp_all add: insert_commute)

lemma sorted_put: "sorted_wrt (<) (map fst m) \<Longrightarrow> sorted_wrt (<) (map fst (map_put k v m))"
proof (induction k v m rule: map_put.induct)
  case (2 k v k' v' m)
  then show ?case by (auto simp: fst_set_put simp del: set_map simp: list.set_map)
qed simp

lemma distinct_put: "sorted_wrt (<) (map fst m) \<Longrightarrow> distinct (map fst m)" for m :: "('k::linorder \<times> 'v) list"
  by (simp add: strict_sorted_iff)

lemma map_of_erase [simp]: "map_of (map_erase k m) = (map_of m)(k := None)"
  by (induction m) (auto simp: map_erase_def fun_eq_iff)

lemma sorted_erase: "sorted_wrt R (map fst m) \<Longrightarrow> sorted_wrt R (map fst (map_erase k m))"
  by (induction m) (auto simp: map_erase_def)

end
