(* ===== verification/Uint256.thy ===== *)
theory Uint256
  imports Prelude
begin

text \<open>
  The fixed-width unsigned integers of \<open>uint256.h\<close>: \<open>base_uint<BITS>\<close> keeps \<open>WIDTH = BITS/32\<close>
  32-bit limbs, least significant first, and implements the arithmetic limb by limb.  A value is
  the list \<open>pn\<close> of its limbs; \<open>limbs_nat\<close> is the number it represents.  Every operator is shown to
  compute the corresponding operation modulo \<open>2 ^ (32 * WIDTH)\<close>, which is why the other theories use
  \<^typ>\<open>uint256\<close> for these values.
\<close>

section \<open>Operators\<close>

type_synonym limbs = "u32 list"

fun bu_iszero :: "limbs \<Rightarrow> bool" where
  "bu_iszero [] = True"
| "bu_iszero (x # xs) = (if x \<noteq> 0 then False else bu_iszero xs)"

definition bu_compl :: "limbs \<Rightarrow> limbs" where
  "bu_compl a = map NOT a"

text \<open>\<open>operator++\<close>: \<open>while (++pn[i] == 0 && i < WIDTH-1) i++\<close>.\<close>

fun bu_inc :: "limbs \<Rightarrow> limbs" where
  "bu_inc [] = []"
| "bu_inc (x # xs) = (if x + 1 = 0 \<and> xs \<noteq> [] then (x + 1) # bu_inc xs else (x + 1) # xs)"

fun bu_dec :: "limbs \<Rightarrow> limbs" where
  "bu_dec [] = []"
| "bu_dec (x # xs) = (if x - 1 = - 1 \<and> xs \<noteq> [] then (x - 1) # bu_dec xs else (x - 1) # xs)"

definition bu_neg :: "limbs \<Rightarrow> limbs" where
  "bu_neg a = bu_inc (map NOT a)"

definition bu_of_u64 :: "nat \<Rightarrow> u64 \<Rightarrow> limbs" where
  "bu_of_u64 W b = take W (ucast b # ucast (drop_bit 32 b) # replicate (W - 2) 0)"

definition bu_xor :: "limbs \<Rightarrow> limbs \<Rightarrow> limbs" where
  "bu_xor a b = map2 (XOR) a b"

definition bu_and :: "limbs \<Rightarrow> limbs \<Rightarrow> limbs" where
  "bu_and a b = map2 (AND) a b"

definition bu_or :: "limbs \<Rightarrow> limbs \<Rightarrow> limbs" where
  "bu_or a b = map2 (OR) a b"

text \<open>The carry is a 64-bit variable, so the sum of a carry and two limbs never wraps.\<close>

fun bu_add_loop :: "u64 \<Rightarrow> limbs \<Rightarrow> limbs \<Rightarrow> limbs" where
  "bu_add_loop carry (x # xs) (y # ys) =
     (let n = carry + ucast x + ucast y
      in ucast (n AND 0xffffffff) # bu_add_loop (drop_bit 32 n) xs ys)"
| "bu_add_loop carry _ _ = []"

definition bu_add :: "limbs \<Rightarrow> limbs \<Rightarrow> limbs" where
  "bu_add a b = bu_add_loop 0 a b"

definition bu_sub :: "limbs \<Rightarrow> limbs \<Rightarrow> limbs" where
  "bu_sub a b = bu_add a (bu_neg b)"

definition bu_add_u64 :: "limbs \<Rightarrow> u64 \<Rightarrow> limbs" where
  "bu_add_u64 a b64 = bu_add a (bu_of_u64 (length a) b64)"

definition bu_sub_u64 :: "limbs \<Rightarrow> u64 \<Rightarrow> limbs" where
  "bu_sub_u64 a b64 = bu_add a (bu_neg (bu_of_u64 (length a) b64))"

text \<open>The shifts clear the limbs and then \<open>OR\<close> the two halves of every source limb into place.\<close>

definition bu_shl_step :: "limbs \<Rightarrow> nat \<Rightarrow> nat \<Rightarrow> nat \<Rightarrow> limbs \<Rightarrow> limbs" where
  "bu_shl_step a k s i pn =
     (let pn1 = (if i + k + 1 < length a \<and> s \<noteq> 0
                 then pn[i + k + 1 := pn ! (i + k + 1) OR drop_bit (32 - s) (a ! i)] else pn)
      in if i + k < length a then pn1[i + k := pn1 ! (i + k) OR push_bit s (a ! i)] else pn1)"

definition bu_shl :: "limbs \<Rightarrow> nat \<Rightarrow> limbs" where
  "bu_shl a shift =
     fold (bu_shl_step a (shift div 32) (shift mod 32)) [0..<length a] (replicate (length a) 0)"

definition bu_shr_step :: "limbs \<Rightarrow> nat \<Rightarrow> nat \<Rightarrow> nat \<Rightarrow> limbs \<Rightarrow> limbs" where
  "bu_shr_step a k s i pn =
     (let pn1 = (if k + 1 \<le> i \<and> s \<noteq> 0
                 then pn[i - k - 1 := pn ! (i - k - 1) OR push_bit (32 - s) (a ! i)] else pn)
      in if k \<le> i then pn1[i - k := pn1 ! (i - k) OR drop_bit s (a ! i)] else pn1)"

definition bu_shr :: "limbs \<Rightarrow> nat \<Rightarrow> limbs" where
  "bu_shr a shift =
     fold (bu_shr_step a (shift div 32) (shift mod 32)) [0..<length a] (replicate (length a) 0)"

text \<open>The comparisons scan the limbs from the most significant one down; \<open>i\<close> limbs are left.\<close>

fun bu_less_loop :: "nat \<Rightarrow> limbs \<Rightarrow> limbs \<Rightarrow> bool" where
  "bu_less_loop 0 a b = False"
| "bu_less_loop (Suc i) a b =
     (if a ! i < b ! i then True else if a ! i > b ! i then False else bu_less_loop i a b)"

fun bu_leq_loop :: "nat \<Rightarrow> limbs \<Rightarrow> limbs \<Rightarrow> bool" where
  "bu_leq_loop 0 a b = True"
| "bu_leq_loop (Suc i) a b =
     (if a ! i < b ! i then True else if a ! i > b ! i then False else bu_leq_loop i a b)"

fun bu_greater_loop :: "nat \<Rightarrow> limbs \<Rightarrow> limbs \<Rightarrow> bool" where
  "bu_greater_loop 0 a b = False"
| "bu_greater_loop (Suc i) a b =
     (if a ! i > b ! i then True else if a ! i < b ! i then False else bu_greater_loop i a b)"

fun bu_geq_loop :: "nat \<Rightarrow> limbs \<Rightarrow> limbs \<Rightarrow> bool" where
  "bu_geq_loop 0 a b = True"
| "bu_geq_loop (Suc i) a b =
     (if a ! i > b ! i then True else if a ! i < b ! i then False else bu_geq_loop i a b)"

definition bu_less :: "limbs \<Rightarrow> limbs \<Rightarrow> bool" where
  "bu_less a b = bu_less_loop (length a) a b"

definition bu_leq :: "limbs \<Rightarrow> limbs \<Rightarrow> bool" where
  "bu_leq a b = bu_leq_loop (length a) a b"

definition bu_greater :: "limbs \<Rightarrow> limbs \<Rightarrow> bool" where
  "bu_greater a b = bu_greater_loop (length a) a b"

definition bu_geq :: "limbs \<Rightarrow> limbs \<Rightarrow> bool" where
  "bu_geq a b = bu_geq_loop (length a) a b"

fun bu_eq :: "limbs \<Rightarrow> limbs \<Rightarrow> bool" where
  "bu_eq (x # xs) (y # ys) = (if x \<noteq> y then False else bu_eq xs ys)"
| "bu_eq _ _ = True"

definition bu_eq_u64 :: "limbs \<Rightarrow> u64 \<Rightarrow> bool" where
  "bu_eq_u64 a b =
     (if a ! 0 \<noteq> ucast b then False
      else if a ! 1 \<noteq> ucast (drop_bit 32 b) then False
      else bu_iszero (drop 2 a))"

definition bu_Get64 :: "limbs \<Rightarrow> nat \<Rightarrow> u64" where
  "bu_Get64 a n = ucast (a ! (2 * n)) OR push_bit 32 (ucast (a ! (2 * n + 1)))"

text \<open>\<open>Serialize\<close> writes the memory image of \<open>pn\<close>; \<open>Unserialize\<close> reads it.\<close>

definition bu_bytes :: "limbs \<Rightarrow> byte list" where
  "bu_bytes a = concat (map word_to_le a)"

text \<open>
  \<open>GetHex\<close> prints the bytes most significant first with \<open>%02x\<close>; \<open>SetHex\<close> skips white space and an
  optional \<open>0x\<close>, takes the longest run of hexadecimal digits and fills the bytes from its end.
  A C string is the list of its characters before the terminating zero.
\<close>

definition hex_char :: "nat \<Rightarrow> char" where
  "hex_char d = char_of (if d < 10 then 48 + d else 87 + d)"

definition phexdigit :: "char \<Rightarrow> nat" where
  "phexdigit c = (let n = of_char c :: nat in
     if 48 \<le> n \<and> n \<le> 57 then n - 48
     else if 65 \<le> n \<and> n \<le> 70 then n - 55
     else if 97 \<le> n \<and> n \<le> 102 then n - 87 else 0)"

definition isspace :: "char \<Rightarrow> bool" where
  "isspace c = (let n = of_char c :: nat in n = 32 \<or> (9 \<le> n \<and> n \<le> 13))"

definition hex_byte :: "byte \<Rightarrow> string" where
  "hex_byte b = [hex_char (unat b div 16), hex_char (unat b mod 16)]"

definition bu_GetHex :: "limbs \<Rightarrow> string" where
  "bu_GetHex a = concat (map hex_byte (rev (bu_bytes a)))"

fun SetHex_fill :: "nat \<Rightarrow> string \<Rightarrow> byte list" where
  "SetHex_fill 0 cs = []"
| "SetHex_fill (Suc k) [] = 0 # SetHex_fill k []"
| "SetHex_fill (Suc k) [c] = word_of_nat (phexdigit c) # SetHex_fill k []"
| "SetHex_fill (Suc k) (c # d # cs) =
     (word_of_nat (phexdigit c) OR push_bit 4 (word_of_nat (phexdigit d))) # SetHex_fill k cs"

lemma SetHex_fill_code [code]:
  "SetHex_fill k cs = (if k = 0 then []
     else case cs of [] \<Rightarrow> 0 # SetHex_fill (k - 1) []
       | [c] \<Rightarrow> word_of_nat (phexdigit c) # SetHex_fill (k - 1) []
       | c # d # r \<Rightarrow> (word_of_nat (phexdigit c) OR push_bit 4 (word_of_nat (phexdigit d))) # SetHex_fill (k - 1) r)"
  by (cases k) (auto split: list.splits)

definition skip_0x :: "string \<Rightarrow> string" where
  "skip_0x psz = (case psz of c # d # cs \<Rightarrow>
       (if c = CHR ''0'' \<and> (d = CHR ''x'' \<or> d = CHR ''X'') then cs else psz)
     | _ \<Rightarrow> psz)"

definition bu_SetHex_bytes :: "nat \<Rightarrow> string \<Rightarrow> byte list" where
  "bu_SetHex_bytes W psz =
     SetHex_fill (4 * W)
       (rev (takeWhile (\<lambda>c. phexdigit c \<noteq> 0 \<or> c = CHR ''0'') (skip_0x (dropWhile isspace psz))))"

section \<open>The represented number\<close>

fun limbs_nat :: "limbs \<Rightarrow> nat" where
  "limbs_nat [] = 0"
| "limbs_nat (x # xs) = unat x + 2 ^ 32 * limbs_nat xs"

lemma unat_limb_less: "unat (x :: u32) < 2 ^ 32"
proof -
  have "unat x < 2 ^ LENGTH(32)" by (rule unsigned_less)
  then show ?thesis by simp
qed

lemma limbs_nat_bound: "limbs_nat a < 2 ^ (32 * length a)"
proof (induction a)
  case Nil
  then show ?case by simp
next
  case (Cons x xs)
  have "limbs_nat (x # xs) < 2 ^ 32 * (1 + limbs_nat xs)"
    using unat_limb_less [of x] by (simp add: algebra_simps)
  also have "\<dots> \<le> 2 ^ 32 * 2 ^ (32 * length xs)"
    using Cons by (intro mult_le_mono) auto
  also have "\<dots> = 2 ^ (32 * length (x # xs))"
    by (simp add: power_add)
  finally show ?case .
qed

lemma limbs_nat_split:
  "limbs_nat (x # xs) mod 2 ^ 32 = unat x" "limbs_nat (x # xs) div 2 ^ 32 = limbs_nat xs"
  using unat_limb_less [of x] by simp_all

lemma limbs_nat_inject: "length a = length b \<Longrightarrow> limbs_nat a = limbs_nat b \<longleftrightarrow> a = b"
proof (induction a b rule: list_induct2)
  case Nil
  then show ?case by simp
next
  case (Cons x xs y ys)
  have "limbs_nat (x # xs) = limbs_nat (y # ys) \<longleftrightarrow> unat x = unat y \<and> limbs_nat xs = limbs_nat ys"
    using limbs_nat_split [of x xs] limbs_nat_split [of y ys] by (metis limbs_nat.simps(2))
  with Cons show ?case by (simp add: word_unat_eq_iff)
qed

lemma limbs_nat_replicate0 [simp]: "limbs_nat (replicate n 0) = 0"
  by (induction n) auto

lemma bit_limbs_nat:
  "bit (limbs_nat a) n \<longleftrightarrow> n < 32 * length a \<and> bit (a ! (n div 32)) (n mod 32)"
proof (induction a arbitrary: n)
  case Nil
  then show ?case by simp
next
  case (Cons x xs)
  show ?case
  proof (cases "n < 32")
    case True
    have "bit (limbs_nat (x # xs)) n = bit (take_bit 32 (limbs_nat (x # xs))) n"
      using True by (simp add: bit_take_bit_iff)
    also have "take_bit 32 (limbs_nat (x # xs)) = unat x"
      by (simp only: take_bit_eq_mod limbs_nat_split)
    finally show ?thesis using True by (simp add: bit_unsigned_iff)
  next
    case False
    have "bit (limbs_nat (x # xs)) n = bit (drop_bit 32 (limbs_nat (x # xs))) (n - 32)"
      using False by (simp add: bit_drop_bit_eq del: limbs_nat.simps)
    also have "drop_bit 32 (limbs_nat (x # xs)) = limbs_nat xs"
      by (simp only: drop_bit_eq_div limbs_nat_split)
    also have "bit (limbs_nat xs) (n - 32) \<longleftrightarrow>
        n - 32 < 32 * length xs \<and> bit (xs ! ((n - 32) div 32)) ((n - 32) mod 32)"
      by (rule Cons.IH)
    moreover have "n div 32 = Suc ((n - 32) div 32)" "n mod 32 = (n - 32) mod 32"
      using False by (simp_all add: le_div_geq le_mod_geq)
    ultimately show ?thesis using False by auto
  qed
qed

section \<open>Every operator computes the arithmetic operation\<close>

lemma bu_iszero_iff: "bu_iszero a \<longleftrightarrow> limbs_nat a = 0"
  by (induction a) (auto simp: unat_eq_zero)

lemma length_bu [simp]:
  "length (bu_inc a) = length a" "length (bu_dec a) = length a"
  "length (bu_compl a) = length a" "length (bu_neg a) = length a"
  "length (bu_of_u64 W v) = W"
  by (induction a) (auto simp: bu_compl_def bu_neg_def bu_of_u64_def)

lemma length_bu_add_loop: "length a = length b \<Longrightarrow> length (bu_add_loop c a b) = length a"
  by (induction c a b rule: bu_add_loop.induct) (auto simp: Let_def)

lemma length_bu_add [simp]: "length a = length b \<Longrightarrow> length (bu_add a b) = length a"
  by (simp add: bu_add_def length_bu_add_loop)

lemma unat_limb_succ:
  "unat (x + 1 :: u32) = (if unat x + 1 < 2 ^ 32 then unat x + 1 else 0)"
  using unat_limb_less [of x] by (simp add: unat_plus_if')

lemma limb_succ_zero: "(x :: u32) + 1 = 0 \<longleftrightarrow> unat x + 1 = 2 ^ 32"
  using unat_limb_less [of x] unat_limb_succ [of x] by (auto simp: word_unat_eq_iff split: if_splits)

lemma unat_limb_pred:
  "unat (x - 1 :: u32) = (if x = 0 then 2 ^ 32 - 1 else unat x - 1)"
  by (cases "x = 0") (simp_all add: unat_minus_one unsigned_minus_1_eq_mask mask_eq_exp_minus_1)

lemma limb_pred_max: "(x :: u32) - 1 = - 1 \<longleftrightarrow> x = 0"
  by auto

lemma limb_carry_mod:
  fixes m n k :: nat
  assumes "m < 2 ^ 32"
  shows "(m + 2 ^ 32 * n) mod 2 ^ (32 + k) = m + 2 ^ 32 * (n mod 2 ^ k)" 
proof -
  have "(m + 2 ^ 32 * n) div 2 ^ 32 = n" and "(m + 2 ^ 32 * n) mod 2 ^ 32 = m"
    using assms by simp_all
  then have "(m + 2 ^ 32 * n) mod (2 ^ 32 * 2 ^ k) = 2 ^ 32 * (n mod 2 ^ k) + m"
    by (simp only: mod_mult2_eq)
  then show ?thesis unfolding power_add by simp
qed

lemma limb_carry_less:
  fixes m r k :: nat
  assumes "m < 2 ^ 32" and "r < 2 ^ k"
  shows "m + 2 ^ 32 * r < 2 ^ (32 + k)"
proof -
  have "m + 2 ^ 32 * r < 2 ^ 32 * (1 + r)" using assms(1) by (simp add: algebra_simps)
  also have "\<dots> \<le> 2 ^ 32 * 2 ^ k" using assms(2) by (intro mult_le_mono) auto
  finally show ?thesis by (simp only: power_add)
qed

lemma limbs_width_Cons: "32 * length (x # xs) = 32 + 32 * length xs"
  by simp

lemma limbs_nat_inc:
  "a \<noteq> [] \<Longrightarrow> limbs_nat (bu_inc a) = (limbs_nat a + 1) mod 2 ^ (32 * length a)"
proof (induction a)
  case Nil
  then show ?case by simp
next
  case (Cons x xs)
  show ?case
  proof (cases "unat x + 1 < 2 ^ 32")
    case True
    have "limbs_nat (bu_inc (x # xs)) = limbs_nat (x # xs) + 1"
      using True by (simp add: limb_succ_zero unat_limb_succ)
    moreover have "limbs_nat (x # xs) + 1 < 2 ^ (32 * length (x # xs))"
      unfolding limbs_width_Cons using limb_carry_less [OF True limbs_nat_bound [of xs]] by simp
    ultimately show ?thesis by simp
  next
    case False
    then have x: "unat x + 1 = 2 ^ 32" using unat_limb_less [of x] by linarith
    have eq: "limbs_nat (x # xs) + 1 = 0 + 2 ^ 32 * (limbs_nat xs + 1)" using x by simp
    have "(limbs_nat (x # xs) + 1) mod 2 ^ (32 * length (x # xs)) =
        2 ^ 32 * ((limbs_nat xs + 1) mod 2 ^ (32 * length xs))"
      unfolding eq limbs_width_Cons by (subst limb_carry_mod) simp_all
    moreover have "limbs_nat (bu_inc (x # xs)) = 2 ^ 32 * ((limbs_nat xs + 1) mod 2 ^ (32 * length xs))"
      using Cons.IH x False by (cases "xs = []") (simp_all add: limb_succ_zero unat_limb_succ)
    ultimately show ?thesis by simp
  qed
qed


lemma limbs_nat_dec:
  "a \<noteq> [] \<Longrightarrow> limbs_nat (bu_dec a) = (limbs_nat a + (2 ^ (32 * length a) - 1)) mod 2 ^ (32 * length a)"
proof (induction a)
  case Nil
  then show ?case by simp
next
  case (Cons x xs)
  let ?k = "32 * length xs" and ?r = "limbs_nat xs"
  show ?case
  proof (cases "x = 0")
    case True
    obtain p where p: "(2::nat) ^ ?k = Suc p" by (metis not0_implies_Suc power_not_zero zero_neq_numeral)
    have "2 ^ 32 * (?r + (2 ^ ?k - 1)) + (2 ^ 32 - 1) = 2 ^ 32 * ?r + ((2::nat) ^ (32 + ?k) - 1)"
      unfolding power_add p by simp
    then have eq: "limbs_nat (x # xs) + (2 ^ (32 + ?k) - 1) = (2 ^ 32 - 1) + 2 ^ 32 * (?r + (2 ^ ?k - 1))"
      using True by simp
    have "(limbs_nat (x # xs) + (2 ^ (32 * length (x # xs)) - 1)) mod 2 ^ (32 * length (x # xs)) =
        (2 ^ 32 - 1) + 2 ^ 32 * ((?r + (2 ^ ?k - 1)) mod 2 ^ ?k)"
      unfolding limbs_width_Cons eq by (rule limb_carry_mod) simp
    moreover have "limbs_nat (bu_dec (x # xs)) = (2 ^ 32 - 1) + 2 ^ 32 * ((?r + (2 ^ ?k - 1)) mod 2 ^ ?k)"
      using Cons.IH True unat_limb_pred [of x] by (cases "xs = []") simp_all
    ultimately show ?thesis by simp
  next
    case False
    then have x0: "0 < unat x" by (simp add: unat_gt_0)
    have "limbs_nat (bu_dec (x # xs)) + 1 = limbs_nat (x # xs)"
      using False x0 unat_limb_pred [of x] by (simp add: limb_pred_max)
    moreover have "limbs_nat (x # xs) < 2 ^ (32 * length (x # xs))" by (rule limbs_nat_bound)
    moreover have "limbs_nat (bu_dec (x # xs)) + 1 + (2 ^ (32 * length (x # xs)) - 1) =
        limbs_nat (bu_dec (x # xs)) + 2 ^ (32 * length (x # xs))"
      using one_le_power [of "2 :: nat" "32 * length (x # xs)"] by linarith
    ultimately show ?thesis by (metis add_lessD1 mod_add_self2 mod_less)
  qed
qed

lemma unat_limb_not: "unat (NOT x :: u32) = 2 ^ 32 - 1 - unat x"
proof -
  have "NOT x = - 1 - x" by (simp add: not_eq_complement)
  moreover have "unat (- 1 - x) = unat (- 1 :: u32) - unat x" by (rule unat_sub) simp
  ultimately show ?thesis by (simp add: unsigned_minus_1_eq_mask mask_eq_exp_minus_1)
qed

lemma limbs_nat_compl: "limbs_nat (map NOT a) + limbs_nat a = 2 ^ (32 * length a) - 1"
proof (induction a)
  case Nil
  then show ?case by simp
next
  case (Cons x xs)
  have "unat (NOT x) + unat x = 2 ^ 32 - 1"
    using unat_limb_less [of x] by (simp add: unat_limb_not)
  then have "limbs_nat (map NOT (x # xs)) + limbs_nat (x # xs) =
      (2 ^ 32 - 1) + 2 ^ 32 * (limbs_nat (map NOT xs) + limbs_nat xs)"
    by (simp add: algebra_simps)
  also have "\<dots> = 2 ^ (32 * length (x # xs)) - 1"
    using one_le_power [of "2 :: nat" "32 * length xs"] Cons
    unfolding limbs_width_Cons power_add by (simp add: algebra_simps)
  finally show ?case .
qed

lemma limbs_nat_neg:
  assumes "a \<noteq> []"
  shows "limbs_nat (bu_neg a) = (2 ^ (32 * length a) - limbs_nat a) mod 2 ^ (32 * length a)"
proof -
  have "limbs_nat (map NOT a) + 1 = 2 ^ (32 * length a) - limbs_nat a"
    using limbs_nat_compl [of a] limbs_nat_bound [of a] by linarith
  then show ?thesis
    using assms limbs_nat_inc [of "map NOT a"] by (simp add: bu_neg_def)
qed

lemma limb_sum_no_wrap:
  fixes c :: u64 and x y :: u32
  assumes "unat c < 2 ^ 32"
  shows "unat (c + ucast x + ucast y) = unat c + unat x + unat y"
proof -
  have ux: "unat (ucast x :: u64) = unat x" "unat (ucast y :: u64) = unat y"
    by (simp_all add: unsigned_ucast_eq take_bit_nat_eq_self unat_limb_less less_trans [OF unat_limb_less])
  have lt: "unat c + unat x + unat y < 2 ^ 64"
    using assms unat_limb_less [of x] unat_limb_less [of y] by simp
  have "unat (c + ucast x) = unat c + unat x"
    using lt ux by (subst unat_plus_if') simp
  with lt ux show ?thesis by (subst unat_plus_if') simp
qed

lemma limbs_nat_add_loop:
  "length a = length b \<Longrightarrow> unat c < 2 ^ 32 \<Longrightarrow>
    limbs_nat (bu_add_loop c a b) = (unat c + limbs_nat a + limbs_nat b) mod 2 ^ (32 * length a)"
proof (induction c a b rule: bu_add_loop.induct)
  case (1 c x xs y ys)
  let ?n = "c + ucast x + ucast y" and ?m = "unat c + unat x + unat y"
  have n: "unat ?n = ?m" by (rule limb_sum_no_wrap [OF "1.prems"(2)])
  have "?n AND 0xffffffff = take_bit 32 ?n" by (simp add: take_bit_eq_mask mask_eq_exp_minus_1)
  moreover have "unat (take_bit 32 ?n) = take_bit 32 (unat ?n)" by (rule unsigned_take_bit_eq)
  ultimately have "unat (?n AND 0xffffffff) = ?m mod 2 ^ 32" by (simp only: n take_bit_eq_mod [of 32 ?m])
  then have lo: "unat (ucast (?n AND 0xffffffff) :: u32) = ?m mod 2 ^ 32"
    by (simp add: unsigned_ucast_eq take_bit_eq_mod)
  have hi: "unat (drop_bit 32 ?n) = ?m div 2 ^ 32"
    unfolding unat_drop_bit_eq n by (rule drop_bit_eq_div)
  have hi_less: "unat (drop_bit 32 ?n) < 2 ^ 32"
    unfolding hi using "1.prems"(2) unat_limb_less [of x] unat_limb_less [of y] by simp
  have IH: "limbs_nat (bu_add_loop (drop_bit 32 ?n) xs ys) =
      (?m div 2 ^ 32 + limbs_nat xs + limbs_nat ys) mod 2 ^ (32 * length xs)"
    using "1.IH" [OF refl] "1.prems"(1) hi_less hi by simp
  have "unat c + limbs_nat (x # xs) + limbs_nat (y # ys) =
      ?m mod 2 ^ 32 + 2 ^ 32 * (?m div 2 ^ 32 + limbs_nat xs + limbs_nat ys)"
    using mult_div_mod_eq [of "2 ^ 32" ?m] by (simp add: algebra_simps)
  then have "(unat c + limbs_nat (x # xs) + limbs_nat (y # ys)) mod 2 ^ (32 * length (x # xs)) =
      ?m mod 2 ^ 32 + 2 ^ 32 * ((?m div 2 ^ 32 + limbs_nat xs + limbs_nat ys) mod 2 ^ (32 * length xs))"
    unfolding limbs_width_Cons by (simp only: limb_carry_mod mod_less_divisor zero_less_numeral zero_less_power)
  then show ?case using IH lo by (simp add: Let_def)
qed auto

lemma limbs_nat_add:
  "length a = length b \<Longrightarrow> limbs_nat (bu_add a b) = (limbs_nat a + limbs_nat b) mod 2 ^ (32 * length a)"
  by (simp add: bu_add_def limbs_nat_add_loop)

lemma limbs_nat_sub:
  assumes "length a = length b" and "b \<noteq> []"
  shows "limbs_nat (bu_sub a b) = (limbs_nat a + (2 ^ (32 * length a) - limbs_nat b)) mod 2 ^ (32 * length a)"
  using assms by (simp add: bu_sub_def limbs_nat_add limbs_nat_neg mod_add_right_eq)

subsection \<open>Shifts\<close>

lemma length_bu_shl_step [simp]: "length (bu_shl_step a k s i pn) = length pn"
  by (simp add: bu_shl_step_def Let_def)

lemma length_bu_shr_step [simp]: "length (bu_shr_step a k s i pn) = length pn"
  by (simp add: bu_shr_step_def Let_def)

text \<open>After the first \<open>n\<close> iterations limb \<open>j\<close> holds the halves of the source limbs below \<open>n\<close>.\<close>

definition shl_limb :: "limbs \<Rightarrow> nat \<Rightarrow> nat \<Rightarrow> nat \<Rightarrow> nat \<Rightarrow> u32" where
  "shl_limb a k s n j =
     (if k \<le> j \<and> j - k < n then push_bit s (a ! (j - k)) else 0) OR
     (if s \<noteq> 0 \<and> k + 1 \<le> j \<and> j - k - 1 < n then drop_bit (32 - s) (a ! (j - k - 1)) else 0)"

lemma bu_shl_step_nth:
  assumes "length pn = length a" "n < length a" "j < length a"
  shows "bu_shl_step a k s n pn ! j =
    (if j = n + k then pn ! j OR push_bit s (a ! n)
     else if j = n + k + 1 \<and> s \<noteq> 0 then pn ! j OR drop_bit (32 - s) (a ! n) else pn ! j)"
proof -
  consider "j = n + k" | "j = n + k + 1" | "j \<noteq> n + k \<and> j \<noteq> n + k + 1" by blast
  then show ?thesis
    using assms by cases (auto simp: bu_shl_step_def Let_def nth_list_update)
qed

lemma shl_limb_Suc:
  "shl_limb a k s (Suc n) j =
    (if j = n + k then shl_limb a k s n j OR push_bit s (a ! n)
     else if j = n + k + 1 \<and> s \<noteq> 0 then shl_limb a k s n j OR drop_bit (32 - s) (a ! n)
     else shl_limb a k s n j)"
proof -
  consider "j = n + k" | "j = n + k + 1" | "j \<noteq> n + k \<and> j \<noteq> n + k + 1" by blast
  then show ?thesis by cases (auto simp: shl_limb_def or.commute less_Suc_eq)
qed

lemma bu_shl_prefix:
  assumes "n \<le> length a"
  shows "fold (bu_shl_step a k s) [0..<n] (replicate (length a) 0) = map (shl_limb a k s n) [0..<length a]"
  using assms
proof (induction n)
  case 0
  then show ?case by (intro nth_equalityI) (auto simp: shl_limb_def)
next
  case (Suc n)
  then have "fold (bu_shl_step a k s) [0..<Suc n] (replicate (length a) 0) =
      bu_shl_step a k s n (map (shl_limb a k s n) [0..<length a])"
    by simp
  also have "\<dots> = map (shl_limb a k s (Suc n)) [0..<length a]"
    using Suc.prems by (intro nth_equalityI) (simp_all add: bu_shl_step_nth shl_limb_Suc)
  finally show ?case .
qed

definition shr_limb :: "limbs \<Rightarrow> nat \<Rightarrow> nat \<Rightarrow> nat \<Rightarrow> nat \<Rightarrow> u32" where
  "shr_limb a k s n j =
     (if j + k < n then drop_bit s (a ! (j + k)) else 0) OR
     (if s \<noteq> 0 \<and> j + k + 1 < n then push_bit (32 - s) (a ! (j + k + 1)) else 0)"

lemma bu_shr_step_nth:
  assumes "length pn = length a" "n < length a" "j < length a"
  shows "bu_shr_step a k s n pn ! j =
    (if j + k = n then pn ! j OR drop_bit s (a ! n)
     else if j + k + 1 = n \<and> s \<noteq> 0 then pn ! j OR push_bit (32 - s) (a ! n) else pn ! j)"
proof -
  consider "j + k = n" | "j + k + 1 = n" | "j + k \<noteq> n \<and> j + k + 1 \<noteq> n" by blast
  then show ?thesis
    using assms by cases (auto simp: bu_shr_step_def Let_def nth_list_update)
qed

lemma shr_limb_Suc:
  "shr_limb a k s (Suc n) j =
    (if j + k = n then shr_limb a k s n j OR drop_bit s (a ! n)
     else if j + k + 1 = n \<and> s \<noteq> 0 then shr_limb a k s n j OR push_bit (32 - s) (a ! n)
     else shr_limb a k s n j)"
  by (simp add: shr_limb_def or.commute less_Suc_eq)

lemma bu_shr_prefix:
  assumes "n \<le> length a"
  shows "fold (bu_shr_step a k s) [0..<n] (replicate (length a) 0) = map (shr_limb a k s n) [0..<length a]"
  using assms
proof (induction n)
  case 0
  then show ?case by (intro nth_equalityI) (auto simp: shr_limb_def)
next
  case (Suc n)
  then have "fold (bu_shr_step a k s) [0..<Suc n] (replicate (length a) 0) =
      bu_shr_step a k s n (map (shr_limb a k s n) [0..<length a])"
    by simp
  also have "\<dots> = map (shr_limb a k s (Suc n)) [0..<length a]"
    using Suc.prems by (intro nth_equalityI) (simp_all add: bu_shr_step_nth shr_limb_Suc)
  finally show ?case .
qed

lemma bu_shl_limbs: "bu_shl a shift = map (shl_limb a (shift div 32) (shift mod 32) (length a)) [0..<length a]"
  by (simp add: bu_shl_def bu_shl_prefix)

lemma bu_shr_limbs: "bu_shr a shift = map (shr_limb a (shift div 32) (shift mod 32) (length a)) [0..<length a]"
  by (simp add: bu_shr_def bu_shr_prefix)

lemma length_bu_shift [simp]: "length (bu_shl a s) = length a" "length (bu_shr a s) = length a"
  by (simp_all add: bu_shl_limbs bu_shr_limbs)

lemma shift_position:
  fixes k s j m :: nat
  assumes "s < 32" and "m < 32"
  shows "(32 * k + s + (32 * j + m)) div 32 = (if s + m < 32 then k + j else k + j + 1)"
    and "(32 * k + s + (32 * j + m)) mod 32 = (if s + m < 32 then s + m else s + m - 32)"
proof -
  have eq: "32 * k + s + (32 * j + m) = (s + m) + (k + j) * 32" by simp
  have d: "(s + m) div 32 = (if s + m < 32 then 0 else 1)"
    using assms by (simp add: div_nat_eqI)
  have r: "(s + m) mod 32 = (if s + m < 32 then s + m else s + m - 32)"
    using assms by (simp add: le_mod_geq)
  show "(32 * k + s + (32 * j + m)) div 32 = (if s + m < 32 then k + j else k + j + 1)"
    unfolding eq div_mult_self1 [OF zero_neq_numeral [symmetric]] d by simp
  show "(32 * k + s + (32 * j + m)) mod 32 = (if s + m < 32 then s + m else s + m - 32)"
    unfolding eq mod_mult_self1 by (rule r)
qed

lemma bit_shr_limb:
  assumes "s < 32" and "m < 32"
  shows "bit (shr_limb a k s w j) m \<longleftrightarrow>
    (if s + m < 32 then j + k < w \<and> bit (a ! (j + k)) (s + m)
     else j + k + 1 < w \<and> bit (a ! (j + k + 1)) (s + m - 32))"
proof -
  have "m - (32 - s) = s + m - 32" if "\<not> s + m < 32" using that assms by simp
  then show ?thesis using assms by (auto simp: shr_limb_def bit_simps dest: bit_imp_le_length)
qed

lemma bit_shr_position:
  "bit (limbs_nat (bu_shr a shift)) n \<longleftrightarrow>
    n div 32 < length a \<and> bit (shr_limb a (shift div 32) (shift mod 32) (length a) (n div 32)) (n mod 32)"
  by (auto simp: bit_limbs_nat bu_shr_limbs)

lemma limbs_nat_shr: "limbs_nat (bu_shr a shift) = limbs_nat a div 2 ^ shift"
proof -
  define k s where "k = shift div 32" and "s = shift mod 32"
  have sh: "shift = 32 * k + s" and s: "s < 32" by (simp_all add: k_def s_def)
  have "bit (limbs_nat (bu_shr a shift)) n = bit (limbs_nat a) (shift + n)" for n
  proof -
    define j m where "j = n div 32" and "m = n mod 32"
    have n: "n = 32 * j + m" and m: "m < 32" by (simp_all add: j_def m_def)
    have "bit (limbs_nat (bu_shr a shift)) n \<longleftrightarrow> j < length a \<and> bit (shr_limb a k s (length a) j) m"
      unfolding j_def m_def k_def s_def by (rule bit_shr_position)
    also have "\<dots> \<longleftrightarrow> shift + n < 32 * length a \<and> bit (a ! ((shift + n) div 32)) ((shift + n) mod 32)"
    proof (cases "s + m < 32")
      case True
      have "(shift + n) div 32 = k + j" "(shift + n) mod 32 = s + m"
        using shift_position [OF s m, of k j] True sh n by simp_all
      moreover have "shift + n < 32 * length a \<longleftrightarrow> j + k < length a" using True sh n by linarith
      ultimately show ?thesis using True by (auto simp: bit_shr_limb [OF s m] add.commute)
    next
      case False
      have "(shift + n) div 32 = k + j + 1" "(shift + n) mod 32 = s + m - 32"
        using shift_position [OF s m, of k j] False sh n by simp_all
      moreover have "shift + n < 32 * length a \<longleftrightarrow> j + k + 1 < length a" using False s m sh n by linarith
      ultimately show ?thesis using False by (auto simp: bit_shr_limb [OF s m] add.commute)
    qed
    finally show ?thesis by (simp add: bit_limbs_nat)
  qed
  then have "limbs_nat (bu_shr a shift) = drop_bit shift (limbs_nat a)"
    by (intro bit_eqI) (simp add: bit_drop_bit_eq)
  then show ?thesis by (simp only: drop_bit_eq_div)
qed

lemma bit_shl_limb:
  assumes "s < 32" and "m < 32"
  shows "bit (shl_limb a k s w j) m \<longleftrightarrow>
    (if s \<le> m then k \<le> j \<and> j - k < w \<and> bit (a ! (j - k)) (m - s)
     else k + 1 \<le> j \<and> j - k - 1 < w \<and> bit (a ! (j - k - 1)) (m + 32 - s))"
proof -
  have "32 - s + m = m + 32 - s" using assms by simp
  then show ?thesis using assms by (auto simp: shl_limb_def bit_simps dest: bit_imp_le_length)
qed

lemma bit_shl_position:
  "bit (limbs_nat (bu_shl a shift)) n \<longleftrightarrow>
    n div 32 < length a \<and> bit (shl_limb a (shift div 32) (shift mod 32) (length a) (n div 32)) (n mod 32)"
  by (auto simp: bit_limbs_nat bu_shl_limbs)

lemma limbs_nat_shl: "limbs_nat (bu_shl a shift) = (limbs_nat a * 2 ^ shift) mod 2 ^ (32 * length a)"
proof -
  define k s where "k = shift div 32" and "s = shift mod 32"
  have sh: "shift = 32 * k + s" and s: "s < 32" by (simp_all add: k_def s_def)
  have "bit (limbs_nat (bu_shl a shift)) n \<longleftrightarrow>
      n < 32 * length a \<and> shift \<le> n \<and> bit (limbs_nat a) (n - shift)" for n
  proof -
    define j m where "j = n div 32" and "m = n mod 32"
    have n: "n = 32 * j + m" and m: "m < 32" by (simp_all add: j_def m_def)
    have lt: "n < 32 * length a \<longleftrightarrow> j < length a" using n m by linarith
    have lt': "n < 32 * length a \<Longrightarrow> n - shift < 32 * length a" by simp
    have L: "bit (limbs_nat (bu_shl a shift)) n \<longleftrightarrow> j < length a \<and> bit (shl_limb a k s (length a) j) m"
      unfolding j_def m_def k_def s_def by (rule bit_shl_position)
    show ?thesis
    proof (cases "s \<le> m")
      case True
      have le: "shift \<le> n \<longleftrightarrow> k \<le> j" using True sh n m by linarith
      have d: "n - shift = 32 * (j - k) + (m - s)" if "k \<le> j" using True sh n that by (simp add: algebra_simps)
      have "(n - shift) div 32 = j - k" "(n - shift) mod 32 = m - s" if "k \<le> j"
        unfolding d [OF that] using m by simp_all
      then show ?thesis
        using True lt lt' le d m unfolding L bit_shl_limb [OF s m] bit_limbs_nat [of a]
        by (auto intro: less_imp_diff_less)
    next
      case False
      have le: "shift \<le> n \<longleftrightarrow> k + 1 \<le> j" using False sh n m s by linarith
      have d: "n - shift = 32 * (j - k - 1) + (m + 32 - s)" if "k + 1 \<le> j"
        using False sh n s that by (simp add: algebra_simps)
      have "(n - shift) div 32 = j - k - 1" "(n - shift) mod 32 = m + 32 - s" if "k + 1 \<le> j"
        unfolding d [OF that] using False m by simp_all
      then show ?thesis
        using False lt lt' le d m s unfolding L bit_shl_limb [OF s m] bit_limbs_nat [of a]
        by (auto intro: less_imp_diff_less)
    qed
  qed
  then have "limbs_nat (bu_shl a shift) = take_bit (32 * length a) (push_bit shift (limbs_nat a))"
    by (intro bit_eqI) (auto simp: bit_take_bit_iff bit_push_bit_iff)
  then show ?thesis by (simp only: take_bit_eq_mod push_bit_eq_mult)
qed

subsection \<open>Comparisons, conversions and the memory image\<close>

lemma limbs_nat_append: "limbs_nat (xs @ ys) = limbs_nat xs + 2 ^ (32 * length xs) * limbs_nat ys"
  by (induction xs) (auto simp: algebra_simps power_add)

lemma limbs_nat_take_Suc:
  "i < length a \<Longrightarrow> limbs_nat (take (Suc i) a) = limbs_nat (take i a) + 2 ^ (32 * i) * unat (a ! i)"
  by (simp add: take_Suc_conv_app_nth limbs_nat_append)

lemma top_limb_decides:
  fixes p q x y w :: nat
  assumes "p < w" and "q < w"
  shows "p + w * x < q + w * y \<longleftrightarrow> x < y \<or> (x = y \<and> p < q)"
proof (cases "x = y")
  case False
  then consider "x + 1 \<le> y" | "y + 1 \<le> x" by linarith
  then show ?thesis
  proof cases
    case 1
    then have "w * (x + 1) \<le> w * y" by (rule mult_le_mono2)
    with assms 1 show ?thesis by simp
  next
    case 2
    then have "w * (y + 1) \<le> w * x" by (rule mult_le_mono2)
    with assms 2 show ?thesis by simp
  qed
qed auto

lemma limbs_nat_take_bound: "i \<le> length a \<Longrightarrow> limbs_nat (take i a) < 2 ^ (32 * i)"
  using limbs_nat_bound [of "take i a"] by (simp add: min_absorb2)

lemma bu_less_loop_iff:
  "length a = length b \<Longrightarrow> i \<le> length a \<Longrightarrow>
    bu_less_loop i a b \<longleftrightarrow> limbs_nat (take i a) < limbs_nat (take i b)"
  by (induction i)
    (auto simp: limbs_nat_take_Suc top_limb_decides limbs_nat_take_bound word_less_nat_alt word_unat_eq_iff)

lemma bu_less_iff: "length a = length b \<Longrightarrow> bu_less a b \<longleftrightarrow> limbs_nat a < limbs_nat b"
  by (simp add: bu_less_def bu_less_loop_iff)

lemma bu_geq_loop: "bu_geq_loop i a b \<longleftrightarrow> \<not> bu_less_loop i a b"
  by (induction i) auto

lemma bu_greater_loop: "bu_greater_loop i a b \<longleftrightarrow> bu_less_loop i b a"
  by (induction i) auto

lemma bu_leq_loop: "bu_leq_loop i a b \<longleftrightarrow> \<not> bu_less_loop i b a"
  by (induction i) auto

lemma bu_order_iff:
  assumes "length a = length b"
  shows "bu_leq a b \<longleftrightarrow> limbs_nat a \<le> limbs_nat b"
    and "bu_greater a b \<longleftrightarrow> limbs_nat a > limbs_nat b"
    and "bu_geq a b \<longleftrightarrow> limbs_nat a \<ge> limbs_nat b"
  using assms bu_less_iff [of a b] bu_less_iff [of b a]
  by (auto simp: bu_leq_def bu_greater_def bu_geq_def bu_less_def bu_leq_loop bu_greater_loop bu_geq_loop)

lemma bu_eq_iff: "length a = length b \<Longrightarrow> bu_eq a b \<longleftrightarrow> limbs_nat a = limbs_nat b"
  unfolding limbs_nat_inject by (induction a b rule: list_induct2) auto

lemma le_nat_bu_bytes: "le_nat (bu_bytes a) = limbs_nat a"
proof (induction a)
  case Nil
  then show ?case by (simp add: bu_bytes_def)
next
  case (Cons x xs)
  have "le_nat (word_to_le x) = unat x"
    using unat_limb_less [of x] by (simp add: word_to_le_def le_nat_le_bytes)
  with Cons show ?case by (simp add: bu_bytes_def le_nat_append)
qed

section \<open>The interface of an unsigned integer type\<close>

text \<open>
  What the rest of the program relies on: a representation of the numbers below \<open>2 ^ B\<close> whose
  operators are the operations of \<open>nat\<close> modulo \<open>2 ^ B\<close>.  The three widths used by the sources
  (\<open>uint160\<close>, \<open>uint256\<close>, \<open>uint512\<close>) are instances.
\<close>

locale uint_impl =
  fixes B :: nat and invar :: "'u \<Rightarrow> bool" and val :: "'u \<Rightarrow> nat"
    and add sub :: "'u \<Rightarrow> 'u \<Rightarrow> 'u" and neg inc dec :: "'u \<Rightarrow> 'u"
    and shl shr :: "'u \<Rightarrow> nat \<Rightarrow> 'u" and less leq :: "'u \<Rightarrow> 'u \<Rightarrow> bool"
  assumes val_bound: "invar a \<Longrightarrow> val a < 2 ^ B"
    and val_inject: "invar a \<Longrightarrow> invar b \<Longrightarrow> val a = val b \<Longrightarrow> a = b"
    and invar_ops: "invar a \<Longrightarrow> invar b \<Longrightarrow> invar (add a b) \<and> invar (sub a b) \<and> invar (neg a) \<and>
      invar (inc a) \<and> invar (dec a) \<and> invar (shl a s) \<and> invar (shr a s)"
    and val_add: "invar a \<Longrightarrow> invar b \<Longrightarrow> val (add a b) = (val a + val b) mod 2 ^ B"
    and val_sub: "invar a \<Longrightarrow> invar b \<Longrightarrow> val (sub a b) = (val a + (2 ^ B - val b)) mod 2 ^ B"
    and val_neg: "invar a \<Longrightarrow> val (neg a) = (2 ^ B - val a) mod 2 ^ B"
    and val_inc: "invar a \<Longrightarrow> val (inc a) = (val a + 1) mod 2 ^ B"
    and val_dec: "invar a \<Longrightarrow> val (dec a) = (val a + (2 ^ B - 1)) mod 2 ^ B"
    and val_shl: "invar a \<Longrightarrow> val (shl a s) = (val a * 2 ^ s) mod 2 ^ B"
    and val_shr: "invar a \<Longrightarrow> val (shr a s) = val a div 2 ^ s"
    and less_iff: "invar a \<Longrightarrow> invar b \<Longrightarrow> less a b \<longleftrightarrow> val a < val b"
    and leq_iff: "invar a \<Longrightarrow> invar b \<Longrightarrow> leq a b \<longleftrightarrow> val a \<le> val b"
begin

lemma sub_exact: "invar a \<Longrightarrow> invar b \<Longrightarrow> val b \<le> val a \<Longrightarrow> val (sub a b) = val a - val b"
proof -
  assume a: "invar a" and b: "invar b" and le: "val b \<le> val a"
  have "val a + (2 ^ B - val b) = (val a - val b) + 2 ^ B" using le val_bound [OF b] by simp
  then have "val (sub a b) = (val a - val b + 2 ^ B) mod 2 ^ B" by (simp only: val_sub [OF a b])
  then show "val (sub a b) = val a - val b" using val_bound [OF a] by simp
qed

lemma add_sub_cancel: "invar a \<Longrightarrow> invar b \<Longrightarrow> sub (add a b) b = a"
proof -
  assume a: "invar a" and b: "invar b"
  have ab: "invar (add a b)" using invar_ops [OF a b] by simp
  have "val (sub (add a b) b) = ((val a + val b) + (2 ^ B - val b)) mod 2 ^ B"
    unfolding val_sub [OF ab b] val_add [OF a b] by (rule mod_add_left_eq)
  also have "(val a + val b) + (2 ^ B - val b) = val a + 2 ^ B" using val_bound [OF b] by simp
  finally have "val (sub (add a b) b) = val a" using val_bound [OF a] by simp
  then show ?thesis using val_inject invar_ops [OF ab b] a by blast
qed

lemma inc_dec: "invar a \<Longrightarrow> dec (inc a) = a"
proof -
  assume a: "invar a"
  have i: "invar (inc a)" using invar_ops [OF a a] by simp
  have "val (dec (inc a)) = (val a + 1 + (2 ^ B - 1)) mod 2 ^ B"
    unfolding val_dec [OF i] val_inc [OF a] by (rule mod_add_left_eq)
  also have "val a + 1 + (2 ^ B - 1) = val a + 2 ^ B" by simp
  finally have "val (dec (inc a)) = val a" using val_bound [OF a] by simp
  then show ?thesis using val_inject invar_ops [OF i i] a by blast
qed

end

lemma limbs_uint_impl:
  assumes "0 < W"
  shows "uint_impl (32 * W) (\<lambda>a. length a = W) limbs_nat bu_add bu_sub bu_neg bu_inc bu_dec
    bu_shl bu_shr bu_less bu_leq"
proof unfold_locales
  fix a b :: limbs and s :: nat
  assume a: "length a = W"
  have ne: "a \<noteq> []" using a assms by auto
  show "limbs_nat a < 2 ^ (32 * W)" using limbs_nat_bound [of a] a by simp
  show "limbs_nat (bu_neg a) = (2 ^ (32 * W) - limbs_nat a) mod 2 ^ (32 * W)"
    using limbs_nat_neg [OF ne] a by simp
  show "limbs_nat (bu_inc a) = (limbs_nat a + 1) mod 2 ^ (32 * W)"
    using limbs_nat_inc [OF ne] a by simp
  show "limbs_nat (bu_dec a) = (limbs_nat a + (2 ^ (32 * W) - 1)) mod 2 ^ (32 * W)"
    using limbs_nat_dec [OF ne] a by simp
  show "limbs_nat (bu_shl a s) = (limbs_nat a * 2 ^ s) mod 2 ^ (32 * W)"
    using limbs_nat_shl [of a s] a by simp
  show "limbs_nat (bu_shr a s) = limbs_nat a div 2 ^ s" by (rule limbs_nat_shr)
  assume b: "length b = W"
  have nb: "b \<noteq> []" using b assms by auto
  have ab: "length a = length b" using a b by simp
  show "limbs_nat a = limbs_nat b \<Longrightarrow> a = b" using limbs_nat_inject [OF ab] by simp
  show "length (bu_add a b) = W \<and> length (bu_sub a b) = W \<and> length (bu_neg a) = W \<and>
      length (bu_inc a) = W \<and> length (bu_dec a) = W \<and> length (bu_shl a s) = W \<and> length (bu_shr a s) = W"
    using a b by (simp add: bu_sub_def)
  show "limbs_nat (bu_add a b) = (limbs_nat a + limbs_nat b) mod 2 ^ (32 * W)"
    using limbs_nat_add [OF ab] a by simp
  show "limbs_nat (bu_sub a b) = (limbs_nat a + (2 ^ (32 * W) - limbs_nat b)) mod 2 ^ (32 * W)"
    using limbs_nat_sub [OF ab nb] a by simp
  show "bu_less a b \<longleftrightarrow> limbs_nat a < limbs_nat b" by (rule bu_less_iff [OF ab])
  show "bu_leq a b \<longleftrightarrow> limbs_nat a \<le> limbs_nat b" by (rule bu_order_iff(1) [OF ab])
qed

interpretation u160: uint_impl 160 "\<lambda>a. length a = 5" limbs_nat bu_add bu_sub bu_neg bu_inc bu_dec
  bu_shl bu_shr bu_less bu_leq
  using limbs_uint_impl [of 5] by simp

interpretation u256: uint_impl 256 "\<lambda>a. length a = 8" limbs_nat bu_add bu_sub bu_neg bu_inc bu_dec
  bu_shl bu_shr bu_less bu_leq
  using limbs_uint_impl [of 8] by simp

interpretation u512: uint_impl 512 "\<lambda>a. length a = 16" limbs_nat bu_add bu_sub bu_neg bu_inc bu_dec
  bu_shl bu_shr bu_less bu_leq
  using limbs_uint_impl [of 16] by simp

section \<open>Hexadecimal text\<close>

lemma phexdigit_hex_char: "d < 16 \<Longrightarrow> phexdigit (hex_char d) = d"
  by (simp add: phexdigit_def hex_char_def Let_def)

lemma hex_char_hex: "d < 16 \<Longrightarrow> phexdigit (hex_char d) \<noteq> 0 \<or> hex_char d = CHR ''0''"
proof (cases "d = 0")
  case True
  have "of_char (CHR ''0'') = (48 :: nat)" by simp
  then have "char_of (48 :: nat) = CHR ''0''" by (metis char_of_char)
  with True show ?thesis by (simp add: hex_char_def)
qed (simp add: phexdigit_hex_char)

lemma hex_char_plain: "d < 16 \<Longrightarrow> \<not> isspace (hex_char d) \<and> hex_char d \<noteq> CHR ''x'' \<and> hex_char d \<noteq> CHR ''X''"
proof -
  assume "d < 16"
  then have "of_char (hex_char d) = (if d < 10 then 48 + d else 87 + d)" by (simp add: hex_char_def)
  moreover have "of_char (CHR ''x'') = (120 :: nat)" "of_char (CHR ''X'') = (88 :: nat)" by simp_all
  ultimately show ?thesis using \<open>d < 16\<close> by (auto simp: isspace_def Let_def split: if_splits)
qed

lemma unat_byte_nibble: "unat (b :: byte) div 16 < 16"
  by (rule less_mult_imp_div_less) simp

lemma hex_nibbles: "word_of_nat (unat b mod 16) OR push_bit 4 (word_of_nat (unat b div 16)) = (b :: byte)"
proof -
  have "(word_of_nat (unat b mod 16) :: byte) = take_bit 4 b"
    by (simp only: word_unat_eq_iff unsigned_take_bit_eq) (simp add: unat_of_nat take_bit_eq_mod mod_mod_cancel)
  moreover have "(word_of_nat (unat b div 16) :: byte) = drop_bit 4 b"
    using unat_byte_nibble [of b]
    by (simp only: word_unat_eq_iff unat_drop_bit_eq) (simp add: unat_of_nat drop_bit_eq_div)
  ultimately show ?thesis by (simp add: bit_eq_iff bit_simps) auto
qed

lemma SetHex_fill_bytes: "SetHex_fill (length bs) (concat (map (rev \<circ> hex_byte) bs)) = bs"
  by (induction bs) (simp_all add: hex_byte_def phexdigit_hex_char hex_nibbles unat_byte_nibble)

lemma rev_hex_text: "rev (concat (map hex_byte (rev bs))) = concat (map (rev \<circ> hex_byte) bs)"
  by (simp add: rev_concat rev_map)

lemma hex_text_digits:
  "c \<in> set (concat (map hex_byte bs)) \<Longrightarrow>
    (phexdigit c \<noteq> 0 \<or> c = CHR ''0'') \<and> \<not> isspace c \<and> c \<noteq> CHR ''x'' \<and> c \<noteq> CHR ''X''"
proof -
  assume "c \<in> set (concat (map hex_byte bs))"
  then obtain b where "c = hex_char (unat b div 16) \<or> c = hex_char (unat (b :: byte) mod 16)"
    by (auto simp: hex_byte_def)
  moreover have "unat b mod 16 < 16" by simp
  ultimately obtain d where "d < 16" "c = hex_char d" using unat_byte_nibble [of b] by blast
  then show ?thesis using hex_char_hex [of d] hex_char_plain [of d] by simp
qed

lemma skip_0x_plain: "\<forall>c \<in> set t. c \<noteq> CHR ''x'' \<and> c \<noteq> CHR ''X'' \<Longrightarrow> skip_0x t = t"
  by (auto simp: skip_0x_def split: list.splits)

lemma SetHex_GetHex_bytes:
  assumes "length bs = 4 * W"
  shows "bu_SetHex_bytes W (concat (map hex_byte (rev bs))) = bs"
proof -
  let ?t = "concat (map hex_byte (rev bs))"
  note digits = hex_text_digits [of _ "rev bs"]
  have "dropWhile isspace ?t = ?t"
    using digits by (metis dropWhile_eq_self_iff hd_in_set)
  moreover have "skip_0x ?t = ?t"
    using digits by (intro skip_0x_plain) blast
  moreover have "takeWhile (\<lambda>c. phexdigit c \<noteq> 0 \<or> c = CHR ''0'') ?t = ?t"
    using digits by (intro takeWhile_eq_all_conv [THEN iffD2]) blast
  ultimately show ?thesis
    using SetHex_fill_bytes [of bs] assms by (simp only: bu_SetHex_bytes_def rev_hex_text)
qed

lemma length_bu_bytes [simp]: "length (bu_bytes a) = 4 * length a"
  by (simp add: bu_bytes_def length_concat comp_def sum_list_triv)

text \<open>
  printing a \<open>base_uint\<close> of any width with \<open>GetHex\<close> and reading the text with \<open>SetHex\<close>
  gives back its memory image.
\<close>

theorem bu_SetHex_GetHex: "bu_SetHex_bytes (length a) (bu_GetHex a) = bu_bytes a"
  by (simp add: bu_GetHex_def SetHex_GetHex_bytes)

section \<open>Properties\<close>

text \<open>
  C36: on eight limbs the carry, borrow, shift and comparison loops of \<open>base_uint\<close> compute arithmetic
  modulo \<open>2 ^ 256\<close>, division by powers of two, and the order of the numbers.
\<close>

theorem base_uint_arithmetic:
  assumes "length a = 8" "length b = 8"
  shows "limbs_nat (bu_add a b) = (limbs_nat a + limbs_nat b) mod 2 ^ 256
    \<and> limbs_nat (bu_sub a b) = (limbs_nat a + (2 ^ 256 - limbs_nat b)) mod 2 ^ 256
    \<and> limbs_nat (bu_shl a shift) = limbs_nat a * 2 ^ shift mod 2 ^ 256
    \<and> limbs_nat (bu_shr a shift) = limbs_nat a div 2 ^ shift
    \<and> (bu_less a b \<longleftrightarrow> limbs_nat a < limbs_nat b)
    \<and> (bu_leq a b \<longleftrightarrow> limbs_nat a \<le> limbs_nat b)
    \<and> (bu_eq a b \<longleftrightarrow> a = b)"
proof (intro conjI)
  have w: "32 * length a = 256" and ab: "length a = length b" and b: "b \<noteq> []" using assms by auto
  show "limbs_nat (bu_add a b) = (limbs_nat a + limbs_nat b) mod 2 ^ 256"
    using limbs_nat_add [OF ab] unfolding w .
  show "limbs_nat (bu_sub a b) = (limbs_nat a + (2 ^ 256 - limbs_nat b)) mod 2 ^ 256"
    using limbs_nat_sub [OF ab b] unfolding w .
  show "limbs_nat (bu_shl a shift) = limbs_nat a * 2 ^ shift mod 2 ^ 256"
    using limbs_nat_shl [of a shift] unfolding w .
  show "bu_less a b \<longleftrightarrow> limbs_nat a < limbs_nat b" by (rule bu_less_iff [OF ab])
  show "bu_leq a b \<longleftrightarrow> limbs_nat a \<le> limbs_nat b" by (rule bu_order_iff(1) [OF ab])
  show "bu_eq a b \<longleftrightarrow> a = b" using bu_eq_iff [OF ab] limbs_nat_inject [OF ab] by simp
qed (rule limbs_nat_shr)

theorem base_uint_arithmetic_witness:
  "limbs_nat (bu_add [0xffffffff, 0, 0, 0, 0, 0, 0, 0] [1, 0, 0, 0, 0, 0, 0, 0]) = 2 ^ 32
    \<and> bu_less [0xffffffff, 0, 0, 0, 0, 0, 0, 0] [0, 1, 0, 0, 0, 0, 0, 0]"
  using base_uint_arithmetic [of "[0xffffffff, 0, 0, 0, 0, 0, 0, 0]" "[1, 0, 0, 0, 0, 0, 0, 0]" 0]
    base_uint_arithmetic [of "[0xffffffff, 0, 0, 0, 0, 0, 0, 0]" "[0, 1, 0, 0, 0, 0, 0, 0]" 0]
  by simp

end
