(* ===== verification/Serialize.thy ===== *)
theory Serialize
  imports Prelude
begin

text \<open>
  The serialization framework of \<open>serialize.h\<close>: fixed-width integers, compact sizes, strings,
  vectors, pairs, and the double-ended buffer \<open>CDataStream\<close>.  \<open>Serialize\<close> of a value is the byte
  list it appends to a stream; \<open>Unserialize\<close> takes the bytes left in the stream and returns the
  value with the bytes left after it, or \<open>None\<close> where the code throws.
\<close>

section \<open>Reading from a stream\<close>

definition MAX_SIZE :: nat where
  "MAX_SIZE = 0x02000000"

definition read_bytes :: "nat \<Rightarrow> byte list \<Rightarrow> (byte list \<times> byte list) option" where
  "read_bytes n bs = (if n \<le> length bs then Some (take n bs, drop n bs) else None)"

text \<open>\<open>WRITEDATA\<close> and \<open>READDATA\<close> of an integral type copy its memory image.\<close>

definition ser_word :: "'a::len word \<Rightarrow> byte list" where
  "ser_word w = word_to_le w"

definition unser_word :: "byte list \<Rightarrow> ('a::len word \<times> byte list) option" where
  "unser_word bs = do { (x, r) \<leftarrow> read_bytes (LENGTH('a) div 8) bs; Some (word_of_le x, r) }"

definition ser_bool :: "bool \<Rightarrow> byte list" where
  "ser_bool a = [if a then 1 else 0]"

definition unser_bool :: "byte list \<Rightarrow> (bool \<times> byte list) option" where
  "unser_bool bs = do { (f, r) \<leftarrow> (unser_word bs :: (byte \<times> byte list) option); Some (f \<noteq> 0, r) }"

section \<open>Compact sizes\<close>

definition GetSizeOfCompactSize :: "u64 \<Rightarrow> nat" where
  "GetSizeOfCompactSize nSize =
     (if nSize < 253 then 1
      else if nSize \<le> 0xffff then 1 + 2
      else if nSize \<le> 0xffffffff then 1 + 4
      else 1 + 8)"

definition WriteCompactSize :: "u64 \<Rightarrow> byte list" where
  "WriteCompactSize nSize =
     (if nSize < 253 then ser_word (ucast nSize :: byte)
      else if nSize \<le> 0xffff then ser_word (253 :: byte) @ ser_word (ucast nSize :: u16)
      else if nSize \<le> 0xffffffff then ser_word (254 :: byte) @ ser_word (ucast nSize :: u32)
      else ser_word (255 :: byte) @ ser_word nSize)"

definition ReadCompactSize :: "byte list \<Rightarrow> (u64 \<times> byte list) option" where
  "ReadCompactSize is = do {
     (chSize, r) \<leftarrow> (unser_word is :: (byte \<times> byte list) option);
     (nSizeRet, r') \<leftarrow>
       (if chSize < 253 then Some (ucast chSize, r)
        else if chSize = 253 then
          do { (xSize, r1) \<leftarrow> (unser_word r :: (u16 \<times> byte list) option); Some (ucast xSize, r1) }
        else if chSize = 254 then
          do { (xSize, r1) \<leftarrow> (unser_word r :: (u32 \<times> byte list) option); Some (ucast xSize, r1) }
        else (unser_word r :: (u64 \<times> byte list) option));
     if unat nSizeRet > MAX_SIZE then None else Some (nSizeRet, r') }"

section \<open>Strings, vectors and pairs\<close>

definition ser_string :: "byte list \<Rightarrow> byte list" where
  "ser_string str = WriteCompactSize (word_of_nat (length str)) @ str"

definition unser_string :: "byte list \<Rightarrow> (byte list \<times> byte list) option" where
  "unser_string is = do { (nSize, r) \<leftarrow> ReadCompactSize is; read_bytes (unat nSize) r }"

definition size_string :: "byte list \<Rightarrow> nat" where
  "size_string str = GetSizeOfCompactSize (word_of_nat (length str)) + length str"

text \<open>
  A vector of a fundamental type is read in blocks of at most \<open>1 + 4999999 / sizeof(T)\<close> elements, so
  that a bogus size cannot exhaust memory; here \<open>T\<close> is \<open>unsigned char\<close> and \<open>i\<close> bytes are already read.
\<close>

function unser_blocks :: "nat \<Rightarrow> nat \<Rightarrow> byte list \<Rightarrow> byte list \<Rightarrow> (byte list \<times> byte list) option" where
  "unser_blocks i nSize v is =
     (if i < nSize then
        (let blk = min (nSize - i) (1 + 4999999 div 1)
         in do { (x, r) \<leftarrow> read_bytes blk is; unser_blocks (i + blk) nSize (v @ x) r })
      else Some (v, is))"
  by pat_completeness auto
termination
  by (relation "measure (\<lambda>(i, nSize, v, is). nSize - i)") auto

declare unser_blocks.simps [simp del]

definition ser_bytes :: "byte list \<Rightarrow> byte list" where
  "ser_bytes v = WriteCompactSize (word_of_nat (length v)) @ v"

definition unser_bytes :: "byte list \<Rightarrow> (byte list \<times> byte list) option" where
  "unser_bytes is = do { (nSize, r) \<leftarrow> ReadCompactSize is; unser_blocks 0 (unat nSize) [] r }"

text \<open>
  A vector of any other type is read element by element, the vector being resized in steps of
  \<open>5000000 / sizeof(T)\<close> elements.  The inner loop reads \<open>k\<close> elements; the outer one may not end when
  the step is \<open>0\<close>, so it is partial.
\<close>

fun unser_n :: "(byte list \<Rightarrow> ('a \<times> byte list) option) \<Rightarrow> nat \<Rightarrow> byte list \<Rightarrow> ('a list \<times> byte list) option" where
  "unser_n f 0 is = Some ([], is)"
| "unser_n f (Suc k) is = do { (x, r) \<leftarrow> f is; (xs, r') \<leftarrow> unser_n f k r; Some (x # xs, r') }"

partial_function (option) unser_steps ::
  "(byte list \<Rightarrow> ('a \<times> byte list) option) \<Rightarrow> nat \<Rightarrow> nat \<Rightarrow> nat \<Rightarrow> 'a list \<Rightarrow> byte list \<Rightarrow> ('a list \<times> byte list) option"
where
  "unser_steps f step nMid nSize v is =
     (if nMid < nSize then
        (let nMid' = (if nMid + step > nSize then nSize else nMid + step)
         in do { (xs, r) \<leftarrow> unser_n f (nMid' - nMid) is; unser_steps f step nMid' nSize (v @ xs) r })
      else Some (v, is))"

definition ser_vec :: "('a \<Rightarrow> byte list) \<Rightarrow> 'a list \<Rightarrow> byte list" where
  "ser_vec ser v = WriteCompactSize (word_of_nat (length v)) @ concat (map ser v)"

definition unser_vec :: "nat \<Rightarrow> (byte list \<Rightarrow> ('a \<times> byte list) option) \<Rightarrow> byte list \<Rightarrow> ('a list \<times> byte list) option" where
  "unser_vec sizeofT f is =
     do { (nSize, r) \<leftarrow> ReadCompactSize is; unser_steps f (5000000 div sizeofT) 0 (unat nSize) [] r }"

definition size_vec :: "('a \<Rightarrow> nat) \<Rightarrow> 'a list \<Rightarrow> nat" where
  "size_vec sz v = GetSizeOfCompactSize (word_of_nat (length v)) + sum_list (map sz v)"

definition ser_pair :: "('a \<Rightarrow> byte list) \<Rightarrow> ('b \<Rightarrow> byte list) \<Rightarrow> 'a \<times> 'b \<Rightarrow> byte list" where
  "ser_pair sa sb item = sa (fst item) @ sb (snd item)"

definition unser_pair :: "(byte list \<Rightarrow> ('a \<times> byte list) option) \<Rightarrow> (byte list \<Rightarrow> ('b \<times> byte list) option) \<Rightarrow>
    byte list \<Rightarrow> (('a \<times> 'b) \<times> byte list) option" where
  "unser_pair ua ub is = do { (x, r) \<leftarrow> ua is; (y, r') \<leftarrow> ub r; Some ((x, y), r') }"

section \<open>Properties of the primitives\<close>

lemma read_bytes_append [simp]: "read_bytes (length xs) (xs @ r) = Some (xs, r)"
  by (simp add: read_bytes_def)

lemma read_bytes_append': "length xs = n \<Longrightarrow> read_bytes n (xs @ r) = Some (xs, r)"
  by (simp add: read_bytes_def)

lemma unser_ser_word:
  "LENGTH('a::len) mod 8 = 0 \<Longrightarrow> unser_word (ser_word (w :: 'a word) @ r) = Some (w, r)"
  by (simp add: unser_word_def ser_word_def read_bytes_append' word_of_le_to_le)

lemma length_ser_word [simp]: "length (ser_word (w :: 'a::len word)) = LENGTH('a) div 8"
  by (simp add: ser_word_def)

lemma unser_ser_bool: "unser_bool (ser_bool a @ r) = Some (a, r)"
proof -
  have "ser_bool a = ser_word (if a then 1 else 0 :: byte)"
    by (simp add: ser_bool_def ser_word_def word_to_le_def)
  then show ?thesis by (simp add: unser_bool_def unser_ser_word)
qed

lemma length_WriteCompactSize: "length (WriteCompactSize n) = GetSizeOfCompactSize n"
  by (simp add: WriteCompactSize_def GetSizeOfCompactSize_def)

lemma unat_ucast_small:
  fixes n :: "'a::len word"
  assumes "unat n < 2 ^ LENGTH('b::len)"
  shows "unat (ucast n :: 'b word) = unat n"
proof -
  have "unat (ucast n :: 'b word) = take_bit LENGTH('b) (unat n)" by (rule unsigned_ucast_eq)
  also have "\<dots> = unat n" using assms by (rule take_bit_nat_eq_self)
  finally show ?thesis .
qed

lemma ucast_small:
  fixes n :: "'a::len word"
  assumes "unat n < 2 ^ LENGTH('b::len)"
  shows "(ucast (ucast n :: 'b word) :: 'a word) = n"
proof -
  have u: "unat (ucast n :: 'b word) = unat n" using assms by (rule unat_ucast_small)
  have "unat n < 2 ^ LENGTH('a)" by (rule unsigned_less)
  then have "unat (ucast (ucast n :: 'b word) :: 'a word) = unat (ucast n :: 'b word)"
    by (intro unat_ucast_small) (simp only: u)
  then show ?thesis by (simp only: u word_unat_eq_iff)
qed

lemma ReadCompactSize_Write:
  "ReadCompactSize (WriteCompactSize n @ r) = (if unat n \<le> MAX_SIZE then Some (n, r) else None)"
proof -
  consider (one) "n < 253" | (two) "253 \<le> n" "n \<le> 0xffff" | (four) "0xffff < n" "n \<le> 0xffffffff" | (eight) "0xffffffff < n"
    by force
  then show ?thesis
  proof cases
    case one
    then have u: "unat n < 253" by (simp add: word_less_nat_alt)
    then have "(ucast (ucast n :: byte) :: u64) = n" by (intro ucast_small) simp
    moreover have "unat (ucast n :: byte) < 253" using u by (simp add: unsigned_ucast_eq take_bit_nat_eq_self)
    ultimately show ?thesis using one
      by (simp add: ReadCompactSize_def WriteCompactSize_def unser_ser_word word_less_nat_alt)
  next
    case two
    then have "unat n < 2 ^ LENGTH(16)" by (simp add: word_le_nat_alt)
    then have "(ucast (ucast n :: u16) :: u64) = n" by (rule ucast_small)
    moreover have "\<not> n < 253" using two by simp
    ultimately show ?thesis using two
      by (simp add: ReadCompactSize_def WriteCompactSize_def unser_ser_word)
  next
    case four
    then have "unat n < 2 ^ LENGTH(32)" by (simp add: word_le_nat_alt)
    then have "(ucast (ucast n :: u32) :: u64) = n" by (rule ucast_small)
    moreover have "\<not> n < 253" "\<not> n \<le> 0xffff" using four by (auto simp: word_less_nat_alt word_le_nat_alt)
    ultimately show ?thesis using four
      by (simp add: ReadCompactSize_def WriteCompactSize_def unser_ser_word)
  next
    case eight
    then have "\<not> n < 253" "\<not> n \<le> 0xffff" "\<not> n \<le> 0xffffffff" by (auto simp: word_less_nat_alt word_le_nat_alt)
    then show ?thesis
      by (simp add: ReadCompactSize_def WriteCompactSize_def unser_ser_word)
  qed
qed



text \<open>Reading in blocks is reading at once.\<close>

lemma read_bytes_add:
  "read_bytes (m + n) bs = do { (x, r) \<leftarrow> read_bytes m bs; (y, r') \<leftarrow> read_bytes n r; Some (x @ y, r') }"
  by (auto simp: read_bytes_def take_add add.commute)

lemma unser_blocks_eq:
  "i \<le> nSize \<Longrightarrow>
   unser_blocks i nSize v is = do { (x, r) \<leftarrow> read_bytes (nSize - i) is; Some (v @ x, r) }"
proof (induction "nSize - i" arbitrary: i v "is" rule: less_induct)
  case less
  show ?case
  proof (cases "i < nSize")
    case False
    then show ?thesis using less.prems by (subst unser_blocks.simps) (simp add: read_bytes_def)
  next
    case True
    define b where "b = min (nSize - i) (1 + 4999999 div 1)"
    have split: "nSize - i = b + (nSize - (i + b))" using True by (simp add: b_def)
    have "unser_blocks (i + b) nSize (v @ x) r
        = do { (y, r') \<leftarrow> read_bytes (nSize - (i + b)) r; Some ((v @ x) @ y, r') }" for x r
      using True by (intro less.hyps) (auto simp: b_def)
    moreover have "unser_blocks i nSize v is
        = do { (x, r) \<leftarrow> read_bytes b is; unser_blocks (i + b) nSize (v @ x) r }"
      using True by (subst unser_blocks.simps) (simp only: b_def Let_def if_True)
    ultimately show ?thesis
      by (subst split, subst read_bytes_add) (simp split: Option.bind_splits)
  qed
qed

lemma unser_n_add:
  "unser_n f (m + n) is = do { (xs, r) \<leftarrow> unser_n f m is; (ys, r') \<leftarrow> unser_n f n r; Some (xs @ ys, r') }"
  by (induction m arbitrary: "is") (auto split: Option.bind_splits prod.splits)

lemma unser_steps_eq:
  assumes "0 < step"
  shows "nMid \<le> nSize \<Longrightarrow>
    unser_steps f step nMid nSize v is = do { (xs, r) \<leftarrow> unser_n f (nSize - nMid) is; Some (v @ xs, r) }"
proof (induction "nSize - nMid" arbitrary: nMid v "is" rule: less_induct)
  case less
  show ?case
  proof (cases "nMid < nSize")
    case False
    then show ?thesis using less.prems by (subst unser_steps.simps) simp
  next
    case True
    define m where "m = (if nMid + step > nSize then nSize else nMid + step)"
    have m: "nMid < m" "m \<le> nSize" using True assms by (auto simp: m_def)
    have split: "nSize - nMid = (m - nMid) + (nSize - m)" using m by simp
    have "unser_steps f step m nSize (v @ xs) r
        = do { (ys, r') \<leftarrow> unser_n f (nSize - m) r; Some ((v @ xs) @ ys, r') }" for xs r
      using m by (intro less.hyps) auto
    moreover have "unser_steps f step nMid nSize v is
        = do { (xs, r) \<leftarrow> unser_n f (m - nMid) is; unser_steps f step m nSize (v @ xs) r }"
      using True by (subst unser_steps.simps) (simp only: m_def Let_def if_True)
    ultimately show ?thesis
      by (subst split, subst unser_n_add) (simp split: Option.bind_splits)
  qed
qed

lemma unser_vec_eq:
  assumes "0 < sizeofT" "sizeofT \<le> 5000000"
  shows "unser_vec sizeofT f is = do { (nSize, r) \<leftarrow> ReadCompactSize is; unser_n f (unat nSize) r }"
proof -
  have "0 < 5000000 div sizeofT" using assms by (simp add: div_greater_zero_iff)
  then show ?thesis
    by (simp add: unser_vec_def unser_steps_eq split: Option.bind_splits)
qed

lemma ReadCompactSize_bound: "ReadCompactSize is = Some (n, r) \<Longrightarrow> unat n \<le> MAX_SIZE"
  by (auto simp: ReadCompactSize_def split: Option.bind_splits if_splits)

lemma unser_n_length: "unser_n f k is = Some (xs, r) \<Longrightarrow> length xs = k"
  by (induction f k "is" arbitrary: xs r rule: unser_n.induct) (auto split: Option.bind_splits)

lemma unser_vec_length:
  "0 < sizeofT \<Longrightarrow> sizeofT \<le> 5000000 \<Longrightarrow> unser_vec sizeofT f is = Some (v, r) \<Longrightarrow> length v \<le> MAX_SIZE"
  by (auto simp: unser_vec_eq split: Option.bind_splits dest!: unser_n_length dest: ReadCompactSize_bound)

lemma unser_bytes_eq: "unser_bytes is = unser_string is"
  by (auto simp: unser_bytes_def unser_string_def unser_blocks_eq split: Option.bind_splits prod.splits)

section \<open>Coders\<close>

text \<open>
  The contract of a \<open>Serialize\<close>/\<open>Unserialize\<close> pair: a value in \<open>ok\<close> is read back from the bytes it
  wrote, whatever follows them.  \<open>ok\<close> holds the limits of the format, such as \<open>MAX_SIZE\<close>.
\<close>

locale coder =
  fixes ser :: "'a \<Rightarrow> byte list"
    and unser :: "byte list \<Rightarrow> ('a \<times> byte list) option"
    and ok :: "'a \<Rightarrow> bool"
  assumes unser_ser: "ok x \<Longrightarrow> unser (ser x @ r) = Some (x, r)"
begin

lemma ser_prefix_free: "ok x \<Longrightarrow> ok y \<Longrightarrow> ser x @ r = ser y @ r' \<Longrightarrow> x = y \<and> r = r'"
  by (metis unser_ser option.inject prod.inject)

lemma ser_inject: "ok x \<Longrightarrow> ok y \<Longrightarrow> ser x = ser y \<longleftrightarrow> x = y"
  using ser_prefix_free [of x y "[]" "[]"] by auto

lemma unser_n_ser: "list_all ok xs \<Longrightarrow> unser_n unser (length xs) (concat (map ser xs) @ r) = Some (xs, r)"
  by (induction xs) (auto simp: unser_ser)

lemma vec_coder:
  assumes "0 < sizeofT" "sizeofT \<le> 5000000"
  shows "coder (ser_vec ser) (unser_vec sizeofT unser) (\<lambda>v. length v \<le> MAX_SIZE \<and> list_all ok v)"
proof
  fix v r
  assume v: "length v \<le> MAX_SIZE \<and> list_all ok v"
  then have "unat (word_of_nat (length v) :: u64) = length v"
    by (simp add: unat_of_nat MAX_SIZE_def)
  with v show "unser_vec sizeofT unser (ser_vec ser v @ r) = Some (v, r)"
    by (simp add: unser_vec_eq [OF assms] ser_vec_def ReadCompactSize_Write unser_n_ser)
qed

lemma pair_coder:
  assumes "coder ser' unser' ok'"
  shows "coder (ser_pair ser ser') (unser_pair unser unser') (\<lambda>p. ok (fst p) \<and> ok' (snd p))"
  by standard (auto simp: ser_pair_def unser_pair_def unser_ser coder.unser_ser [OF assms])

end

lemma word_coder: "LENGTH('a::len) mod 8 = 0 \<Longrightarrow> coder (ser_word :: 'a word \<Rightarrow> _) unser_word (\<lambda>_. True)"
  by standard (simp add: unser_ser_word)

interpretation u8: coder "ser_word :: byte \<Rightarrow> _" unser_word "\<lambda>_. True" by (rule word_coder) simp
interpretation u32: coder "ser_word :: u32 \<Rightarrow> _" unser_word "\<lambda>_. True" by (rule word_coder) simp
interpretation u64: coder "ser_word :: u64 \<Rightarrow> _" unser_word "\<lambda>_. True" by (rule word_coder) simp
interpretation u256: coder "ser_word :: uint256 \<Rightarrow> _" unser_word "\<lambda>_. True" by (rule word_coder) simp
interpretation bool_c: coder ser_bool unser_bool "\<lambda>_. True" by standard (rule unser_ser_bool)

interpretation compact: coder WriteCompactSize ReadCompactSize "\<lambda>n. unat n \<le> MAX_SIZE"
  by standard (simp add: ReadCompactSize_Write)

lemma unat_length_small: "length v \<le> MAX_SIZE \<Longrightarrow> unat (word_of_nat (length v) :: u64) = length v"
  by (simp add: unat_of_nat MAX_SIZE_def)

interpretation str: coder ser_string unser_string "\<lambda>v. length v \<le> MAX_SIZE"
  by standard (simp add: ser_string_def unser_string_def compact.unser_ser unat_length_small)

interpretation bytes_c: coder ser_bytes unser_bytes "\<lambda>v. length v \<le> MAX_SIZE"
  using str.unser_ser by unfold_locales (simp add: unser_bytes_eq ser_bytes_def ser_string_def)

interpretation hashes: coder "ser_vec (ser_word :: uint256 \<Rightarrow> _)" "unser_vec 32 unser_word"
    "\<lambda>v. length v \<le> MAX_SIZE \<and> list_all (\<lambda>_. True) v"
  by (rule u256.vec_coder) simp_all

lemma length_ser_string: "length (ser_string v) = size_string v"
  by (simp add: ser_string_def size_string_def length_WriteCompactSize)

lemma length_ser_vec: "(\<And>x. x \<in> set v \<Longrightarrow> length (ser x) = sz x) \<Longrightarrow> length (ser_vec ser v) = size_vec sz v"
  by (simp add: ser_vec_def size_vec_def length_WriteCompactSize length_concat comp_def cong: map_cong)

section \<open>Properties\<close>

text \<open>
  reading a vector in batches of at most 5000000 bytes, as \<open>Unserialize_impl\<close> does so that a false
  length cannot make it allocate, gives exactly the elements (or the failure) of reading them one by one.
\<close>

theorem unser_vec_batches:
  assumes "0 < sizeofT" "sizeofT \<le> 5000000"
  shows "unser_vec sizeofT f is = do { (nSize, r) \<leftarrow> ReadCompactSize is; unser_n f (unat nSize) r }"
  using unser_vec_eq [OF assms] .

theorem unser_vec_batches_witness:
  "unser_vec 4 (unser_word :: _ \<Rightarrow> (u32 \<times> _) option) [2, 1, 0, 0, 0, 2, 1, 0, 0, 9] = Some ([1, 0x102], [9])
   \<and> unser_vec 4 (unser_word :: _ \<Rightarrow> (u32 \<times> _) option) [3, 1, 0, 0, 0, 2] = None"
  unfolding unser_vec_batches [of 4, simplified] by code_simp

text \<open>
  \<open>ReadCompactSize\<close> reads back what \<open>WriteCompactSize\<close> wrote, in the number of bytes that
  \<open>GetSizeOfCompactSize\<close> announces, and refuses a size above \<open>MAX_SIZE\<close>.
\<close>

theorem compact_size_roundtrip:
  "length (WriteCompactSize n) = GetSizeOfCompactSize n
   \<and> ReadCompactSize (WriteCompactSize n @ r) = (if unat n \<le> MAX_SIZE then Some (n, r) else None)"
  using length_WriteCompactSize ReadCompactSize_Write by simp

end
