(* ===== verification/DataStream.thy ===== *)
theory DataStream
  imports Serialize
begin

text \<open>
  \<open>CDataStream\<close> of \<open>serialize.h\<close>: a byte vector with a read position.  The unread bytes form a queue;
  the contract \<open>byte_queue\<close> states what the serialization templates rely on, and the buffer with its
  lazily discarded prefix implements it.  \<open>fail\<close> is the \<open>failbit\<close> of \<open>state\<close> and \<open>throws\<close> the
  \<open>failbit\<close> of \<open>exceptmask\<close>.
\<close>

record CDataStream =
  vch :: "byte list"
  nReadPos :: nat
  fail :: bool
  throws :: bool

text \<open>\<open>Thrown s\<close>: the operation raised \<open>ios_base::failure\<close> and left the stream in state \<open>s\<close>.\<close>

datatype 'a io = Thrown CDataStream | Done 'a CDataStream

definition CDataStream_Init :: "byte list \<Rightarrow> CDataStream" where
  "CDataStream_Init v = \<lparr> vch = v, nReadPos = 0, fail = False, throws = True \<rparr>"

definition ds_str :: "CDataStream \<Rightarrow> byte list" where
  "ds_str s = drop (nReadPos s) (vch s)"

definition ds_size :: "CDataStream \<Rightarrow> nat" where
  "ds_size s = length (vch s) - nReadPos s"

definition ds_clear :: "CDataStream \<Rightarrow> CDataStream" where
  "ds_clear s = s\<lparr> vch := [], nReadPos := 0 \<rparr>"

definition ds_append :: "CDataStream \<Rightarrow> CDataStream \<Rightarrow> CDataStream" where
  "ds_append s b = s\<lparr> vch := vch s @ ds_str b \<rparr>"

text \<open>The iterator arguments of \<open>insert\<close> and \<open>erase\<close> are indices into \<open>vch\<close>.\<close>

definition ds_insert :: "nat \<Rightarrow> byte list \<Rightarrow> CDataStream \<Rightarrow> CDataStream" where
  "ds_insert it x s =
     (if it = nReadPos s \<and> length x \<le> nReadPos s
      then (let p = nReadPos s - length x
            in s\<lparr> nReadPos := p, vch := take p (vch s) @ x @ drop (p + length x) (vch s) \<rparr>)
      else s\<lparr> vch := take it (vch s) @ x @ drop it (vch s) \<rparr>)"

definition ds_insert_char :: "nat \<Rightarrow> byte \<Rightarrow> CDataStream \<Rightarrow> CDataStream" where
  "ds_insert_char it x s = s\<lparr> vch := take it (vch s) @ x # drop it (vch s) \<rparr>"

definition ds_insert_fill :: "nat \<Rightarrow> nat \<Rightarrow> byte \<Rightarrow> CDataStream \<Rightarrow> CDataStream" where
  "ds_insert_fill it n x s = s\<lparr> vch := take it (vch s) @ replicate n x @ drop it (vch s) \<rparr>"

definition ds_resize :: "nat \<Rightarrow> byte \<Rightarrow> CDataStream \<Rightarrow> CDataStream" where
  "ds_resize n c s = s\<lparr> vch := take (n + nReadPos s) (vch s) @ replicate (n + nReadPos s - length (vch s)) c \<rparr>"

definition ds_erase1 :: "nat \<Rightarrow> CDataStream \<Rightarrow> CDataStream" where
  "ds_erase1 it s =
     (if it = nReadPos s
      then (if Suc (nReadPos s) \<ge> length (vch s) then s\<lparr> nReadPos := 0, vch := [] \<rparr>
            else s\<lparr> nReadPos := Suc (nReadPos s) \<rparr>)
      else s\<lparr> vch := take it (vch s) @ drop (Suc it) (vch s) \<rparr>)"

definition ds_erase :: "nat \<Rightarrow> nat \<Rightarrow> CDataStream \<Rightarrow> CDataStream" where
  "ds_erase first lst s =
     (if first = nReadPos s
      then (if lst = length (vch s) then s\<lparr> nReadPos := 0, vch := [] \<rparr> else s\<lparr> nReadPos := lst \<rparr>)
      else s\<lparr> vch := take first (vch s) @ drop lst (vch s) \<rparr>)"

definition ds_Compact :: "CDataStream \<Rightarrow> CDataStream" where
  "ds_Compact s = s\<lparr> vch := drop (nReadPos s) (vch s), nReadPos := 0 \<rparr>"

definition ds_Rewind :: "nat \<Rightarrow> CDataStream \<Rightarrow> bool \<times> CDataStream" where
  "ds_Rewind n s = (if n > nReadPos s then (False, s) else (True, s\<lparr> nReadPos := nReadPos s - n \<rparr>))"

text \<open>The stream state: \<open>eof\<close>, \<open>good\<close>, and \<open>clear(n)\<close> and \<open>exceptions(mask)\<close> for the \<open>failbit\<close> of their argument.\<close>

definition ds_eof :: "CDataStream \<Rightarrow> bool" where
  "ds_eof s \<longleftrightarrow> ds_size s = 0"

definition ds_good :: "CDataStream \<Rightarrow> bool" where
  "ds_good s \<longleftrightarrow> \<not> ds_eof s \<and> \<not> fail s"

definition ds_clear_state :: "bool \<Rightarrow> CDataStream \<Rightarrow> CDataStream" where
  "ds_clear_state n s = s\<lparr> fail := n \<rparr>"

definition ds_exceptions :: "bool \<Rightarrow> CDataStream \<Rightarrow> bool io" where
  "ds_exceptions m s = (if fail s \<and> m then Thrown (s\<lparr> throws := m \<rparr>) else Done (throws s) (s\<lparr> throws := m \<rparr>))"

text \<open>
  \<open>setstate(failbit)\<close> throws when \<open>exceptmask\<close> has the bit; otherwise the read is padded with zeros.
  The sum is computed in \<open>unsigned int\<close>.
\<close>

definition ds_read :: "nat \<Rightarrow> CDataStream \<Rightarrow> byte list io" where
  "ds_read nSize s =
     (let nReadPosNext = (nReadPos s + nSize) mod 2 ^ 32
      in if nReadPosNext \<ge> length (vch s) then
           (if nReadPosNext > length (vch s) then
              (if throws s then Thrown (s\<lparr> fail := True \<rparr>)
               else Done (drop (nReadPos s) (vch s) @ replicate (nSize - (length (vch s) - nReadPos s)) 0)
                      (s\<lparr> fail := True, nReadPos := 0, vch := [] \<rparr>))
            else Done (take nSize (drop (nReadPos s) (vch s))) (s\<lparr> nReadPos := 0, vch := [] \<rparr>))
         else Done (take nSize (drop (nReadPos s) (vch s))) (s\<lparr> nReadPos := nReadPosNext \<rparr>))"

definition ds_ignore :: "nat \<Rightarrow> CDataStream \<Rightarrow> unit io" where
  "ds_ignore nSize s =
     (let nReadPosNext = (nReadPos s + nSize) mod 2 ^ 32
      in if nReadPosNext \<ge> length (vch s) then
           (if nReadPosNext > length (vch s) \<and> throws s then Thrown (s\<lparr> fail := True \<rparr>)
            else Done () (s\<lparr> fail := (fail s \<or> nReadPosNext > length (vch s)), nReadPos := 0, vch := [] \<rparr>))
         else Done () (s\<lparr> nReadPos := nReadPosNext \<rparr>))"

definition ds_write :: "byte list \<Rightarrow> CDataStream \<Rightarrow> CDataStream" where
  "ds_write x s = s\<lparr> vch := vch s @ x \<rparr>"

text \<open>\<open>CDataStream::Serialize\<close>, the meaning of \<open>stream << stream\<close>.\<close>

definition ds_Serialize :: "CDataStream \<Rightarrow> CDataStream \<Rightarrow> CDataStream" where
  "ds_Serialize b s = (if vch b = [] then s else ds_write (vch b) s)"

definition ds_ok :: "CDataStream \<Rightarrow> bool" where
  "ds_ok s \<longleftrightarrow> nReadPos s \<le> length (vch s) \<and> length (vch s) < 2 ^ 31 \<and> throws s"

definition ds_room :: "CDataStream \<Rightarrow> nat \<Rightarrow> bool" where
  "ds_room s n \<longleftrightarrow> length (vch s) + n < 2 ^ 31"

definition io_opt :: "'a io \<Rightarrow> ('a \<times> CDataStream) option" where
  "io_opt r = (case r of Thrown s \<Rightarrow> None | Done x s \<Rightarrow> Some (x, s))"

text \<open>The vector operations act on the unread bytes, whatever was read before.\<close>

lemma ds_resize_str: "nReadPos s \<le> length (vch s) \<Longrightarrow> ds_str (ds_resize n c s) = take n (ds_str s) @ replicate (n - ds_size s) c"
  by (simp add: ds_str_def ds_resize_def ds_size_def take_drop add.commute)

lemma ds_insert_fill_str:
  "nReadPos s \<le> it \<Longrightarrow> it \<le> length (vch s) \<Longrightarrow>
   ds_str (ds_insert_fill it n x s) = take (it - nReadPos s) (ds_str s) @ replicate n x @ drop (it - nReadPos s) (ds_str s)"
  by (simp add: ds_str_def ds_insert_fill_def drop_take)

lemma ds_insert_char_fill: "ds_insert_char it x s = ds_insert_fill it 1 x s"
  by (simp add: ds_insert_char_def ds_insert_fill_def)

section \<open>A stream is a queue of bytes\<close>

locale byte_queue =
  fixes rd :: "nat \<Rightarrow> 's \<Rightarrow> (byte list \<times> 's) option"
    and wr :: "byte list \<Rightarrow> 's \<Rightarrow> 's"
    and rest :: "'s \<Rightarrow> byte list"
    and ok :: "'s \<Rightarrow> bool"
    and room :: "'s \<Rightarrow> nat \<Rightarrow> bool"
    and limit :: nat
  assumes rd_rest: "ok s \<Longrightarrow> n < limit \<Longrightarrow> map_option (apsnd rest) (rd n s) = read_bytes n (rest s)"
    and rd_ok: "ok s \<Longrightarrow> n < limit \<Longrightarrow> rd n s = Some (x, s') \<Longrightarrow> ok s'"
    and wr_rest: "ok s \<Longrightarrow> rest (wr x s) = rest s @ x"
    and wr_ok: "ok s \<Longrightarrow> room s (length x) \<Longrightarrow> ok (wr x s)"
    and room_wr: "room (wr x s) n \<longleftrightarrow> room s (length x + n)"
    and room_le: "room s n \<Longrightarrow> m \<le> n \<Longrightarrow> room s m"
begin

fun wrs :: "byte list list \<Rightarrow> 's \<Rightarrow> 's" where
  "wrs [] s = s"
| "wrs (x # xs) s = wrs xs (wr x s)"

fun rds :: "nat list \<Rightarrow> 's \<Rightarrow> (byte list list \<times> 's) option" where
  "rds [] s = Some ([], s)"
| "rds (n # ns) s = do { (x, s') \<leftarrow> rd n s; (xs, s'') \<leftarrow> rds ns s'; Some (x # xs, s'') }"

lemma rd_prefix:
  assumes "ok s" "rest s = x @ r" "length x < limit"
  obtains s' where "rd (length x) s = Some (x, s')" "rest s' = r" "ok s'"
proof -
  have "map_option (apsnd rest) (rd (length x) s) = Some (x, r)"
    using rd_rest [OF assms(1,3)] assms(2) by simp
  then obtain s' where s': "rd (length x) s = Some (x, s')" "rest s' = r" by auto
  then show thesis using rd_ok [OF assms(1,3) s'(1)] that by blast
qed

lemma rd_short: "ok s \<Longrightarrow> n < limit \<Longrightarrow> length (rest s) < n \<Longrightarrow> rd n s = None"
  using rd_rest [of s n] by (simp add: read_bytes_def)

lemma wrs_rest: "ok s \<Longrightarrow> room s (length (concat xs)) \<Longrightarrow> rest (wrs xs s) = rest s @ concat xs \<and> ok (wrs xs s)"
proof (induction xs arbitrary: s)
  case (Cons x xs)
  have "ok (wr x s)" using Cons.prems by (intro wr_ok) (auto intro: room_le)
  moreover have "room (wr x s) (length (concat xs))" using Cons.prems by (simp add: room_wr)
  ultimately show ?case using Cons.IH [of "wr x s"] Cons.prems wr_rest [of s x] by auto
qed simp

lemma rds_concat:
  "ok s \<Longrightarrow> rest s = concat xs @ r \<Longrightarrow> list_all (\<lambda>x. length x < limit) xs \<Longrightarrow>
   \<exists>s'. rds (map length xs) s = Some (xs, s') \<and> rest s' = r \<and> ok s'"
proof (induction xs arbitrary: s)
  case (Cons x xs)
  then obtain s' where s': "rd (length x) s = Some (x, s')" "rest s' = concat xs @ r" "ok s'"
    using rd_prefix [of s x "concat xs @ r"] by auto
  then show ?case using Cons.IH [of s'] Cons.prems by auto
qed simp

text \<open>What was written in pieces is read back in the same pieces.\<close>

lemma write_read:
  assumes "ok s" "rest s = []" "room s (length (concat xs))" "list_all (\<lambda>x. length x < limit) xs"
  shows "\<exists>s'. rds (map length xs) (wrs xs s) = Some (xs, s') \<and> rest s' = []"
  using rds_concat [of "wrs xs s" xs "[]"] wrs_rest [OF assms(1,3)] assms by auto

end

lemma ds_read_Next: "ds_ok s \<Longrightarrow> n < 2 ^ 31 \<Longrightarrow> (nReadPos s + n) mod 2 ^ 32 = nReadPos s + n"
  by (simp add: ds_ok_def)

text \<open>On a stream in order, a read takes bytes, empties the buffer at the end, or throws.\<close>

lemma ds_read_eq:
  assumes "ds_ok s" "n < 2 ^ 31"
  shows "ds_read n s =
    (if ds_size s < n then Thrown (s\<lparr> fail := True \<rparr>)
     else Done (take n (ds_str s))
       (if n = ds_size s then s\<lparr> nReadPos := 0, vch := [] \<rparr> else s\<lparr> nReadPos := nReadPos s + n \<rparr>))"
  using assms(1) unfolding ds_read_def ds_read_Next [OF assms]
  by (auto simp: ds_size_def ds_str_def ds_ok_def Let_def)

lemma ds_ignore_eq:
  assumes "ds_ok s" "n < 2 ^ 31"
  shows "ds_ignore n s =
    (if ds_size s < n then Thrown (s\<lparr> fail := True \<rparr>)
     else Done ()
       (if n = ds_size s then s\<lparr> nReadPos := 0, vch := [] \<rparr> else s\<lparr> nReadPos := nReadPos s + n \<rparr>))"
  using assms(1) unfolding ds_ignore_def ds_read_Next [OF assms]
  by (auto simp: ds_size_def ds_str_def ds_ok_def Let_def)

lemma length_ds_str: "length (ds_str s) = ds_size s"
  by (simp add: ds_str_def ds_size_def)

lemma ds_read_rest:
  "ds_ok s \<Longrightarrow> n < 2 ^ 31 \<Longrightarrow> map_option (apsnd ds_str) (io_opt (ds_read n s)) = read_bytes n (ds_str s)"
  by (auto simp: ds_read_eq io_opt_def read_bytes_def length_ds_str)
    (auto simp: ds_str_def ds_size_def ac_simps)

lemma ds_read_ok: "ds_ok s \<Longrightarrow> n < 2 ^ 31 \<Longrightarrow> ds_read n s = Done x s' \<Longrightarrow> ds_ok s'"
  by (auto simp: ds_read_eq ds_ok_def ds_size_def split: if_splits)

interpretation dsq: byte_queue "\<lambda>n s. io_opt (ds_read n s)" ds_write ds_str ds_ok ds_room "2 ^ 31"
proof
  show "map_option (apsnd ds_str) (io_opt (ds_read n s)) = read_bytes n (ds_str s)"
    if "ds_ok s" "n < 2 ^ 31" for s n using that by (rule ds_read_rest)
  show "ds_ok s'" if "ds_ok s" "n < 2 ^ 31" "io_opt (ds_read n s) = Some (x, s')" for s s' n x
    using that ds_read_ok by (cases "ds_read n s") (auto simp: io_opt_def)
  show "ds_ok s \<Longrightarrow> ds_str (ds_write x s) = ds_str s @ x" for s x
    by (simp add: ds_ok_def ds_write_def ds_str_def)
qed (simp_all add: ds_ok_def ds_room_def ds_write_def add.assoc)

lemma ds_ignore_read:
  "ds_ok s \<Longrightarrow> n < 2 ^ 31 \<Longrightarrow> map_option snd (io_opt (ds_ignore n s)) = map_option snd (io_opt (ds_read n s))"
  by (simp add: ds_ignore_eq ds_read_eq io_opt_def)

lemma ds_insert_front:
  "ds_ok s \<Longrightarrow> ds_str (ds_insert (nReadPos s) x s) = x @ ds_str s"
  by (auto simp: ds_insert_def ds_str_def ds_ok_def Let_def)

lemma ds_Compact_str: "ds_str (ds_Compact s) = ds_str s"
  by (simp add: ds_Compact_def ds_str_def)

lemma ds_Rewind_read:
  assumes "ds_ok s" "n < 2 ^ 31" "ds_read n s = Done x s'" "n < ds_size s"
  shows "ds_Rewind n s' = (True, s)"
proof -
  have "nReadPos s + n < length (vch s)" using assms(4) by (simp add: ds_size_def)
  then have "s' = s\<lparr> nReadPos := nReadPos s + n \<rparr>"
    using assms(3,4) by (simp add: ds_read_eq [OF assms(1,2)])
  then show ?thesis by (simp add: ds_Rewind_def)
qed

section \<open>Properties\<close>

text \<open>
  a message assembled in a fresh \<open>CDataStream\<close> by any sequence of writes is read back by reads of the
  same lengths, each read giving the bytes of its write, and the stream is then at its end.
\<close>

theorem CDataStream_write_read:
  assumes "length (concat xs) < 2 ^ 31"
  shows "\<exists>s. dsq.rds (map length xs) (dsq.wrs xs (CDataStream_Init [])) = Some (xs, s) \<and> ds_str s = []"
proof -
  have "length x < 2 ^ 31" if "x \<in> set xs" for x
  proof -
    have "length x \<le> sum_list (map length xs)" using that by (intro member_le_sum_list) auto
    then show ?thesis using assms by (simp only: length_concat)
  qed
  then have "list_all (\<lambda>x. length x < 2 ^ 31) xs" by (simp add: list_all_iff)
  moreover have "ds_ok (CDataStream_Init [])" "ds_str (CDataStream_Init []) = []"
    by (simp_all add: CDataStream_Init_def ds_ok_def ds_str_def)
  moreover have "ds_room (CDataStream_Init []) (length (concat xs))"
    using assms by (simp only: ds_room_def CDataStream_Init_def CDataStream.simps list.size add_0)
  ultimately show ?thesis by (intro dsq.write_read)
qed

theorem CDataStream_write_read_witness:
  "\<exists>s. dsq.rds (map length [[1 :: byte, 2], [], [3 :: byte]]) (dsq.wrs [[1, 2], [], [3]] (CDataStream_Init []))
     = Some ([[1, 2], [], [3]], s) \<and> ds_str s = []"
  by (rule CDataStream_write_read) simp

text \<open>
  \<open>Serialize\<close> of a stream into another writes also the bytes that were already read, unlike \<open>+=\<close>,
  which it is said to mirror; the two agree exactly on a stream of which nothing has been read.
\<close>

theorem CDataStream_Serialize_append:
  assumes "nReadPos b \<le> length (vch b)"
  shows "ds_Serialize b s = ds_append s b \<longleftrightarrow> nReadPos b = 0"
proof -
  have unread: "vch b = drop (nReadPos b) (vch b) \<longleftrightarrow> nReadPos b = 0"
  proof
    assume "vch b = drop (nReadPos b) (vch b)"
    from arg_cong [OF this, of length] have "length (vch b) = length (vch b) - nReadPos b"
      unfolding length_drop .
    then show "nReadPos b = 0" using assms by linarith
  qed simp
  have ser: "ds_Serialize b s = s\<lparr> vch := vch s @ vch b \<rparr>"
    by (simp add: ds_Serialize_def ds_write_def)
  have upd: "s\<lparr> vch := x \<rparr> = s\<lparr> vch := y \<rparr> \<longleftrightarrow> x = y" for x y
    by (cases s) simp
  have "ds_Serialize b s = ds_append s b \<longleftrightarrow> vch s @ vch b = vch s @ drop (nReadPos b) (vch b)"
    unfolding ser ds_append_def ds_str_def by (rule upd)
  also have "\<dots> \<longleftrightarrow> vch b = drop (nReadPos b) (vch b)" by (rule same_append_eq)
  also note unread
  finally show ?thesis .
qed

theorem CDataStream_Serialize_append_witness:
  "ds_Serialize \<lparr> vch = [7, 8], nReadPos = 1, fail = False, throws = True \<rparr> (CDataStream_Init [])
     \<noteq> ds_append (CDataStream_Init []) \<lparr> vch = [7, 8], nReadPos = 1, fail = False, throws = True \<rparr>"
  using CDataStream_Serialize_append [of "\<lparr> vch = [7, 8], nReadPos = 1, fail = False, throws = True \<rparr>" "CDataStream_Init []"]
  by simp

end
