(* ===== verification/Bignum.thy ===== *)
theory Bignum
  imports Serialize
begin

text \<open>
  \<open>CBigNum\<close> of \<open>bignum.h\<close>.  A big number is an \<^typ>\<open>int\<close> and the arithmetic operators of the class
  are the integer ones, with division truncating towards zero.  The conversions go through OpenSSL's
  MPI format (\<open>BN_mpi2bn\<close>, \<open>BN_bn2mpi\<close>), which is a parameter; the locale \<open>mpi_lib\<close> states its
  documented format: a four byte big-endian length, then the magnitude in big-endian, the top bit
  of its first byte being the sign.
\<close>

record bn_lib =
  BN_mpi2bn :: "byte list \<Rightarrow> int"
  BN_bn2mpi :: "int \<Rightarrow> byte list"
  BN_get_word :: "int \<Rightarrow> u64"

definition be32 :: "nat \<Rightarrow> byte list" where
  "be32 nSize =
     [word_of_nat (nSize div 2 ^ 24), word_of_nat (nSize div 2 ^ 16), word_of_nat (nSize div 2 ^ 8), word_of_nat nSize]"

text \<open>
  The loop of \<open>setint64\<close>, \<open>setuint64\<close> and \<open>setuint256\<close> over the bytes from the most significant one:
  leading zeros are skipped and the sign bit is put into the first byte, or before it.
\<close>

fun put_be :: "bool \<Rightarrow> bool \<Rightarrow> byte list \<Rightarrow> byte list" where
  "put_be fLeadingZeroes fNegative [] = []"
| "put_be fLeadingZeroes fNegative (c # cs) =
     (if fLeadingZeroes then
        (if c = 0 then put_be True fNegative cs
         else if c AND 0x80 \<noteq> 0 then (if fNegative then 0x80 else 0) # c # put_be False fNegative cs
         else (if fNegative then c OR 0x80 else c) # put_be False fNegative cs)
      else c # put_be False fNegative cs)"

fun shl_bytes :: "nat \<Rightarrow> u64 \<Rightarrow> byte list" where
  "shl_bytes 0 n = []"
| "shl_bytes (Suc k) n = ucast (drop_bit 56 n AND 0xff) # shl_bytes k (push_bit 8 n)"

definition setint64 :: "bn_lib \<Rightarrow> i64 \<Rightarrow> int" where
  "setint64 L sn =
     (let fNegative = sint sn < 0;
          n = (if fNegative then - (sn + 1) + 1 else sn);
          p = put_be True fNegative (shl_bytes 8 n)
      in BN_mpi2bn L (be32 (length p) @ p))"

definition setuint64 :: "bn_lib \<Rightarrow> u64 \<Rightarrow> int" where
  "setuint64 L n = (let p = put_be True False (shl_bytes 8 n) in BN_mpi2bn L (be32 (length p) @ p))"

definition setuint256 :: "bn_lib \<Rightarrow> uint256 \<Rightarrow> int" where
  "setuint256 L n = (let p = put_be True False (rev (word_to_le n)) in BN_mpi2bn L (be32 (length p) @ p))"

text \<open>
  \<open>getuint64\<close> and \<open>getuint256\<close> clear the sign bit and copy the bytes from the end of the magnitude
  (index \<open>j\<close>) to the front of a zeroed integer of \<open>sz\<close> bytes.
\<close>

definition get_magnitude :: "bn_lib \<Rightarrow> nat \<Rightarrow> int \<Rightarrow> byte list" where
  "get_magnitude L sz bn =
     (let vch = BN_bn2mpi L bn in
      if length vch < 4 then replicate sz 0
      else let vch' = (if length vch > 4 then vch[4 := vch ! 4 AND 0x7f] else vch);
               n = take sz (rev (drop 4 vch'))
           in n @ replicate (sz - length n) 0)"

definition getuint64 :: "bn_lib \<Rightarrow> int \<Rightarrow> u64" where
  "getuint64 L bn = word_of_le (get_magnitude L 8 bn)"

definition getuint256 :: "bn_lib \<Rightarrow> int \<Rightarrow> uint256" where
  "getuint256 L bn = word_of_le (get_magnitude L 32 bn)"

definition getint :: "bn_lib \<Rightarrow> int \<Rightarrow> int" where
  "getint L bn =
     (let n = uint (BN_get_word L bn) in
      if \<not> bn < 0 then (if n > 2147483647 then 2147483647 else n)
      else (if n > 2147483647 then - 2147483648 else - n))"

definition setvch :: "bn_lib \<Rightarrow> byte list \<Rightarrow> int" where
  "setvch L vch = BN_mpi2bn L (be32 (length vch) @ rev vch)"

definition getvch :: "bn_lib \<Rightarrow> int \<Rightarrow> byte list" where
  "getvch L bn = (let vch = BN_bn2mpi L bn in if length vch \<le> 4 then [] else rev (drop 4 vch))"

definition SetCompact :: "bn_lib \<Rightarrow> u32 \<Rightarrow> int" where
  "SetCompact L nCompact =
     (let nSize = unat (drop_bit 24 nCompact);
          v0 = (replicate (4 + nSize) 0)[3 := word_of_nat nSize];
          v1 = (if nSize \<ge> 1 then v0[4 := ucast (drop_bit 16 nCompact AND 0xff)] else v0);
          v2 = (if nSize \<ge> 2 then v1[5 := ucast (drop_bit 8 nCompact AND 0xff)] else v1);
          v3 = (if nSize \<ge> 3 then v2[6 := ucast (nCompact AND 0xff)] else v2)
      in BN_mpi2bn L v3)"

definition GetCompact :: "bn_lib \<Rightarrow> int \<Rightarrow> u32" where
  "GetCompact L bn =
     (let vch = BN_bn2mpi L bn;
          nSize = length vch - 4;
          c0 = push_bit 24 (word_of_nat nSize);
          c1 = (if nSize \<ge> 1 then c0 OR push_bit 16 (ucast (vch ! 4)) else c0);
          c2 = (if nSize \<ge> 2 then c1 OR push_bit 8 (ucast (vch ! 5)) else c1)
      in if nSize \<ge> 3 then c2 OR ucast (vch ! 6) else c2)"

text \<open>\<open>operator/\<close> (\<open>None\<close> where it throws), \<open>operator%\<close>, \<open>operator<<\<close> and \<open>operator>>=\<close>.\<close>

definition bn_div :: "int \<Rightarrow> int \<Rightarrow> int option" where
  "bn_div a b = (if b = 0 then None else Some (sgn a * sgn b * (\<bar>a\<bar> div \<bar>b\<bar>)))"

definition bn_nnmod :: "int \<Rightarrow> int \<Rightarrow> int option" where
  "bn_nnmod a b = (if b = 0 then None else Some (a mod \<bar>b\<bar>))"

definition bn_lshift :: "int \<Rightarrow> nat \<Rightarrow> int" where
  "bn_lshift a shift = a * 2 ^ shift"

definition bn_rshift :: "int \<Rightarrow> nat \<Rightarrow> int" where
  "bn_rshift a shift = (if bn_lshift 1 shift > a then 0 else a div 2 ^ shift)"

text \<open>\<open>ToString\<close>: the digits are produced from the least significant one, then reversed.\<close>

function ToString_loop :: "int \<Rightarrow> int \<Rightarrow> string \<Rightarrow> string" where
  "ToString_loop nBase bn str =
     (if bn > 0 \<and> nBase > 1
      then ToString_loop nBase (bn div nBase) (str @ [''0123456789abcdef'' ! nat (bn mod nBase)]) else str)"
  by pat_completeness auto
termination
  by (relation "measure (\<lambda>(b, n, s). nat n)") (auto simp: pos_imp_zdiv_pos_iff intro: int_div_less_self)

definition bn_ToString :: "int \<Rightarrow> int \<Rightarrow> string" where
  "bn_ToString nBase bn =
     (if bn = 0 then ''0''
      else rev (ToString_loop nBase \<bar>bn\<bar> '''' @ (if bn < 0 then ''-'' else '''')))"

section \<open>The MPI format\<close>

definition be_nat :: "byte list \<Rightarrow> nat" where
  "be_nat bs = le_nat (rev bs)"

definition mpi_value :: "byte list \<Rightarrow> int" where
  "mpi_value body = (case body of [] \<Rightarrow> 0
     | b # bs \<Rightarrow> (if b AND 0x80 \<noteq> 0 then - int (be_nat ((b AND 0x7f) # bs)) else int (be_nat body)))"

function nat_le :: "nat \<Rightarrow> byte list" where
  "nat_le n = (if n = 0 then [] else word_of_nat n # nat_le (n div 256))"
  by pat_completeness auto
termination by (relation "measure id") auto

declare nat_le.simps [simp del] ToString_loop.simps [simp del]

definition mpi_body :: "int \<Rightarrow> byte list" where
  "mpi_body z = put_be True (z < 0) (rev (nat_le (nat \<bar>z\<bar>)))"

definition mpi_ref :: bn_lib where
  "mpi_ref = \<lparr> BN_mpi2bn = (\<lambda>v. mpi_value (drop 4 v)),
               BN_bn2mpi = (\<lambda>z. be32 (length (mpi_body z)) @ mpi_body z),
               BN_get_word = (\<lambda>z. if \<bar>z\<bar> < 2 ^ 64 then word_of_int \<bar>z\<bar> else -1) \<rparr>"

locale mpi_lib =
  fixes L :: bn_lib
  assumes mpi2bn: "length body < 2 ^ 32 \<Longrightarrow> BN_mpi2bn L (be32 (length body) @ body) = mpi_value body"
    and bn2mpi: "BN_bn2mpi L z = be32 (length (mpi_body z)) @ mpi_body z"
    and get_word: "BN_get_word L z = (if \<bar>z\<bar> < 2 ^ 64 then word_of_int \<bar>z\<bar> else -1)"



lemma be_nat_simps [simp]: "be_nat [] = 0" "be_nat (b # bs) = unat b * 256 ^ length bs + be_nat bs"
  by (simp_all add: be_nat_def le_nat_append)

lemma byte_sign: "(b :: byte) AND 0x80 \<noteq> 0 \<longleftrightarrow> 128 \<le> unat b"
proof -
  have "(b AND 2 ^ 7 \<noteq> 0) = bit b 7" by (simp only: and_exp_eq_0_iff_not_bit not_not)
  also have "\<dots> = bit (unat b) 7" by (simp add: bit_unsigned_iff)
  also have "\<dots> = odd (unat b div 128)" by (simp add: bit_iff_odd)
  also have "\<dots> \<longleftrightarrow> 128 \<le> unat b"
  proof -
    have "unat b div 128 < 2" using unat_byte_less [of b] by (intro less_mult_imp_div_less) simp
    moreover have "unat b div 128 \<noteq> 0 \<longleftrightarrow> 128 \<le> unat b" by (simp add: div_eq_0_iff not_less)
    ultimately show ?thesis by (auto simp: less_2_cases_iff)
  qed
  finally show ?thesis by simp
qed

lemma byte_and_7f: "unat ((b :: byte) AND 0x7f) = unat b mod 128"
proof -
  have "b AND 0x7f = take_bit 7 b" by (simp add: take_bit_eq_mask mask_eq_exp_minus_1)
  then have "unat (b AND 0x7f) = take_bit 7 (unat b)" by (simp only: unsigned_take_bit_eq)
  then show ?thesis by (simp add: take_bit_eq_mod)
qed

lemma byte_or_80: "unat (b :: byte) < 128 \<Longrightarrow> unat (b OR 0x80) = unat b + 128"
proof -
  assume b: "unat b < 128"
  then have "b AND 0x80 = 0" using byte_sign [of b] by auto
  then have "b OR 0x80 = b + 0x80" by (simp add: disjunctive_add_eq_or)
  then show ?thesis using b by (simp add: unat_plus_if')
qed

lemma put_be_False: "put_be False neg bs = bs"
  by (induction bs) auto

lemma length_put_be: "length (put_be f neg bs) \<le> Suc (length bs)"
  by (induction f neg bs rule: put_be.induct) (auto simp: put_be_False)

lemma byte_neq_0: "(c :: byte) \<noteq> 0 \<longleftrightarrow> 0 < unat c"
  by (simp add: word_unat_eq_iff)

text \<open>The loop writes the MPI image of the number whose big-endian bytes it reads.\<close>

lemma mpi_value_put_be: "mpi_value (put_be True neg bs) = (if neg then - int (be_nat bs) else int (be_nat bs))"
proof (induction bs)
  case Nil
  then show ?case by (simp add: mpi_value_def)
next
  case (Cons c cs)
  consider "c = 0" | "c \<noteq> 0" "128 \<le> unat c" | "c \<noteq> 0" "unat c < 128" by linarith
  then show ?case
  proof cases
    case 1
    then show ?thesis using Cons by simp
  next
    case 2
    have "(0x80 :: byte) AND 0x7f = 0" "(0x80 :: byte) AND 0x80 \<noteq> 0" by simp_all
    with 2 show ?thesis by (simp add: byte_sign mpi_value_def put_be_False)
  next
    case 3
    have "c AND 0x80 = 0" using 3 byte_sign [of c] by auto
    moreover have "(c OR 0x80) AND 0x80 \<noteq> 0" using byte_or_80 [OF 3(2)] by (simp add: byte_sign)
    moreover have "unat ((c OR 0x80) AND 0x7f) = unat c"
      using byte_or_80 [OF 3(2)] 3(2) by (simp only: byte_and_7f) simp
    ultimately show ?thesis using 3(1) by (simp add: mpi_value_def put_be_False)
  qed
qed

lemma nat_le_simps: "nat_le 0 = []" "0 < n \<Longrightarrow> nat_le n = word_of_nat n # nat_le (n div 256)"
  by (subst nat_le.simps, simp)+

lemma le_nat_nat_le: "le_nat (nat_le n) = n"
proof (induction n rule: nat_le.induct)
  case (1 n)
  then show ?case by (cases "n = 0") (simp_all add: nat_le_simps unat_byte_of_nat)
qed

lemma nat_le_last: "0 < n \<Longrightarrow> nat_le n \<noteq> [] \<and> last (nat_le n) \<noteq> 0"
proof (induction n rule: nat_le.induct)
  case (1 n)
  show ?case
  proof (cases "n div 256 = 0")
    case True
    then have "n < 256" by simp
    with 1 True show ?thesis by (simp add: nat_le_simps byte_neq_0 unat_byte_of_nat)
  next
    case False
    with 1 show ?thesis by (simp add: nat_le_simps)
  qed
qed

lemma nat_le_of_le_nat: "bs \<noteq> [] \<Longrightarrow> last bs \<noteq> 0 \<Longrightarrow> nat_le (le_nat bs) = bs"
proof (induction bs)
  case (Cons b bs)
  have pos: "0 < le_nat (b # bs)"
  proof (cases "bs = []")
    case True
    then show ?thesis using Cons.prems by (simp add: byte_neq_0)
  next
    case False
    then have "nat_le (le_nat bs) \<noteq> []" using Cons by simp
    then have "le_nat bs \<noteq> 0" using nat_le_simps(1) by metis
    then show ?thesis by simp
  qed
  have "(word_of_nat (le_nat (b # bs)) :: byte) = b" "le_nat (b # bs) div 256 = le_nat bs"
    using mod_less [OF unat_byte_less [of b]] unat_byte_less [of b]
    by (simp_all add: word_unat_eq_iff unat_of_nat del: of_nat_add of_nat_mult)
  then have "nat_le (le_nat (b # bs)) = b # nat_le (le_nat bs)"
    using pos by (subst nat_le_simps(2)) simp_all
  then show ?case using Cons by (cases "bs = []") (auto simp: nat_le_simps)
qed simp

lemma mpi_value_body: "mpi_value (mpi_body z) = z"
  by (simp add: mpi_body_def mpi_value_put_be be_nat_def le_nat_nat_le)

interpretation mref: mpi_lib mpi_ref
  by standard (simp_all add: mpi_ref_def be32_def)



section \<open>The conversions compute the numbers they name\<close>

lemma be32_small: "n < 256 \<Longrightarrow> be32 n = [0, 0, 0, word_of_nat n]"
  by (simp add: be32_def)

lemma length_be32 [simp]: "length (be32 n) = 4"
  by (simp add: be32_def)

lemma drop_be32 [simp]: "drop 4 (be32 n @ xs) = xs"
  by (simp add: be32_def)

lemma be_nat_append: "be_nat (xs @ ys) = be_nat xs * 256 ^ length ys + be_nat ys"
  by (simp add: be_nat_def le_nat_append)

lemma be_nat_replicate0 [simp]: "be_nat (replicate k 0) = 0"
  by (simp add: be_nat_def)

lemma mpi_value_zeros: "mpi_value (xs @ replicate k 0) = mpi_value xs * 256 ^ k"
proof (cases xs)
  case Nil
  then show ?thesis by (cases k) (simp_all add: mpi_value_def)
next
  case (Cons b bs)
  have "be_nat (y # bs @ replicate k 0) = be_nat (y # bs) * 256 ^ k" for y
    using be_nat_append [of "y # bs" "replicate k 0"] by simp
  with Cons show ?thesis by (simp add: mpi_value_def del: be_nat_simps)
qed

lemma nth_word_to_le:
  assumes "i < LENGTH('a::len) div 8"
  shows "word_to_le (w :: 'a word) ! i = ucast (drop_bit (8 * i) w)"
proof -
  have le: "j < k \<Longrightarrow> le_bytes k n ! j = word_of_nat (n div 256 ^ j)" for j k n
    by (induction k n arbitrary: j rule: le_bytes.induct) (auto simp: nth_Cons div_mult2_eq split: nat.splits)
  have "unat (drop_bit (8 * i) w) = drop_bit (8 * i) (unat w)" by (rule unat_drop_bit_eq)
  then have "unat w div 256 ^ i = unat (drop_bit (8 * i) w)"
    by (simp only: drop_bit_nat_def power_mult) simp
  then show ?thesis using assms by (simp add: word_to_le_def le)
qed


lemma nth_shl_bytes: "i < k \<Longrightarrow> shl_bytes k n ! i = ucast (drop_bit 56 (push_bit (8 * i) n))"
proof (induction k n arbitrary: i rule: shl_bytes.induct)
  case (2 k n)
  then show ?case by (cases i) (auto simp: add.commute ucast_and_ff)
qed simp

lemma length_shl_bytes [simp]: "length (shl_bytes k n) = k"
  by (induction k n rule: shl_bytes.induct) auto

lemma shl_bytes_8: "shl_bytes 8 n = rev (word_to_le n)"
proof (rule nth_equalityI)
  fix i
  assume "i < length (shl_bytes 8 n)"
  then have i: "i < 8" by simp
  have "(ucast (drop_bit 56 (push_bit (8 * i) n)) :: byte) = ucast (drop_bit (8 * (7 - i)) n)"
    using i by (intro bit_eqI) (auto simp: bit_simps algebra_simps diff_mult_distrib2)
  with i show "shl_bytes 8 n ! i = rev (word_to_le n) ! i"
    by (simp add: nth_shl_bytes rev_nth nth_word_to_le)
qed simp

lemma be_nat_rev_word: "LENGTH('a::len) mod 8 = 0 \<Longrightarrow> be_nat (rev (word_to_le (w :: 'a word))) = unat w"
proof -
  assume a: "LENGTH('a) mod 8 = 0"
  have "(256 :: nat) ^ (LENGTH('a) div 8) = 2 ^ (8 * (LENGTH('a) div 8))" by (simp add: power_mult)
  also have "8 * (LENGTH('a) div 8) = LENGTH('a)" using a by auto
  finally show ?thesis by (simp add: be_nat_def word_to_le_def le_nat_le_bytes)
qed

context mpi_lib
begin

lemma mpi2bn_put_be:
  "length bs < 2 ^ 31 \<Longrightarrow> BN_mpi2bn L (be32 (length (put_be True neg bs)) @ put_be True neg bs)
     = (if neg then - int (be_nat bs) else int (be_nat bs))"
  using length_put_be [of True neg bs] by (subst mpi2bn) (simp_all add: mpi_value_put_be)

lemma setuint256_value: "setuint256 L n = uint n"
  by (simp add: setuint256_def Let_def mpi2bn_put_be be_nat_rev_word)

lemma setuint64_value: "setuint64 L n = uint n"
  by (simp add: setuint64_def Let_def shl_bytes_8 mpi2bn_put_be be_nat_rev_word)

lemma setint64_value: "setint64 L n = sint n"
proof (cases "sint n < 0")
  case True
  have "sint n = uint n - 2 ^ 64" using True uint_of_sint [of n] by simp
  moreover have "uint (- n) = 2 ^ 64 - uint n"
  proof -
    have "n \<noteq> 0" using True by auto
    then have "uint n \<noteq> 0" by (metis uint_0_iff)
    moreover have "uint n mod 2 ^ 64 = uint n" using uint_bounded [of n] by (intro mod_pos_pos_trivial) auto
    ultimately show ?thesis by (simp add: uint_word_ariths zmod_zminus1_eq_if)
  qed
  ultimately show ?thesis using True
    by (simp add: setint64_def Let_def shl_bytes_8 mpi2bn_put_be be_nat_rev_word)
next
  case False
  then show ?thesis using uint_of_sint [of n]
    by (simp add: setint64_def Let_def shl_bytes_8 mpi2bn_put_be be_nat_rev_word)
qed

lemma setvch_value: "length v < 2 ^ 32 \<Longrightarrow> setvch L v = mpi_value (rev v)"
  using mpi2bn [of "rev v"] by (simp add: setvch_def)

lemma getvch_body: "getvch L z = rev (mpi_body z)"
  by (simp add: getvch_def Let_def bn2mpi)

lemma setvch_getvch: "length (getvch L z) < 2 ^ 32 \<Longrightarrow> setvch L (getvch L z) = z"
  by (simp add: setvch_value getvch_body mpi_value_body)

end



section \<open>The compact form of a difficulty target\<close>

lemma compact_exp_less: "unat (drop_bit 24 (c :: u32)) < 256"
proof -
  have "unat c < 2 ^ LENGTH(32)" by (rule unsigned_less)
  then have "unat c div 2 ^ 24 < 2 ^ 8" by (intro less_mult_imp_div_less) simp
  moreover have "unat (drop_bit 24 c) = drop_bit 24 (unat c)" by (rule unat_drop_bit_eq)
  ultimately show ?thesis by (simp add: drop_bit_nat_def)
qed

definition compact_bytes :: "u32 \<Rightarrow> byte list" where
  "compact_bytes c = [ucast (drop_bit 16 c), ucast (drop_bit 8 c), ucast c]"

lemma nat_up_to_3: "(n :: nat) = 0 \<or> n = 1 \<or> n = 2 \<or> (\<exists>k. n = Suc (Suc (Suc k)))"
  by presburger

lemma update_3456:
  "(a # b # c # d # xs)[3 := v] = a # b # c # v # xs"
  "(a # b # c # d # e # xs)[4 := v] = a # b # c # d # v # xs"
  "(a # b # c # d # e # f # xs)[5 := v] = a # b # c # d # e # v # xs"
  "(a # b # c # d # e # f # g # xs)[6 := v] = a # b # c # d # e # f # v # xs"
  by (simp_all add: eval_nat_numeral)

lemma nth_after_be32: "(be32 n @ xs) ! 4 = xs ! 0" "(be32 n @ xs) ! 5 = xs ! 1" "(be32 n @ xs) ! 6 = xs ! 2"
  by (simp_all add: nth_append)

lemma replicate_4: "replicate (4 + n) x = x # x # x # x # replicate n x"
  by (simp add: eval_nat_numeral)

lemma take_3: "take (Suc (Suc (Suc k))) [a, b, c] = [a, b, c]" "take 2 [a, b, c] = [a, b]"
  by (simp_all add: numeral_2_eq_2)

definition compact_pack :: "nat \<Rightarrow> byte \<Rightarrow> byte \<Rightarrow> byte \<Rightarrow> u32" where
  "compact_pack n b2 b1 b0 =
     push_bit 24 (word_of_nat n) OR (push_bit 16 (ucast b2) OR (push_bit 8 (ucast b1) OR ucast b0))"

definition nth_or_0 :: "byte list \<Rightarrow> nat \<Rightarrow> byte" where
  "nth_or_0 xs i = (if i < length xs then xs ! i else 0)"

lemma bit_nat_less_256: "(n :: nat) < 256 \<Longrightarrow> bit n i \<Longrightarrow> i < 8"
  using bit_take_bit_iff [of 8 n i] take_bit_nat_eq_self [of n 8] by simp

lemma compact_unpack:
  assumes "n < 256"
  shows "unat (drop_bit 24 (compact_pack n b2 b1 b0)) = n" (is ?size)
    and "compact_bytes (compact_pack n b2 b1 b0) = [b2, b1, b0]" (is ?bytes)
proof -
  have "drop_bit 24 (compact_pack n b2 b1 b0) = word_of_nat n"
    using bit_nat_less_256 [OF assms]
    by (intro bit_eqI) (auto simp: compact_pack_def bit_simps dest: bit_imp_le_length)
  then show ?size using assms by (simp add: unat_of_nat)
  have "ucast (drop_bit 16 (compact_pack n b2 b1 b0)) = b2" "ucast (drop_bit 8 (compact_pack n b2 b1 b0)) = b1"
    "ucast (compact_pack n b2 b1 b0) = b0"
    by (rule bit_eqI; auto simp: compact_pack_def bit_simps dest: bit_imp_le_length)+
  then show ?bytes by (simp add: compact_bytes_def)
qed

lemma take_nth_or_0: "take (length xs) [nth_or_0 xs 0, nth_or_0 xs 1, nth_or_0 xs 2] = take 3 xs"
  by (cases xs rule: list.exhaust [OF list.exhaust]; cases "tl xs"; cases "tl (tl xs)")
    (auto simp: nth_or_0_def numeral_2_eq_2 numeral_3_eq_3)

lemma put_be_sign: "put_be True False bs = b # r \<Longrightarrow> unat b < 128"
  by (induction bs) (auto simp: byte_sign split: if_splits)

context mpi_lib
begin

lemma SetCompact_mpi:
  "SetCompact L c = mpi_value (take (unat (drop_bit 24 c)) (compact_bytes c) @ replicate (unat (drop_bit 24 c) - 3) 0)"
proof -
  define n where "n = unat (drop_bit 24 c)"
  define body where "body = take n (compact_bytes c) @ replicate (n - 3) 0"
  have len: "length body = n" "n < 256"
    using nat_up_to_3 [of n] compact_exp_less [of c] by (auto simp: body_def compact_bytes_def n_def)
  have "SetCompact L c = BN_mpi2bn L (be32 n @ body)"
    unfolding SetCompact_def Let_def n_def [symmetric] be32_small [OF len(2)] body_def
    using nat_up_to_3 [of n]
    by (auto simp: ucast_and_ff compact_bytes_def replicate_4 update_3456 take_3 numeral_2_eq_2)
  then show ?thesis using len mpi2bn [of body] by (simp add: body_def n_def)
qed

lemma GetCompact_pack:
  assumes "length (mpi_body z) < 256"
  shows "GetCompact L z = compact_pack (length (mpi_body z)) (nth_or_0 (mpi_body z) 0) (nth_or_0 (mpi_body z) 1) (nth_or_0 (mpi_body z) 2)"
  by (simp add: GetCompact_def Let_def bn2mpi nth_after_be32 compact_pack_def nth_or_0_def or.assoc Suc_le_eq numeral_2_eq_2 numeral_3_eq_3)

lemma SetCompact_GetCompact_mpi:
  assumes "length (mpi_body z) < 256"
  shows "SetCompact L (GetCompact L z) = mpi_value (take 3 (mpi_body z) @ replicate (length (mpi_body z) - 3) 0)"
  unfolding GetCompact_pack [OF assms] SetCompact_mpi compact_unpack [OF assms] take_nth_or_0 ..

text \<open>The compact form keeps the three leading bytes of the MPI image and drops the rest.\<close>

lemma SetCompact_GetCompact:
  assumes "0 \<le> z" "length (mpi_body z) < 256"
  shows "SetCompact L (GetCompact L z) = z - z mod 256 ^ (length (mpi_body z) - 3)"
proof (cases "mpi_body z")
  case Nil
  then show ?thesis using mpi_value_body [of z] SetCompact_GetCompact_mpi [OF assms(2)] by simp
next
  case (Cons b bs)
  define k where "k = length (mpi_body z) - 3"
  define xs where "xs = take 3 (mpi_body z)"
  define ys where "ys = drop 3 (mpi_body z)"
  have b: "unat b < 128" using put_be_sign [of "rev (nat_le (nat \<bar>z\<bar>))"] assms(1) Cons by (simp add: mpi_body_def)
  then have pos: "mpi_value (xs @ v) = int (be_nat (xs @ v))" for v
    using Cons byte_sign [of b] by (auto simp: mpi_value_def xs_def split: list.splits)
  have "z = int (be_nat (xs @ ys))"
    using mpi_value_body [of z] pos [of ys] by (simp add: xs_def ys_def)
  then have "z = int (be_nat xs * 256 ^ k + be_nat ys)"
    by (simp add: be_nat_append ys_def k_def)
  moreover have "be_nat ys < 256 ^ k"
    using le_nat_bound [of "rev ys"] by (simp add: be_nat_def ys_def k_def)
  moreover have "SetCompact L (GetCompact L z) = int (be_nat xs * 256 ^ k)"
    using SetCompact_GetCompact_mpi [OF assms(2)] pos [of "replicate k 0"]
    by (simp add: xs_def k_def be_nat_append)
  moreover have "int (m * 256 ^ k + r) mod 256 ^ k = int r" if "r < 256 ^ k" for m r
    using that by (simp add: mod_pos_pos_trivial)
  ultimately show ?thesis unfolding k_def [symmetric] by (metis add_diff_cancel_right' of_nat_add)
qed

end



lemma be_nat_compact_bytes: "be_nat (compact_bytes c) = unat c mod 2 ^ 24"
proof -
  have "ucast (drop_bit k c) = (word_of_nat (unat c div 2 ^ k) :: byte)" for k
    by (metis of_nat_unat unat_drop_bit_eq drop_bit_nat_def)
  from this [of 8] this [of 16] have "rev (compact_bytes c) = le_bytes 3 (unat c)"
    by (simp add: compact_bytes_def numeral_3_eq_3 div_mult2_eq [symmetric])
  then show ?thesis by (simp add: be_nat_def le_nat_le_bytes)
qed

lemma compact_top: "unat (c :: u32) mod 2 ^ 24 < 2 ^ 23 \<Longrightarrow> unat (ucast (drop_bit 16 c) :: byte) < 128"
  using be_nat_compact_bytes [of c] by (simp add: compact_bytes_def)

lemma mpi_value_pos: "unat b < 128 \<Longrightarrow> mpi_value (b # bs) = int (be_nat (b # bs))"
  using byte_sign [of b] by (auto simp: mpi_value_def)

text \<open>An MPI image without a redundant leading byte is the image of its value.\<close>

lemma mpi_body_value:
  assumes "unat b < 128" "b \<noteq> 0 \<or> (\<exists>c cs. bs = c # cs \<and> 128 \<le> unat c)"
  shows "mpi_body (mpi_value (b # bs)) = b # bs"
proof (cases "b = 0")
  case False
  have "nat_le (be_nat (b # bs)) = rev (b # bs)"
    using False nat_le_of_le_nat [of "rev (b # bs)"] by (simp add: be_nat_def)
  with False assms(1) show ?thesis
    using byte_sign [of b] by (auto simp: mpi_value_pos mpi_body_def put_be_False simp del: be_nat_simps)
next
  case True
  then obtain c cs where c: "bs = c # cs" "128 \<le> unat c" using assms(2) by auto
  then have "c \<noteq> 0" by auto
  then have "nat_le (be_nat (c # cs)) = rev (c # cs)"
    using nat_le_of_le_nat [of "rev (c # cs)"] by (simp add: be_nat_def)
  moreover have "be_nat (b # bs) = be_nat (c # cs)" using True c by simp
  moreover have "c AND 0x80 \<noteq> 0" using c(2) byte_sign by blast
  ultimately show ?thesis
    using True c \<open>c \<noteq> 0\<close> assms(1) by (simp add: mpi_value_pos mpi_body_def put_be_False del: be_nat_simps)
qed

lemma compact_pack_unpack:
  "compact_pack (unat (drop_bit 24 c)) (ucast (drop_bit 16 c)) (ucast (drop_bit 8 c)) (ucast c) = (c :: u32)"
  unfolding compact_pack_def of_nat_unat
proof (rule bit_eqI)
  fix i assume "possible_bit TYPE(32 word) i"
  then have i: "i < 32" by simp
  consider "i < 8" | "8 \<le> i" "i < 16" | "16 \<le> i" "i < 24" | "24 \<le> i" by linarith
  then show "bit ((push_bit 24 (ucast (drop_bit 24 c)) :: u32) OR
      (push_bit 16 (ucast (ucast (drop_bit 16 c) :: byte)) OR
       (push_bit 8 (ucast (ucast (drop_bit 8 c) :: byte)) OR ucast (ucast c :: byte)))) i = bit c i"
    using i by cases (auto simp: bit_simps)
qed

context mpi_lib
begin

lemma SetCompact_value:
  assumes "unat c mod 2 ^ 24 < 2 ^ 23" "3 \<le> unat (drop_bit 24 c)"
  shows "SetCompact L c = int (unat c mod 2 ^ 24) * 256 ^ (unat (drop_bit 24 c) - 3)"
proof -
  obtain k where k: "unat (drop_bit 24 c) = Suc (Suc (Suc k))" using assms(2) nat_up_to_3 [of "unat (drop_bit 24 c)"] by auto
  have "mpi_value (compact_bytes c) = int (be_nat (compact_bytes c))"
    using compact_top [OF assms(1)] unfolding compact_bytes_def by (rule mpi_value_pos)
  moreover have "take (unat (drop_bit 24 c)) (compact_bytes c) = compact_bytes c" by (simp add: compact_bytes_def k)
  ultimately show ?thesis
    by (simp add: SetCompact_mpi mpi_value_zeros be_nat_compact_bytes)
qed

lemma GetCompact_SetCompact:
  assumes "unat c mod 2 ^ 24 < 2 ^ 23" "2 ^ 15 \<le> unat c mod 2 ^ 24" "3 \<le> unat (drop_bit 24 c)"
  shows "GetCompact L (SetCompact L c) = c"
proof -
  let ?b2 = "ucast (drop_bit 16 c) :: byte" and ?b1 = "ucast (drop_bit 8 c) :: byte" and ?b0 = "ucast c :: byte"
  obtain k where k: "unat (drop_bit 24 c) = Suc (Suc (Suc k))" using assms(3) nat_up_to_3 [of "unat (drop_bit 24 c)"] by auto
  define bs where "bs = ?b1 # ?b0 # replicate k 0"
  have m: "unat c mod 2 ^ 24 = unat ?b2 * 65536 + unat ?b1 * 256 + unat ?b0"
    using be_nat_compact_bytes [of c] by (simp add: compact_bytes_def)
  have "?b2 \<noteq> 0 \<or> (\<exists>x xs. bs = x # xs \<and> 128 \<le> unat x)"
  proof (cases "?b2 = 0")
    case True
    then have "32768 \<le> unat ?b1 * 256 + unat ?b0" using m assms(2) by simp
    then have "128 \<le> unat ?b1" using unat_byte_less [of ?b0] by linarith
    then show ?thesis by (simp add: bs_def)
  qed simp
  then have body: "mpi_body (SetCompact L c) = ?b2 # bs"
    using mpi_body_value [OF compact_top [OF assms(1)]]
    by (simp add: SetCompact_mpi k compact_bytes_def bs_def)
  have "length (mpi_body (SetCompact L c)) = unat (drop_bit 24 c)" by (simp add: body bs_def k)
  moreover from this have "length (mpi_body (SetCompact L c)) < 256" using compact_exp_less [of c] by simp
  ultimately show ?thesis
    using compact_pack_unpack [of c] by (simp add: GetCompact_pack body nth_or_0_def bs_def)
qed

end



lemma le_nat_take: "le_nat (take k bs @ replicate (k - length (take k bs)) 0) = le_nat bs mod 256 ^ k"
proof (cases "k \<le> length bs")
  case True
  have "le_nat bs = le_nat (take k bs) + 256 ^ k * le_nat (drop k bs)"
    using le_nat_append [of "take k bs" "drop k bs"] True by simp
  moreover have "le_nat (take k bs) < 256 ^ k" using le_nat_bound [of "take k bs"] True by simp
  ultimately show ?thesis using True by simp
next
  case False
  have "le_nat bs < 256 ^ length bs" by (rule le_nat_bound)
  also have "(256 :: nat) ^ length bs \<le> 256 ^ k" using False by simp
  finally show ?thesis using False by (simp add: le_nat_append)
qed

lemma be_nat_mpi_body: "0 \<le> z \<Longrightarrow> int (be_nat (mpi_body z)) = z"
proof -
  assume z: "0 \<le> z"
  show ?thesis
  proof (cases "mpi_body z")
    case Nil
    then show ?thesis using mpi_value_body [of z] by (simp add: mpi_value_def)
  next
    case (Cons b bs)
    then have "unat b < 128" using put_be_sign [of "rev (nat_le (nat \<bar>z\<bar>))"] z by (simp add: mpi_body_def)
    then show ?thesis using mpi_value_pos [of b bs] mpi_value_body [of z] Cons by simp
  qed
qed

lemma mpi_body_clear_sign: "0 \<le> z \<Longrightarrow> mpi_body z = b # bs \<Longrightarrow> b AND 0x7f = b"
  using put_be_sign [of "rev (nat_le (nat \<bar>z\<bar>))" b bs]
  by (simp add: mpi_body_def word_unat_eq_iff byte_and_7f)

context mpi_lib
begin

lemma get_magnitude_eq:
  assumes "0 \<le> z"
  shows "int (le_nat (get_magnitude L sz z)) = z mod 256 ^ sz"
proof -
  have "get_magnitude L sz z = take sz (rev (mpi_body z)) @ replicate (sz - length (take sz (rev (mpi_body z)))) 0"
  proof (cases "mpi_body z")
    case Nil
    then show ?thesis by (simp add: get_magnitude_def bn2mpi Let_def)
  next
    case (Cons b bs)
    have "(be32 n @ b # bs)[4 := b] = be32 n @ b # bs" for n by (simp add: be32_def update_3456)
    with Cons mpi_body_clear_sign [OF assms Cons] show ?thesis
      by (simp add: get_magnitude_def bn2mpi Let_def nth_after_be32)
  qed
  then show ?thesis
    using be_nat_mpi_body [OF assms] by (simp only: le_nat_take) (simp add: be_nat_def zmod_int)
qed

lemma getuint256_value: "0 \<le> z \<Longrightarrow> getuint256 L z = word_of_int z"
proof -
  assume z: "0 \<le> z"
  have "word_of_nat n = (word_of_int (int n) :: uint256)" for n by simp
  then have "getuint256 L z = word_of_int (z mod 256 ^ 32)"
    unfolding getuint256_def word_of_le_def get_magnitude_eq [OF z, of 32, symmetric] by (rule meta_spec)
  also have "\<dots> = word_of_int (z mod 2 ^ LENGTH(256))" by simp
  also have "\<dots> = word_of_int z" by (simp only: take_bit_eq_mod [symmetric] word_of_int_eq_iff take_bit_take_bit min.idem)
  finally show ?thesis .
qed

lemma getuint256_setuint256: "getuint256 L (setuint256 L n) = n"
  by (simp add: setuint256_value getuint256_value)

lemma getint_small: "\<bar>z\<bar> \<le> 2147483647 \<Longrightarrow> getint L z = z"
proof -
  assume z: "\<bar>z\<bar> \<le> 2147483647"
  then have "uint (BN_get_word L z) = \<bar>z\<bar>"
    by (simp add: get_word uint_word_of_int mod_pos_pos_trivial)
  then show ?thesis using z by (simp only: getint_def Let_def) auto
qed

end

section \<open>Properties\<close>

text \<open>
  for a big-number library with OpenSSL's MPI format, packing a non-negative number into the compact
  form \<open>nBits\<close> and unpacking it drops exactly the bytes after its three leading ones, and a
  normalised compact form survives unpacking and packing.
\<close>

theorem compact_roundtrip:
  assumes "mpi_lib L" "0 \<le> z" "length (mpi_body z) < 256"
    "unat c mod 2 ^ 24 < 2 ^ 23" "2 ^ 15 \<le> unat c mod 2 ^ 24" "3 \<le> unat (drop_bit 24 c)"
  shows "SetCompact L (GetCompact L z) = z - z mod 256 ^ (length (mpi_body z) - 3)
    \<and> GetCompact L (SetCompact L c) = c"
  using mpi_lib.SetCompact_GetCompact [OF assms(1-3)] mpi_lib.GetCompact_SetCompact [OF assms(1,4-6)] by simp

theorem compact_roundtrip_witness:
  "SetCompact mpi_ref (GetCompact mpi_ref 0x12345678) = 0x12345600
   \<and> GetCompact mpi_ref (SetCompact mpi_ref 0x1d00ffff) = 0x1d00ffff"
proof -
  have "length (mpi_body 0x12345678) = 4" by code_simp
  then show ?thesis using compact_roundtrip [of mpi_ref "0x12345678" "0x1d00ffff"] mref.mpi_lib_axioms by simp
qed

text \<open>
  C37: a script number is read back from its stack encoding, whatever its sign and size, and the
  conversions from machine integers give their signed or unsigned value.
\<close>

theorem script_number_roundtrip:
  assumes "mpi_lib L" "length (getvch L z) < 2 ^ 32"
  shows "setvch L (getvch L z) = z
    \<and> setint64 L i = sint i \<and> setuint64 L u = uint u \<and> setuint256 L h = uint h \<and> getuint256 L (setuint256 L h) = h"
  using mpi_lib.setvch_getvch [OF assms] mpi_lib.setint64_value [OF assms(1)] mpi_lib.setuint64_value [OF assms(1)]
    mpi_lib.setuint256_value [OF assms(1)] mpi_lib.getuint256_setuint256 [OF assms(1)] by simp

theorem script_number_roundtrip_witness:
  "setvch mpi_ref (getvch mpi_ref (- 255)) = - 255 \<and> setint64 mpi_ref (- 1) = - 1 \<and> setuint64 mpi_ref 0xffffffffffffffff = 2 ^ 64 - 1"
proof -
  have "length (getvch mpi_ref (- 255)) = 2" by code_simp
  then show ?thesis using script_number_roundtrip [of mpi_ref "- 255" "- 1" "0xffffffffffffffff"] mref.mpi_lib_axioms by simp
qed

end
