(* ===== verification/ScriptBase.thy ===== *)
theory ScriptBase
  imports Opcodes Serialize Bignum
begin

text \<open>
  \<open>CScript\<close>: the byte vectors that hold scripts, with pushing, decoding, deleting and counting.  A
  \<open>const_iterator\<close> into a script is the list of bytes from it to the end.
\<close>

section \<open>Building scripts\<close>

definition push_opcode :: "nat \<Rightarrow> byte list \<Rightarrow> byte list" where
  "push_opcode opcode s = s @ [word_of_nat opcode]"

definition push_data :: "byte list \<Rightarrow> byte list \<Rightarrow> byte list" where
  "push_data b s =
     s @ (if length b < OP_PUSHDATA1 then [word_of_nat (length b)]
          else if length b \<le> 0xff then [word_of_nat OP_PUSHDATA1, word_of_nat (length b)]
          else if length b \<le> 0xffff then word_of_nat OP_PUSHDATA2 # le_bytes 2 (length b)
          else word_of_nat OP_PUSHDATA4 # le_bytes 4 (length b)) @ b"

definition push_int64 :: "bn_lib \<Rightarrow> i64 \<Rightarrow> byte list \<Rightarrow> byte list" where
  "push_int64 L n s =
     (if sint n = -1 \<or> (sint n \<ge> 1 \<and> sint n \<le> 16) then s @ [ucast (n + (word_of_nat OP_1 - 1))]
      else push_data (getvch L (setint64 L n)) s)"

definition push_uint64 :: "bn_lib \<Rightarrow> u64 \<Rightarrow> byte list \<Rightarrow> byte list" where
  "push_uint64 L n s =
     (if unat n \<ge> 1 \<and> unat n \<le> 16 then s @ [ucast (n + (word_of_nat OP_1 - 1))]
      else push_data (getvch L (setuint64 L n)) s)"

definition push_uint160 :: "uint160 \<Rightarrow> byte list \<Rightarrow> byte list" where
  "push_uint160 b s = s @ 20 # word_to_le b"

definition push_uint256 :: "uint256 \<Rightarrow> byte list \<Rightarrow> byte list" where
  "push_uint256 b s = s @ 32 # word_to_le b"

text \<open>\<open>DecodeOP_N\<close> and \<open>EncodeOP_N\<close>; \<open>None\<close> is a failed assertion.\<close>

definition DecodeOP_N :: "nat \<Rightarrow> nat option" where
  "DecodeOP_N opcode =
     (if opcode = OP_0 then Some 0
      else if OP_1 \<le> opcode \<and> opcode \<le> OP_16 then Some (opcode - (OP_1 - 1)) else None)"

definition EncodeOP_N :: "nat \<Rightarrow> nat option" where
  "EncodeOP_N n = (if n \<le> 16 then Some (if n = 0 then OP_0 else OP_1 + n - 1) else None)"

section \<open>Decoding scripts\<close>

definition GetOp :: "byte list \<Rightarrow> (nat \<times> byte list \<times> byte list) option" where
  "GetOp pc = (case pc of
      [] \<Rightarrow> None
    | c # pc1 \<Rightarrow>
        (let opcode = unat c in
         if opcode \<le> OP_PUSHDATA4 then
           do { (nSize, pc2) \<leftarrow>
                  (if opcode < OP_PUSHDATA1 then Some (opcode, pc1)
                   else if opcode = OP_PUSHDATA1 then do { (x, r) \<leftarrow> read_bytes 1 pc1; Some (le_nat x, r) }
                   else if opcode = OP_PUSHDATA2 then do { (x, r) \<leftarrow> read_bytes 2 pc1; Some (le_nat x, r) }
                   else do { (x, r) \<leftarrow> read_bytes 4 pc1; Some (le_nat x, r) });
                if length pc2 < nSize then None else Some (opcode, take nSize pc2, drop nSize pc2) }
         else Some (opcode, [], pc1)))"

lemma GetOp_length: "GetOp pc = Some (opcode, v, pc') \<Longrightarrow> length pc' < length pc"
  by (auto simp: GetOp_def read_bytes_def Let_def split: list.splits if_splits Option.bind_splits)

lemma GetOp_suffix: "GetOp pc = Some (opcode, v, pc') \<Longrightarrow> take (length pc - length pc') pc @ pc' = pc"
proof -
  assume a: "GetOp pc = Some (opcode, v, pc')"
  then obtain k where "pc' = drop k pc"
    by (auto simp: GetOp_def read_bytes_def Let_def split: list.splits if_splits Option.bind_splits)
      (metis drop_Suc_Cons drop_drop drop_0)+
  moreover from this GetOp_length [OF a] have "length pc - length pc' = k \<or> pc' = []" by auto
  ultimately show ?thesis using GetOp_length [OF a] by auto
qed

text \<open>\<open>while (pc < end()) .. GetOp\<close>: the instructions up to the end or to the first malformed one.\<close>

function GetOps :: "byte list \<Rightarrow> (nat \<times> byte list) list \<times> bool" where
  "GetOps pc = (if pc = [] then ([], True) else
     case GetOp pc of None \<Rightarrow> ([], False)
     | Some (opcode, v, pc') \<Rightarrow> (let (ops, ok) = GetOps pc' in ((opcode, v) # ops, ok)))"
  by pat_completeness auto
termination
  by (relation "measure length") (auto dest: GetOp_length)

function IsPushOnly :: "byte list \<Rightarrow> bool" where
  "IsPushOnly pc = (if pc = [] then True else
     case GetOp pc of None \<Rightarrow> False
     | Some (opcode, v, pc') \<Rightarrow> if opcode > OP_16 then False else IsPushOnly pc')"
  by pat_completeness auto
termination
  by (relation "measure length") (auto dest: GetOp_length)

function Find_loop :: "nat \<Rightarrow> byte list \<Rightarrow> nat \<Rightarrow> nat" where
  "Find_loop op pc nFound = (if pc = [] then nFound else
     case GetOp pc of None \<Rightarrow> nFound
     | Some (opcode, v, pc') \<Rightarrow> Find_loop op pc' (if opcode = op then Suc nFound else nFound))"
  by pat_completeness auto
termination
  by (relation "measure (\<lambda>(a, pc, n). length pc)") (auto dest: GetOp_length)

definition Find :: "nat \<Rightarrow> byte list \<Rightarrow> nat" where
  "Find op s = Find_loop op s 0"

function GetSigOpCount_loop :: "bool \<Rightarrow> byte list \<Rightarrow> nat \<Rightarrow> nat \<Rightarrow> nat" where
  "GetSigOpCount_loop fAccurate pc lastOpcode n = (if pc = [] then n else
     case GetOp pc of None \<Rightarrow> n
     | Some (opcode, v, pc') \<Rightarrow>
         GetSigOpCount_loop fAccurate pc' opcode
           (if opcode = OP_CHECKSIG \<or> opcode = OP_CHECKSIGVERIFY then n + 1
            else if opcode = OP_CHECKMULTISIG \<or> opcode = OP_CHECKMULTISIGVERIFY then
              (if fAccurate \<and> lastOpcode \<ge> OP_1 \<and> lastOpcode \<le> OP_16
               then n + the (DecodeOP_N lastOpcode) else n + 20)
            else n))"
  by pat_completeness auto
termination
  by (relation "measure (\<lambda>(a, pc, l, n). length pc)") (auto dest: GetOp_length)

definition GetSigOpCount :: "bool \<Rightarrow> byte list \<Rightarrow> nat" where
  "GetSigOpCount fAccurate s = GetSigOpCount_loop fAccurate s OP_INVALIDOPCODE 0"

definition IsPayToScriptHash :: "byte list \<Rightarrow> bool" where
  "IsPayToScriptHash s \<longleftrightarrow>
     length s = 23 \<and> s ! 0 = word_of_nat OP_HASH160 \<and> s ! 1 = 0x14 \<and> s ! 22 = word_of_nat OP_EQUAL"

text \<open>The last item pushed by a \<open>scriptSig\<close>; \<open>None\<close> where the caller returns 0.\<close>

function last_push :: "byte list \<Rightarrow> byte list \<Rightarrow> byte list option" where
  "last_push pc data = (if pc = [] then Some data else
     case GetOp pc of None \<Rightarrow> None
     | Some (opcode, data', pc') \<Rightarrow> if opcode > OP_16 then None else last_push pc' data')"
  by pat_completeness auto
termination
  by (relation "measure (\<lambda>(pc, d). length pc)") (auto dest: GetOp_length)

definition GetSigOpCount_P2SH :: "byte list \<Rightarrow> byte list \<Rightarrow> nat" where
  "GetSigOpCount_P2SH s scriptSig =
     (if \<not> IsPayToScriptHash s then GetSigOpCount True s
      else case last_push scriptSig [] of None \<Rightarrow> 0 | Some subscript \<Rightarrow> GetSigOpCount True subscript)"

function HasCanonicalPushes :: "byte list \<Rightarrow> bool" where
  "HasCanonicalPushes pc = (if pc = [] then True else
     case GetOp pc of None \<Rightarrow> False
     | Some (opcode, data, pc') \<Rightarrow>
         if opcode > OP_16 then HasCanonicalPushes pc'
         else if opcode < OP_PUSHDATA1 \<and> opcode > OP_0 \<and> length data = 1 \<and> unat (data ! 0) \<le> 16 then False
         else if opcode = OP_PUSHDATA1 \<and> length data < OP_PUSHDATA1 then False
         else if opcode = OP_PUSHDATA2 \<and> length data \<le> 0xFF then False
         else if opcode = OP_PUSHDATA4 \<and> length data \<le> 0xFFFF then False
         else HasCanonicalPushes pc')"
  by pat_completeness auto
termination
  by (relation "measure length") (auto dest: GetOp_length)

text \<open>
  \<open>FindAndDelete\<close>: at every instruction boundary all copies of \<open>b\<close> are erased, then one
  instruction is skipped.  \<open>pre\<close> holds the bytes before the iterator.
\<close>

function erase_copies :: "byte list \<Rightarrow> byte list \<Rightarrow> nat \<Rightarrow> byte list \<times> nat" where
  "erase_copies b pc nFound =
     (if b \<noteq> [] \<and> length b \<le> length pc \<and> take (length b) pc = b
      then erase_copies b (drop (length b) pc) (Suc nFound) else (pc, nFound))"
  by pat_completeness auto
termination
  by (relation "measure (\<lambda>(b, pc, n). length pc)")
    (auto simp: length_greater_0_conv [symmetric] simp del: length_greater_0_conv)

declare erase_copies.simps [simp del]

lemma erase_copies_length: "length (fst (erase_copies b pc n)) \<le> length pc"
proof (induction b pc n rule: erase_copies.induct)
  case (1 b pc n)
  then show ?case by (subst erase_copies.simps) auto
qed

function FindAndDelete_loop :: "byte list \<Rightarrow> byte list \<Rightarrow> byte list \<Rightarrow> nat \<Rightarrow> byte list \<times> nat" where
  "FindAndDelete_loop b pre pc nFound =
     (let (pc1, nFound1) = erase_copies b pc nFound in
      case GetOp pc1 of None \<Rightarrow> (pre @ pc1, nFound1)
      | Some (opcode, v, pc2) \<Rightarrow>
          FindAndDelete_loop b (pre @ take (length pc1 - length pc2) pc1) pc2 nFound1)"
  by pat_completeness auto
termination
proof (relation "measure (\<lambda>(b, pre, pc, n). length pc)", goal_cases)
  case (2 b pre pc nFound x pc1 nFound1 y opcode z v pc2)
  then show ?case using erase_copies_length [of b pc nFound] GetOp_length [of pc1 opcode v pc2]
    by (metis (no_types, lifting) case_prod_conv fst_conv in_measure order_less_le_trans)
qed simp

definition FindAndDelete :: "byte list \<Rightarrow> byte list \<Rightarrow> byte list \<times> nat" where
  "FindAndDelete b s = (if b = [] then (s, 0) else FindAndDelete_loop b [] s 0)"

declare GetOps.simps [simp del] IsPushOnly.simps [simp del] Find_loop.simps [simp del]
  GetSigOpCount_loop.simps [simp del] last_push.simps [simp del] HasCanonicalPushes.simps [simp del]
  FindAndDelete_loop.simps [simp del]

section \<open>Destinations\<close>

datatype CTxDestination = CNoDestination | CKeyID uint160 | CScriptID uint160 | CStealthAddress

definition SetDestination :: "CTxDestination \<Rightarrow> bool \<times> byte list" where
  "SetDestination dest = (case dest of
      CNoDestination \<Rightarrow> (False, [])
    | CKeyID keyID \<Rightarrow>
        (True, push_opcode OP_CHECKSIG (push_opcode OP_EQUALVERIFY (push_uint160 keyID
                 (push_opcode OP_HASH160 (push_opcode OP_DUP [])))))
    | CScriptID scriptID \<Rightarrow>
        (True, push_opcode OP_EQUAL (push_uint160 scriptID (push_opcode OP_HASH160 [])))
    | CStealthAddress \<Rightarrow> (False, []))"

definition SetMultisig :: "nat \<Rightarrow> byte list list \<Rightarrow> byte list option" where
  "SetMultisig nRequired pubkeys = do {
     m \<leftarrow> EncodeOP_N nRequired;
     n \<leftarrow> EncodeOP_N (length pubkeys);
     Some (push_opcode OP_CHECKMULTISIG (push_opcode n (fold push_data pubkeys (push_opcode m [])))) }"



section \<open>Pushing and decoding\<close>

definition push_op :: "byte list \<Rightarrow> nat" where
  "push_op b = (if length b < OP_PUSHDATA1 then length b else if length b \<le> 0xff then OP_PUSHDATA1
     else if length b \<le> 0xffff then OP_PUSHDATA2 else OP_PUSHDATA4)"

lemma push_data_append: "push_data b s = s @ push_data b []"
  by (simp add: push_data_def)

lemma push_data_nonempty: "push_data b [] \<noteq> []"
  by (simp add: push_data_def)

lemma push_op_le: "push_op b \<le> OP_PUSHDATA4"
  by (simp add: push_op_def)

lemma GetOp_push_data: "length b < 2 ^ 32 \<Longrightarrow> GetOp (push_data b [] @ r) = Some (push_op b, b, r)"
proof -
  assume b: "length b < 2 ^ 32"
  have rd: "read_bytes k (le_bytes k n @ x) = Some (le_bytes k n, x)" for k n and x :: "byte list"
    by (rule read_bytes_append') simp
  have one: "[word_of_nat n] = le_bytes 1 n" for n by simp
  consider "length b < 76" | "76 \<le> length b" "length b \<le> 255" | "255 < length b" "length b \<le> 65535" | "65535 < length b"
    by linarith
  then show ?thesis
  proof cases
    case 1
    then show ?thesis by (simp add: push_data_def push_op_def GetOp_def unat_byte_of_nat)
  next
    case 2
    then show ?thesis
      using rd [of 1 "length b" "b @ r"] by (simp add: push_data_def push_op_def GetOp_def unat_byte_of_nat)
  next
    case 3
    then show ?thesis
      using rd [of 2 "length b" "b @ r"] by (simp add: push_data_def push_op_def GetOp_def le_nat_le_bytes)
  next
    case 4
    then show ?thesis
      using b rd [of 4 "length b" "b @ r"] by (simp add: push_data_def push_op_def GetOp_def le_nat_le_bytes)
  qed
qed

lemma GetOp_opcode: "OP_PUSHDATA4 < opcode \<Longrightarrow> opcode < 256 \<Longrightarrow> GetOp (word_of_nat opcode # r) = Some (opcode, [], r)"
  by (simp add: GetOp_def unat_byte_of_nat)

lemma GetOp_20: "length h = 20 \<Longrightarrow> GetOp (20 # h @ r) = Some (20, h, r)"
  by (simp add: GetOp_def)

lemma IsPushOnly_Nil [simp]: "IsPushOnly []"
  by (subst IsPushOnly.simps) simp

lemma IsPushOnly_push_data: "length b < 2 ^ 32 \<Longrightarrow> IsPushOnly (push_data b [] @ r) = IsPushOnly r"
  using push_op_le [of b]
  by (subst IsPushOnly.simps) (simp add: GetOp_push_data push_data_nonempty del: One_nat_def)

lemma IsPushOnly_pushes: "list_all (\<lambda>b. length b < 2 ^ 32) bs \<Longrightarrow> IsPushOnly (concat (map (\<lambda>b. push_data b []) bs))"
  by (induction bs) (simp_all add: IsPushOnly_push_data)

lemma last_push_pushes:
  "list_all (\<lambda>b. length b < 2 ^ 32) bs \<Longrightarrow>
   last_push (concat (map (\<lambda>b. push_data b []) bs)) d = Some (if bs = [] then d else last bs)"
proof (induction bs arbitrary: d)
  case Nil
  then show ?case by (subst last_push.simps) simp
next
  case (Cons b bs)
  then show ?case using push_op_le [of b]
    by (subst last_push.simps) (simp add: GetOp_push_data push_data_nonempty)
qed

text \<open>Every loop over a script is a fold over its instructions.\<close>

lemma IsPushOnly_GetOps: "IsPushOnly pc \<longleftrightarrow> snd (GetOps pc) \<and> list_all (\<lambda>(opcode, v). opcode \<le> OP_16) (fst (GetOps pc))"
proof (induction pc rule: IsPushOnly.induct)
  case (1 pc)
  then show ?case
    by (subst IsPushOnly.simps, subst (1 2) GetOps.simps) (auto simp: Let_def split: option.splits prod.splits)
qed

lemma Find_GetOps: "Find_loop op pc n = n + length (filter (\<lambda>(opcode, v). opcode = op) (fst (GetOps pc)))"
proof (induction op pc n rule: Find_loop.induct)
  case (1 op pc n)
  then show ?case
    by (subst Find_loop.simps, subst GetOps.simps) (auto simp: Let_def split: option.splits prod.splits)
qed

section \<open>Counting signature operations\<close>

lemma GetSigOpCount_loop_mono:
  "n \<le> m \<Longrightarrow> GetSigOpCount_loop True pc lastOpcode n \<le> GetSigOpCount_loop False pc lastOpcode m"
proof (induction "length pc" arbitrary: pc lastOpcode n m rule: less_induct)
  case less
  show ?case
  proof (cases "pc = [] \<or> GetOp pc = None")
    case True
    then show ?thesis using less.prems by (subst (1 2) GetSigOpCount_loop.simps) auto
  next
    case False
    then obtain opcode v pc' where op: "pc \<noteq> []" "GetOp pc = Some (opcode, v, pc')" by auto
    then show ?thesis using less.prems GetOp_length [OF op(2)]
      by (subst (1 2) GetSigOpCount_loop.simps) (auto intro!: less.hyps simp: DecodeOP_N_def)
  qed
qed

lemma GetSigOpCount_mono: "GetSigOpCount True s \<le> GetSigOpCount False s"
  by (simp add: GetSigOpCount_def GetSigOpCount_loop_mono)

lemma GetSigOpCount_loop_bound: "GetSigOpCount_loop f pc lastOpcode n \<le> n + 20 * length pc"
proof (induction f pc lastOpcode n rule: GetSigOpCount_loop.induct)
  case (1 f pc lastOpcode n)
  show ?case
  proof (cases "pc = [] \<or> GetOp pc = None")
    case True
    then show ?thesis by (subst GetSigOpCount_loop.simps) auto
  next
    case False
    then obtain opcode v pc' where op: "pc \<noteq> []" "GetOp pc = Some (opcode, v, pc')" by auto
    define n' where "n' = (if opcode = OP_CHECKSIG \<or> opcode = OP_CHECKSIGVERIFY then n + 1
            else if opcode = OP_CHECKMULTISIG \<or> opcode = OP_CHECKMULTISIGVERIFY then
              (if f \<and> lastOpcode \<ge> OP_1 \<and> lastOpcode \<le> OP_16
               then n + the (DecodeOP_N lastOpcode) else n + 20)
            else n)"
    have "GetSigOpCount_loop f pc lastOpcode n = GetSigOpCount_loop f pc' opcode n'"
      using op by (subst GetSigOpCount_loop.simps) (simp add: n'_def)
    also have "\<dots> \<le> n' + 20 * length pc'"
      using "1.IH" [OF op refl refl] by (simp add: n'_def)
    also have "\<dots> \<le> n + 20 + 20 * length pc'" by (auto simp: n'_def DecodeOP_N_def)
    also have "\<dots> \<le> n + 20 * length pc" using GetOp_length [OF op(2)] by simp
    finally show ?thesis .
  qed
qed

(*@@*)

section \<open>\<open>FindAndDelete\<close>\<close>

lemma erase_copies_split:
  "erase_copies b pc n = (pc', n') \<Longrightarrow> \<exists>k. pc = concat (replicate k b) @ pc' \<and> n' = n + k"
proof (induction b pc n rule: erase_copies.induct)
  case (1 b pc n)
  show ?case
  proof (cases "b \<noteq> [] \<and> length b \<le> length pc \<and> take (length b) pc = b")
    case True
    then have "erase_copies b (drop (length b) pc) (Suc n) = (pc', n')"
      using 1(2) by (subst (asm) erase_copies.simps) simp
    then obtain k where k: "drop (length b) pc = concat (replicate k b) @ pc'" "n' = Suc n + k"
      using 1(1) True by blast
    have "pc = b @ drop (length b) pc" using True by (metis append_take_drop_id)
    then show ?thesis using k by (intro exI [of _ "Suc k"]) simp
  next
    case False
    then have "erase_copies b pc n = (pc, n)" by (subst erase_copies.simps) auto
    then show ?thesis using 1(2) by (intro exI [of _ 0]) simp
  qed
qed

lemma erase_copies_done: "b \<noteq> [] \<Longrightarrow> erase_copies b pc n = (pc', n') \<Longrightarrow> take (length b) pc' \<noteq> b"
proof (induction b pc n rule: erase_copies.induct)
  case (1 b pc n)
  show ?case
  proof (cases "length b \<le> length pc \<and> take (length b) pc = b")
    case True
    then have "erase_copies b (drop (length b) pc) (Suc n) = (pc', n')"
      using 1(2,3) by (subst (asm) erase_copies.simps) simp
    then show ?thesis using 1(1,2) True by blast
  next
    case False
    then have "pc' = pc" using 1(3) by (subst (asm) erase_copies.simps) auto
    then show ?thesis using False by (metis length_take min.cobounded1 nle_le)
  qed
qed

text \<open>Interleaving: \<open>s\<close> is \<open>t\<close> with \<open>k\<close> copies of \<open>b\<close> put in.\<close>

inductive inserted :: "byte list \<Rightarrow> byte list \<Rightarrow> nat \<Rightarrow> byte list \<Rightarrow> bool" for b where
  ins_nil: "inserted b [] 0 []"
| ins_copy: "inserted b t k s \<Longrightarrow> inserted b t (Suc k) (b @ s)"
| ins_byte: "inserted b t k s \<Longrightarrow> inserted b (x # t) k (x # s)"

lemma inserted_append: "inserted b t k s \<Longrightarrow> inserted b (x @ t) k (x @ s)"
  by (induction x) (auto intro: ins_byte)

lemma inserted_copies: "inserted b t k s \<Longrightarrow> inserted b t (m + k) (concat (replicate m b) @ s)"
  by (induction m) (auto dest: ins_copy)

lemma inserted_refl: "inserted b s 0 s"
  using inserted_append [OF ins_nil, of b s] by simp

lemma inserted_length: "inserted b t k s \<Longrightarrow> length s = length t + k * length b"
  by (induction rule: inserted.induct) auto

lemma FindAndDelete_loop_inserted:
  "FindAndDelete_loop b pre pc n = (s', n') \<Longrightarrow> \<exists>t k. s' = pre @ t \<and> n' = n + k \<and> inserted b t k pc"
proof (induction b pre pc n rule: FindAndDelete_loop.induct)
  case (1 b pre pc n)
  obtain pc1 n1 where e: "erase_copies b pc n = (pc1, n1)" by force
  then obtain j where j: "pc = concat (replicate j b) @ pc1" "n1 = n + j" using erase_copies_split by blast
  show ?case
  proof (cases "GetOp pc1")
    case None
    then have "s' = pre @ pc1" "n' = n1" using "1.prems" e by (subst (asm) FindAndDelete_loop.simps, simp)+
    then show ?thesis using j inserted_copies [OF inserted_refl [of b pc1], of j] by auto
  next
    case (Some r)
    then obtain opcode v pc2 where op: "GetOp pc1 = Some (opcode, v, pc2)" by (cases r) auto
    let ?x = "take (length pc1 - length pc2) pc1"
    have "FindAndDelete_loop b (pre @ ?x) pc2 n1 = (s', n')"
      using "1.prems" e op by (subst (asm) FindAndDelete_loop.simps) simp
    then obtain t k where tk: "s' = (pre @ ?x) @ t" "n' = n1 + k" "inserted b t k pc2"
      using "1.IH" [OF e [symmetric] refl op refl refl] by blast
    have "inserted b (?x @ t) (j + k) (concat (replicate j b) @ ?x @ pc2)"
      using tk(3) by (intro inserted_copies inserted_append)
    then show ?thesis using tk j GetOp_suffix [OF op] by (intro exI [of _ "?x @ t"] exI [of _ "j + k"]) simp
  qed
qed

text \<open>
  what \<open>FindAndDelete\<close> returns, with the reported number of copies of the pattern inserted, is
  the script it was given: it deletes copies of the pattern and nothing else, and counts them.
\<close>

theorem FindAndDelete_inserted: "FindAndDelete b s = (s', n) \<Longrightarrow> inserted b s' n s"
  using FindAndDelete_loop_inserted [of b "[]" s 0 s' n]
  by (auto simp: FindAndDelete_def inserted_refl split: if_splits)

section \<open>Destination scripts\<close>

lemma IsPayToScriptHash_iff:
  "IsPayToScriptHash s \<longleftrightarrow> (\<exists>h. s = snd (SetDestination (CScriptID h)))"
proof
  assume a: "IsPayToScriptHash s"
  let ?h = "word_of_le (take 20 (drop 2 s)) :: uint160"
  have l: "length s = 23" using a by (simp add: IsPayToScriptHash_def)
  have "word_to_le ?h = take 20 (drop 2 s)" by (rule word_to_le_of_le) (simp_all add: l)
  moreover have "s = take 2 s @ take 20 (drop 2 s) @ drop 22 s"
    using append_take_drop_id [of 2 s] append_take_drop_id [of 20 "drop 2 s"] by simp
  moreover have "take 2 s = [s ! 0, s ! 1]" using l by (simp add: take_Suc_conv_app_nth numeral_2_eq_2)
  moreover have "drop 22 s = [s ! 22]" using l by (simp add: Cons_nth_drop_Suc [symmetric])
  ultimately have "s = snd (SetDestination (CScriptID ?h))"
    using a unfolding IsPayToScriptHash_def SetDestination_def push_opcode_def push_uint160_def by simp
  then show "\<exists>h. s = snd (SetDestination (CScriptID h))" by blast
next
  assume "\<exists>h. s = snd (SetDestination (CScriptID h))"
  then obtain h where "s = snd (SetDestination (CScriptID h))" by blast
  then show "IsPayToScriptHash s"
    by (simp add: IsPayToScriptHash_def SetDestination_def push_opcode_def push_uint160_def nth_append)
qed

theorem FindAndDelete_inserted_witness:
  "inserted [1, 7] [0x76] 2 [1, 7, 0x76, 1, 7]"
  by (rule FindAndDelete_inserted) code_simp

text \<open>
  the accurate count of signature operations never exceeds the legacy count, and no script counts more
  than twenty per byte.
\<close>

theorem GetSigOpCount_bounds: "GetSigOpCount True s \<le> GetSigOpCount False s \<and> GetSigOpCount f s \<le> 20 * length s"
  using GetSigOpCount_mono GetSigOpCount_loop_bound [of f s _ 0] by (simp add: GetSigOpCount_def)

end
