(* ===== verification/Transaction.thy ===== *)
theory Transaction
  imports ScriptBase
begin

text \<open>
  Transactions (\<open>main.h\<close>, \<open>main.cpp\<close>): outpoints, inputs, outputs, their serialization, the
  classification into coinbase, coinstake and user transactions, the context-free checks and fees.
  The digests of OpenSSL are a parameter.
\<close>

section \<open>Hashing\<close>

record hash_lib =
  SHA256 :: "byte list \<Rightarrow> byte list"
  SHA1 :: "byte list \<Rightarrow> byte list"
  RIPEMD160 :: "byte list \<Rightarrow> byte list"

definition Hash :: "hash_lib \<Rightarrow> byte list \<Rightarrow> uint256" where
  "Hash H bs = word_of_le (SHA256 H (SHA256 H bs))"

definition Hash2 :: "hash_lib \<Rightarrow> byte list \<Rightarrow> byte list \<Rightarrow> uint256" where
  "Hash2 H p1 p2 = word_of_le (SHA256 H (SHA256 H (p1 @ p2)))"

definition Hash160 :: "hash_lib \<Rightarrow> byte list \<Rightarrow> uint160" where
  "Hash160 H vch = word_of_le (RIPEMD160 H (SHA256 H vch))"

section \<open>Data\<close>

record COutPoint =
  op_hash :: uint256
  op_n :: u32

record CTxIn =
  prevout :: COutPoint
  scriptSig :: "byte list"
  nSequence :: u32

record CTxOut =
  nValue :: i64
  scriptPubKey :: "byte list"

record CTransaction =
  tx_nVersion :: i32
  tx_nTime :: u32
  vin :: "CTxIn list"
  vout :: "CTxOut list"
  nLockTime :: u32
  strTxComment :: "byte list"
  nProdTypeID :: u32

section \<open>Constants\<close>

abbreviation (input) COIN :: int where "COIN \<equiv> 100000000"
abbreviation (input) CENT :: int where "CENT \<equiv> 1000000"
abbreviation (input) MAX_BLOCK_SIZE :: nat where "MAX_BLOCK_SIZE \<equiv> 250000"
abbreviation (input) MAX_BLOCK_SIZE_GEN :: nat where "MAX_BLOCK_SIZE_GEN \<equiv> 125000"
abbreviation (input) MAX_BLOCK_SIGOPS :: nat where "MAX_BLOCK_SIGOPS \<equiv> 5000"
abbreviation (input) MAX_ORPHAN_TRANSACTIONS :: nat where "MAX_ORPHAN_TRANSACTIONS \<equiv> 2500"
abbreviation (input) MIN_TX_FEE :: int where "MIN_TX_FEE \<equiv> 62500"
abbreviation (input) MIN_RELAY_TX_FEE :: int where "MIN_RELAY_TX_FEE \<equiv> MIN_TX_FEE"
abbreviation (input) MAX_MONEY :: int where "MAX_MONEY \<equiv> 1000000000000000"
abbreviation (input) MAX_TX_COMMENT_LEN :: nat where "MAX_TX_COMMENT_LEN \<equiv> 512"
abbreviation (input) COMMENT_FEE_PER_CHAR :: int where "COMMENT_FEE_PER_CHAR \<equiv> 10000"
abbreviation (input) OP_RET_FEE_PER_CHAR :: int where "OP_RET_FEE_PER_CHAR \<equiv> 15000"
abbreviation (input) LOCKTIME_THRESHOLD :: nat where "LOCKTIME_THRESHOLD \<equiv> 500000000"
abbreviation (input) ec_compressed_size :: nat where "ec_compressed_size \<equiv> 33"
abbreviation (input) TX_CURRENT_VERSION :: int where "TX_CURRENT_VERSION \<equiv> 2"

definition MoneyRange :: "i64 \<Rightarrow> bool" where
  "MoneyRange v \<longleftrightarrow> sint v \<ge> 0 \<and> sint v \<le> MAX_MONEY"

section \<open>Members\<close>

definition COutPoint_IsNull :: "COutPoint \<Rightarrow> bool" where
  "COutPoint_IsNull p \<longleftrightarrow> op_hash p = 0 \<and> op_n p = -1"

definition COutPoint_less :: "COutPoint \<Rightarrow> COutPoint \<Rightarrow> bool" where
  "COutPoint_less a b \<longleftrightarrow> op_hash a < op_hash b \<or> (op_hash a = op_hash b \<and> op_n a < op_n b)"

definition CTxIn_IsFinal :: "CTxIn \<Rightarrow> bool" where
  "CTxIn_IsFinal txin \<longleftrightarrow> nSequence txin = -1"

definition CTxOut_IsNull :: "CTxOut \<Rightarrow> bool" where
  "CTxOut_IsNull txout \<longleftrightarrow> nValue txout = -1"

definition CTxOut_IsEmpty :: "CTxOut \<Rightarrow> bool" where
  "CTxOut_IsEmpty txout \<longleftrightarrow> nValue txout = 0 \<and> scriptPubKey txout = []"

definition CTxOut_IsOpReturn :: "CTxOut \<Rightarrow> bool" where
  "CTxOut_IsOpReturn txout = (case GetOp (scriptPubKey txout) of
     None \<Rightarrow> False | Some (opCode, vchR, pc) \<Rightarrow> opCode = OP_RETURN)"

definition CTransaction_IsNull :: "CTransaction \<Rightarrow> bool" where
  "CTransaction_IsNull tx \<longleftrightarrow> vin tx = [] \<and> vout tx = []"

definition IsFinal :: "int \<Rightarrow> int \<Rightarrow> CTransaction \<Rightarrow> int \<Rightarrow> int \<Rightarrow> bool" where
  "IsFinal nBestHeight adjustedTime tx height time =
     (if nLockTime tx = 0 then True
      else let nBlockHeight = (if height = 0 then nBestHeight else height);
               nBlockTime = (if time = 0 then adjustedTime else time)
           in if uint (nLockTime tx)
                 < (if uint (nLockTime tx) < int LOCKTIME_THRESHOLD then nBlockHeight else nBlockTime) then True
              else list_all CTxIn_IsFinal (vin tx))"

text \<open>\<open>IsNewerThan\<close>: the loop carries \<open>fNewer\<close> and \<open>nLowest\<close>.\<close>

fun IsNewerThan_loop :: "(CTxIn \<times> CTxIn) list \<Rightarrow> bool \<Rightarrow> u32 \<Rightarrow> bool" where
  "IsNewerThan_loop [] fNewer nLowest = fNewer"
| "IsNewerThan_loop ((a, b) # r) fNewer nLowest =
     (if nSequence a \<noteq> nSequence b then
        (let (f1, l1) = (if nSequence a \<le> nLowest then (False, nSequence a) else (fNewer, nLowest));
             (f2, l2) = (if nSequence b < l1 then (True, nSequence b) else (f1, l1))
         in IsNewerThan_loop r f2 l2)
      else IsNewerThan_loop r fNewer nLowest)"

definition IsNewerThan :: "CTransaction \<Rightarrow> CTransaction \<Rightarrow> bool" where
  "IsNewerThan tx old =
     (if length (vin tx) \<noteq> length (vin old) then False
      else if \<not> list_all2 (\<lambda>a b. prevout a = prevout b) (vin tx) (vin old) then False
      else IsNewerThan_loop (zip (vin tx) (vin old)) False (-1))"

definition IsCoinBase :: "CTransaction \<Rightarrow> bool" where
  "IsCoinBase tx \<longleftrightarrow> length (vin tx) = 1 \<and> COutPoint_IsNull (prevout (vin tx ! 0)) \<and> length (vout tx) \<ge> 1"

definition IsCoinStake :: "CTransaction \<Rightarrow> bool" where
  "IsCoinStake tx \<longleftrightarrow>
     length (vin tx) > 0 \<and> \<not> COutPoint_IsNull (prevout (vin tx ! 0)) \<and> length (vout tx) \<ge> 2
     \<and> CTxOut_IsEmpty (vout tx ! 0)"

text \<open>\<open>operator==\<close> of the source; it does not compare \<open>nProdTypeID\<close>.\<close>

definition CTransaction_eq :: "CTransaction \<Rightarrow> CTransaction \<Rightarrow> bool" where
  "CTransaction_eq a b =
     (if sint (tx_nVersion a) \<ge> 2
      then tx_nVersion a = tx_nVersion b \<and> tx_nTime a = tx_nTime b \<and> vin a = vin b \<and> vout a = vout b
           \<and> nLockTime a = nLockTime b \<and> strTxComment a = strTxComment b
      else tx_nVersion a = tx_nVersion b \<and> tx_nTime a = tx_nTime b \<and> vin a = vin b \<and> vout a = vout b
           \<and> nLockTime a = nLockTime b)"

text \<open>\<open>GetValueOut\<close>; \<open>None\<close> is the exception.  The sum wraps as \<open>int64_t\<close> does.\<close>

fun GetValueOut_loop :: "CTxOut list \<Rightarrow> i64 \<Rightarrow> i64 option" where
  "GetValueOut_loop [] nValueOut = Some nValueOut"
| "GetValueOut_loop (txout # r) nValueOut =
     (let nValueOut' = nValueOut + nValue txout in
      if \<not> MoneyRange (nValue txout) \<or> \<not> MoneyRange nValueOut' then None else GetValueOut_loop r nValueOut')"

definition GetValueOut :: "CTransaction \<Rightarrow> i64 option" where
  "GetValueOut tx = GetValueOut_loop (vout tx) 0"

definition GetLegacySigOpCount :: "CTransaction \<Rightarrow> nat" where
  "GetLegacySigOpCount tx =
     sum_list (map (\<lambda>txin. GetSigOpCount False (scriptSig txin)) (vin tx))
     + sum_list (map (\<lambda>txout. GetSigOpCount False (scriptPubKey txout)) (vout tx))"

section \<open>Serialization\<close>

text \<open>The in-memory sizes only set the step in which a vector grows while it is read.\<close>

abbreviation (input) sizeof_CTxIn :: nat where "sizeof_CTxIn \<equiv> 72"
abbreviation (input) sizeof_CTxOut :: nat where "sizeof_CTxOut \<equiv> 32"

definition ser_COutPoint :: "COutPoint \<Rightarrow> byte list" where
  "ser_COutPoint p = ser_word (op_hash p) @ ser_word (op_n p)"

definition unser_COutPoint :: "byte list \<Rightarrow> (COutPoint \<times> byte list) option" where
  "unser_COutPoint s = do {
     (h, s) \<leftarrow> unser_word s; (n, s) \<leftarrow> unser_word s; Some (\<lparr> op_hash = h, op_n = n \<rparr>, s) }"

definition ser_CTxIn :: "CTxIn \<Rightarrow> byte list" where
  "ser_CTxIn txin = ser_COutPoint (prevout txin) @ ser_bytes (scriptSig txin) @ ser_word (nSequence txin)"

definition unser_CTxIn :: "byte list \<Rightarrow> (CTxIn \<times> byte list) option" where
  "unser_CTxIn s = do {
     (p, s) \<leftarrow> unser_COutPoint s; (sig, s) \<leftarrow> unser_bytes s; (q, s) \<leftarrow> unser_word s;
     Some (\<lparr> prevout = p, scriptSig = sig, nSequence = q \<rparr>, s) }"

definition ser_CTxOut :: "CTxOut \<Rightarrow> byte list" where
  "ser_CTxOut txout = ser_word (nValue txout) @ ser_bytes (scriptPubKey txout)"

definition unser_CTxOut :: "byte list \<Rightarrow> (CTxOut \<times> byte list) option" where
  "unser_CTxOut s = do {
     (v, s) \<leftarrow> unser_word s; (pk, s) \<leftarrow> unser_bytes s; Some (\<lparr> nValue = v, scriptPubKey = pk \<rparr>, s) }"

definition ser_CTransaction :: "CTransaction \<Rightarrow> byte list" where
  "ser_CTransaction tx =
     ser_word (tx_nVersion tx) @ ser_word (tx_nTime tx) @ ser_vec ser_CTxIn (vin tx) @ ser_vec ser_CTxOut (vout tx)
     @ ser_word (nLockTime tx)
     @ (if sint (tx_nVersion tx) \<ge> 2 then ser_string (strTxComment tx) @ ser_word (nProdTypeID tx) else [])"

text \<open>Reading into a fresh transaction: the fields that are not read keep their initial values.\<close>

definition unser_CTransaction :: "byte list \<Rightarrow> (CTransaction \<times> byte list) option" where
  "unser_CTransaction s = do {
     (ver, s) \<leftarrow> unser_word s;
     (time, s) \<leftarrow> unser_word s;
     (ins, s) \<leftarrow> unser_vec sizeof_CTxIn unser_CTxIn s;
     (outs, s) \<leftarrow> unser_vec sizeof_CTxOut unser_CTxOut s;
     (lock, s) \<leftarrow> unser_word s;
     ((comment, prod), s) \<leftarrow> (if sint ver \<ge> 2 then unser_pair unser_string unser_word s else Some (([], 0), s));
     Some (\<lparr> tx_nVersion = ver, tx_nTime = time, vin = ins, vout = outs, nLockTime = lock,
             strTxComment = comment, nProdTypeID = prod \<rparr>, s) }"

definition size_CTxIn :: "CTxIn \<Rightarrow> nat" where
  "size_CTxIn txin = 36 + size_string (scriptSig txin) + 4"

definition size_CTxOut :: "CTxOut \<Rightarrow> nat" where
  "size_CTxOut txout = 8 + size_string (scriptPubKey txout)"

definition size_CTransaction :: "CTransaction \<Rightarrow> nat" where
  "size_CTransaction tx =
     4 + 4 + size_vec size_CTxIn (vin tx) + size_vec size_CTxOut (vout tx) + 4
     + (if sint (tx_nVersion tx) \<ge> 2 then size_string (strTxComment tx) + 4 else 0)"

definition GetHash :: "hash_lib \<Rightarrow> CTransaction \<Rightarrow> uint256" where
  "GetHash H tx = Hash H (ser_CTransaction tx)"

section \<open>Context-free checks\<close>

fun CheckTxOuts :: "CTransaction \<Rightarrow> CTxOut list \<Rightarrow> i64 \<Rightarrow> unit checked" where
  "CheckTxOuts tx [] nValueOut = Inr ()"
| "CheckTxOuts tx (txout # r) nValueOut =
     (if CTxOut_IsEmpty txout \<and> \<not> IsCoinBase tx \<and> \<not> IsCoinStake tx
      then Inl (DoS 100 ''txout empty for user transaction'')
      else if sint (nValue txout) < 0 then Inl (DoS 100 ''txout.nValue negative'')
      else if sint (nValue txout) > MAX_MONEY then Inl (DoS 100 ''txout.nValue too high'')
      else let nValueOut' = nValueOut + nValue txout in
           if \<not> MoneyRange nValueOut' then Inl (DoS 100 ''txout total out of range'')
           else CheckTxOuts tx r nValueOut')"

fun has_duplicate :: "CTxIn list \<Rightarrow> COutPoint list \<Rightarrow> bool" where
  "has_duplicate [] vInOutPoints = False"
| "has_duplicate (txin # r) vInOutPoints =
     (if prevout txin \<in> set vInOutPoints then True else has_duplicate r (prevout txin # vInOutPoints))"

definition CheckTransaction :: "CTransaction \<Rightarrow> unit checked" where
  "CheckTransaction tx =
     (if vin tx = [] then Inl (DoS 10 ''vin empty'')
      else if vout tx = [] then Inl (DoS 10 ''vout empty'')
      else if size_CTransaction tx > MAX_BLOCK_SIZE then Inl (DoS 100 ''size limits failed'')
      else bindr (CheckTxOuts tx (vout tx) 0) (\<lambda>_.
        if has_duplicate (vin tx) [] then Inl (DoS 0 ''duplicate inputs'')
        else if IsCoinBase tx \<and> (length (scriptSig (vin tx ! 0)) < 2 \<or> length (scriptSig (vin tx ! 0)) > 100)
        then Inl (DoS 100 ''coinbase script size is invalid'')
        else if \<not> IsCoinBase tx \<and> list_ex (\<lambda>txin. COutPoint_IsNull (prevout txin)) (vin tx)
        then Inl (DoS 10 ''prevout is null'')
        else if sint (tx_nVersion tx) \<ge> 2
        then (if length (strTxComment tx) > MAX_TX_COMMENT_LEN then Inl (DoS 10 ''comment too big'') else Inr ())
        else if length (strTxComment tx) > 0 then Inl (DoS 100 ''comment not supported'')
        else Inr ()))"

section \<open>Fees\<close>

datatype GetMinFee_mode = GMF_BLOCK | GMF_RELAY | GMF_SEND

definition GetSwiftFee :: "CTransaction \<Rightarrow> i64" where
  "GetSwiftFee tx = word_of_int COMMENT_FEE_PER_CHAR * word_of_nat (length (strTxComment tx))"

text \<open>
  \<open>GetOpRetFee\<close> decodes the operand of \<open>OP_RETURN\<close> with \<open>txout.scriptPubKey.GetOp(pc, ..)\<close> where
  \<open>pc\<close> points into the copy \<open>scriptPK\<close>.  Comparing it with the end of the other vector is undefined
  in C++, so the outcome of that call is the parameter \<open>GetOp_mixed\<close>: the script and the iterator
  give the operand, or \<open>None\<close> where the call fails.
\<close>

fun GetOpRetFee_loop :: "(byte list \<Rightarrow> byte list \<Rightarrow> byte list option) \<Rightarrow> CTxOut list \<Rightarrow> int \<Rightarrow> i64 \<Rightarrow> i64" where
  "GetOpRetFee_loop GetOp_mixed [] nFreeSSecret nOpRetFee = nOpRetFee"
| "GetOpRetFee_loop GetOp_mixed (txout # r) nFreeSSecret nOpRetFee =
     (case GetOp (scriptPubKey txout) of
        Some (opCode, vchR, pc) \<Rightarrow>
          if opCode = OP_RETURN then
            (let charge = (case GetOp_mixed (scriptPubKey txout) pc of
                             None \<Rightarrow> True
                           | Some vchR' \<Rightarrow> length vchR' \<noteq> ec_compressed_size \<or> nFreeSSecret < 1)
             in if charge
                then GetOpRetFee_loop GetOp_mixed r nFreeSSecret
                       (nOpRetFee + word_of_int OP_RET_FEE_PER_CHAR * word_of_nat (length (scriptPubKey txout)))
                else GetOpRetFee_loop GetOp_mixed r (nFreeSSecret - 1) nOpRetFee)
          else GetOpRetFee_loop GetOp_mixed r nFreeSSecret nOpRetFee
      | None \<Rightarrow> GetOpRetFee_loop GetOp_mixed r nFreeSSecret nOpRetFee)"

definition GetOpRetFee :: "(byte list \<Rightarrow> byte list \<Rightarrow> byte list option) \<Rightarrow> CTransaction \<Rightarrow> i64" where
  "GetOpRetFee GetOp_mixed tx =
     GetOpRetFee_loop GetOp_mixed (vout tx) (int (length (filter (\<lambda>txout. \<not> CTxOut_IsOpReturn txout) (vout tx)))) 0"

definition GetMinFee :: "(byte list \<Rightarrow> byte list \<Rightarrow> byte list option) \<Rightarrow> CTransaction \<Rightarrow> u32 \<Rightarrow> GetMinFee_mode \<Rightarrow> u32 \<Rightarrow> i64" where
  "GetMinFee GetOp_mixed tx nBlockSize mode nBytes =
     (let nBaseFee = (word_of_int (if mode = GMF_RELAY then MIN_RELAY_TX_FEE else MIN_TX_FEE) :: i64);
          nNewBlockSize = unat (nBlockSize + nBytes);
          fee0 = (1 + word_of_nat (unat nBytes div 1000)) * nBaseFee;
          fee1 = (if sint fee0 < sint nBaseFee \<and> list_ex (\<lambda>txout. sint (nValue txout) < CENT) (vout tx)
                  then nBaseFee else fee0);
          full = nBlockSize \<noteq> 1 \<and> nNewBlockSize \<ge> MAX_BLOCK_SIZE_GEN div 2
      in if full \<and> nNewBlockSize \<ge> MAX_BLOCK_SIZE_GEN then word_of_int MAX_MONEY
         else
           (let fee2 = (if full then fee1 * word_of_nat (MAX_BLOCK_SIZE_GEN div (MAX_BLOCK_SIZE_GEN - nNewBlockSize)) else fee1);
                fee3 = (if sint (tx_nVersion tx) \<ge> 2 then fee2 + GetSwiftFee tx + GetOpRetFee GetOp_mixed tx else fee2)
            in if \<not> MoneyRange fee3 then word_of_int MAX_MONEY else fee3))"



section \<open>Serialization is reversible\<close>

definition ok_CTxIn :: "CTxIn \<Rightarrow> bool" where
  "ok_CTxIn txin \<longleftrightarrow> length (scriptSig txin) \<le> MAX_SIZE"

definition ok_CTxOut :: "CTxOut \<Rightarrow> bool" where
  "ok_CTxOut txout \<longleftrightarrow> length (scriptPubKey txout) \<le> MAX_SIZE"

text \<open>
  A transaction the format can hold.  A version 1 transaction does not write its comment and product
  type, so they must have their initial values.
\<close>

definition ok_CTransaction :: "CTransaction \<Rightarrow> bool" where
  "ok_CTransaction tx \<longleftrightarrow>
     length (vin tx) \<le> MAX_SIZE \<and> list_all ok_CTxIn (vin tx)
     \<and> length (vout tx) \<le> MAX_SIZE \<and> list_all ok_CTxOut (vout tx)
     \<and> (if sint (tx_nVersion tx) \<ge> 2 then length (strTxComment tx) \<le> MAX_SIZE
        else strTxComment tx = [] \<and> nProdTypeID tx = 0)"

lemmas coder_simps = u32.unser_ser u64.unser_ser u256.unser_ser str.unser_ser bytes_c.unser_ser

interpretation outpoint: coder ser_COutPoint unser_COutPoint "\<lambda>_. True"
  by standard (simp add: ser_COutPoint_def unser_COutPoint_def coder_simps)

interpretation txin: coder ser_CTxIn unser_CTxIn ok_CTxIn
  by standard (simp add: ser_CTxIn_def unser_CTxIn_def ok_CTxIn_def coder_simps outpoint.unser_ser)

interpretation txout: coder ser_CTxOut unser_CTxOut ok_CTxOut
  by standard (simp add: ser_CTxOut_def unser_CTxOut_def ok_CTxOut_def coder_simps)

interpretation txins: coder "ser_vec ser_CTxIn" "unser_vec sizeof_CTxIn unser_CTxIn"
    "\<lambda>v. length v \<le> MAX_SIZE \<and> list_all ok_CTxIn v"
  by (rule txin.vec_coder) simp_all

interpretation txouts: coder "ser_vec ser_CTxOut" "unser_vec sizeof_CTxOut unser_CTxOut"
    "\<lambda>v. length v \<le> MAX_SIZE \<and> list_all ok_CTxOut v"
  by (rule txout.vec_coder) simp_all

lemma unser_ser_CTransaction:
  assumes "ok_CTransaction tx"
  shows "unser_CTransaction (ser_CTransaction tx @ r) = Some (tx, r)"
  using assms
  by (simp add: ser_CTransaction_def unser_CTransaction_def ok_CTransaction_def coder_simps
      txins.unser_ser txouts.unser_ser unser_pair_def)

interpretation tx_c: coder ser_CTransaction unser_CTransaction ok_CTransaction
  by standard (rule unser_ser_CTransaction)

lemma length_ser_CTxIn: "length (ser_CTxIn txin) = size_CTxIn txin"
  by (simp add: ser_CTxIn_def size_CTxIn_def ser_COutPoint_def ser_bytes_def size_string_def length_WriteCompactSize)

lemma length_ser_CTxOut: "length (ser_CTxOut txout) = size_CTxOut txout"
  by (simp add: ser_CTxOut_def size_CTxOut_def ser_bytes_def size_string_def length_WriteCompactSize)

lemma length_ser_CTransaction: "length (ser_CTransaction tx) = size_CTransaction tx"
  by (simp add: ser_CTransaction_def size_CTransaction_def length_ser_string
      length_ser_vec [OF length_ser_CTxIn] length_ser_vec [OF length_ser_CTxOut])

section \<open>Values\<close>

definition value_sum :: "CTxOut list \<Rightarrow> int" where
  "value_sum outs = sum_list (map (\<lambda>txout. sint (nValue txout)) outs)"

lemma MoneyRange_add:
  "MoneyRange a \<Longrightarrow> MoneyRange b \<Longrightarrow> sint (a + b) = sint a + sint b"
  by (rule sint_add_in_range) (auto simp: MoneyRange_def)

lemma value_sum_nonneg: "list_all (\<lambda>txout. MoneyRange (nValue txout)) outs \<Longrightarrow> 0 \<le> value_sum outs"
  by (induction outs) (auto simp: value_sum_def MoneyRange_def)

text \<open>The sum is returned exactly when every value and the total are in range; then it did not wrap.\<close>

lemma GetValueOut_loop_iff:
  assumes "MoneyRange a"
  shows "GetValueOut_loop outs a = Some v \<longleftrightarrow>
    list_all (\<lambda>txout. MoneyRange (nValue txout)) outs \<and> sint a + value_sum outs \<le> MAX_MONEY
    \<and> sint v = sint a + value_sum outs"
  using assms
proof (induction outs arbitrary: a)
  case Nil
  then show ?case by (auto simp: value_sum_def MoneyRange_def sint_inject)
next
  case (Cons t outs)
  show ?case
  proof (cases "MoneyRange (nValue t)")
    case True
    then have s: "sint (a + nValue t) = sint a + sint (nValue t)" using Cons.prems by (intro MoneyRange_add)
    show ?thesis
    proof (cases "MoneyRange (a + nValue t)")
      case inr: True
      show ?thesis using Cons.IH [OF inr] True inr s by (simp add: Let_def value_sum_def algebra_simps)
    next
      case False
      then have "sint a + sint (nValue t) > MAX_MONEY" using s True Cons.prems by (auto simp: MoneyRange_def)
      then show ?thesis using False True value_sum_nonneg [of outs] by (auto simp: Let_def value_sum_def)
    qed
  qed (simp add: Let_def)
qed

lemma MoneyRange_0: "MoneyRange 0"
  by (simp add: MoneyRange_def)

lemma GetValueOut_iff:
  "GetValueOut tx = Some v \<longleftrightarrow>
    list_all (\<lambda>txout. MoneyRange (nValue txout)) (vout tx) \<and> value_sum (vout tx) \<le> MAX_MONEY
    \<and> sint v = value_sum (vout tx)"
  using GetValueOut_loop_iff [OF MoneyRange_0, of "vout tx" v] by (simp add: GetValueOut_def)

lemma CheckTxOuts_ok:
  "CheckTxOuts tx outs a = Inr u \<longleftrightarrow>
    (\<exists>v. GetValueOut_loop outs a = Some v) \<and> (IsCoinBase tx \<or> IsCoinStake tx \<or> list_all (\<lambda>t. \<not> CTxOut_IsEmpty t) outs)"
  by (induction tx outs a rule: CheckTxOuts.induct) (auto simp: Let_def MoneyRange_def not_less)

lemma has_duplicate_iff:
  "has_duplicate ins seen \<longleftrightarrow> \<not> (distinct (map prevout ins) \<and> set (map prevout ins) \<inter> set seen = {})"
  by (induction ins seen rule: has_duplicate.induct) auto

text \<open>
  C17: \<open>CheckTransaction\<close> accepts exactly the transactions with inputs and outputs, within the block
  size, whose outputs and their total are money, none of them empty unless minted, with distinct
  inputs, a coinbase script of 2 to 100 bytes or no null input, and an allowed comment.
\<close>

theorem CheckTransaction_iff:
  "CheckTransaction tx = Inr () \<longleftrightarrow>
     vin tx \<noteq> [] \<and> vout tx \<noteq> [] \<and> length (ser_CTransaction tx) \<le> MAX_BLOCK_SIZE
     \<and> (\<exists>v. GetValueOut tx = Some v)
     \<and> (IsCoinBase tx \<or> IsCoinStake tx \<or> list_all (\<lambda>t. \<not> CTxOut_IsEmpty t) (vout tx))
     \<and> distinct (map prevout (vin tx))
     \<and> (if IsCoinBase tx then 2 \<le> length (scriptSig (vin tx ! 0)) \<and> length (scriptSig (vin tx ! 0)) \<le> 100
        else list_all (\<lambda>txin. \<not> COutPoint_IsNull (prevout txin)) (vin tx))
     \<and> (if sint (tx_nVersion tx) \<ge> 2 then length (strTxComment tx) \<le> MAX_TX_COMMENT_LEN else strTxComment tx = [])"
proof (cases "CheckTxOuts tx (vout tx) 0")
  case (Inl e)
  then have "\<not> (\<exists>v. GetValueOut tx = Some v) \<or> \<not> (IsCoinBase tx \<or> IsCoinStake tx \<or> list_all (\<lambda>t. \<not> CTxOut_IsEmpty t) (vout tx))"
    using CheckTxOuts_ok [of tx "vout tx" 0 "()"] by (auto simp: GetValueOut_def)
  then show ?thesis using Inl by (auto simp: CheckTransaction_def)
next
  case (Inr u)
  then have "(\<exists>v. GetValueOut tx = Some v) \<and> (IsCoinBase tx \<or> IsCoinStake tx \<or> list_all (\<lambda>t. \<not> CTxOut_IsEmpty t) (vout tx))"
    using CheckTxOuts_ok [of tx "vout tx" 0 u] by (simp add: GetValueOut_def)
  moreover have "list_ex P xs \<longleftrightarrow> \<not> list_all (\<lambda>x. \<not> P x) xs" for P and xs :: "CTxIn list"
    by (simp add: list_ex_iff list_all_iff)
  ultimately show ?thesis using Inr
    by (simp add: CheckTransaction_def length_ser_CTransaction has_duplicate_iff not_less)
qed

lemma coinbase_not_coinstake: "IsCoinBase tx \<Longrightarrow> \<not> IsCoinStake tx"
  by (auto simp: IsCoinBase_def IsCoinStake_def)



section \<open>Fees are bounded\<close>

definition script_bytes :: "CTxOut list \<Rightarrow> int" where
  "script_bytes outs = sum_list (map (\<lambda>txout. int (length (scriptPubKey txout))) outs)"

lemma script_bytes_nonneg: "0 \<le> script_bytes outs"
  unfolding script_bytes_def by (induction outs) auto

lemma GetOpRetFee_loop_bounds:
  assumes "0 \<le> sint a" "sint a + OP_RET_FEE_PER_CHAR * script_bytes outs < 2 ^ 63"
  shows "sint a \<le> sint (GetOpRetFee_loop m outs k a)
    \<and> sint (GetOpRetFee_loop m outs k a) \<le> sint a + OP_RET_FEE_PER_CHAR * script_bytes outs"
  using assms
proof (induction outs arbitrary: k a)
  case Nil
  then show ?case by (simp add: script_bytes_def)
next
  case (Cons t r)
  define len where "len = int (length (scriptPubKey t))"
  define a' where "a' = a + word_of_int OP_RET_FEE_PER_CHAR * word_of_nat (length (scriptPubKey t))"
  have nn: "0 \<le> len" "0 \<le> script_bytes r" by (simp_all add: len_def script_bytes_nonneg)
  have sb: "script_bytes (t # r) = len + script_bytes r" by (simp add: script_bytes_def len_def)
  have "sint (word_of_int (OP_RET_FEE_PER_CHAR * len) :: i64) = OP_RET_FEE_PER_CHAR * len"
    using nn Cons.prems by (intro sint_word_of_int) (auto simp: sb)
  moreover have "a' = a + word_of_int (OP_RET_FEE_PER_CHAR * len)" by (simp add: a'_def len_def)
  ultimately have a': "sint a' = sint a + OP_RET_FEE_PER_CHAR * len"
    using nn Cons.prems sint_add_in_range [of a "word_of_int (OP_RET_FEE_PER_CHAR * len)"] by (auto simp: sb)
  have "GetOpRetFee_loop m (t # r) k a \<in>
      {GetOpRetFee_loop m r k a', GetOpRetFee_loop m r (k - 1) a, GetOpRetFee_loop m r k a}"
    by (auto simp: a'_def Let_def split: option.splits)
  then show ?case
    using Cons.IH [of a' k] Cons.IH [of a "k - 1"] Cons.IH [of a k] Cons.prems a' nn
    by (auto simp: sb algebra_simps)
qed

lemma GetOpRetFee_bounds:
  "script_bytes (vout tx) \<le> 2 ^ 32 \<Longrightarrow>
   0 \<le> sint (GetOpRetFee m tx) \<and> sint (GetOpRetFee m tx) \<le> OP_RET_FEE_PER_CHAR * script_bytes (vout tx)"
  using GetOpRetFee_loop_bounds [of 0 "vout tx" m] by (simp add: GetOpRetFee_def)

lemma GetSwiftFee_value:
  "length (strTxComment tx) \<le> 2 ^ 32 \<Longrightarrow> sint (GetSwiftFee tx) = COMMENT_FEE_PER_CHAR * int (length (strTxComment tx))"
  using sint_word_of_int [of "COMMENT_FEE_PER_CHAR * int (length (strTxComment tx))"] by (simp add: GetSwiftFee_def)

text \<open>The size-dependent part of the fee, before the block gets full.\<close>

definition size_fee :: "u32 \<Rightarrow> int" where
  "size_fee nBytes = (1 + int (unat nBytes div 1000)) * MIN_TX_FEE"

lemma size_fee_bounds: "MIN_TX_FEE \<le> size_fee nBytes" "size_fee nBytes \<le> 4294968 * MIN_TX_FEE"
proof -
  have "unat nBytes < 2 ^ LENGTH(32)" by (rule unsigned_less)
  then have "unat nBytes div 1000 \<le> 4294967" by simp
  then have "int (unat nBytes div 1000) \<le> 4294967" by linarith
  moreover have "0 \<le> int (unat nBytes div 1000)" by simp
  ultimately show "MIN_TX_FEE \<le> size_fee nBytes" and "size_fee nBytes \<le> 4294968 * MIN_TX_FEE"
    by (simp_all add: size_fee_def)
qed

lemma fee0_value: "sint ((1 + word_of_nat (unat nBytes div 1000)) * word_of_int MIN_TX_FEE :: i64) = size_fee nBytes"
proof -
  have "(1 + word_of_nat (unat nBytes div 1000)) * word_of_int MIN_TX_FEE = (word_of_int (size_fee nBytes) :: i64)"
    by (simp add: size_fee_def)
  then show ?thesis using size_fee_bounds [of nBytes] by (simp add: sint_word_of_int)
qed


text \<open>The factor by which a nearly full block raises the price.\<close>

definition full_factor :: "u32 \<Rightarrow> u32 \<Rightarrow> nat" where
  "full_factor nBlockSize nBytes =
     (if nBlockSize \<noteq> 1 \<and> unat (nBlockSize + nBytes) \<ge> MAX_BLOCK_SIZE_GEN div 2
      then MAX_BLOCK_SIZE_GEN div (MAX_BLOCK_SIZE_GEN - unat (nBlockSize + nBytes)) else 1)"

definition service_fee :: "(byte list \<Rightarrow> byte list \<Rightarrow> byte list option) \<Rightarrow> CTransaction \<Rightarrow> int" where
  "service_fee m tx =
     (if sint (tx_nVersion tx) \<ge> 2
      then COMMENT_FEE_PER_CHAR * int (length (strTxComment tx)) + sint (GetOpRetFee m tx) else 0)"

lemma full_factor_bounds:
  assumes "nBlockSize = 1 \<or> unat (nBlockSize + nBytes) < MAX_BLOCK_SIZE_GEN"
  shows "1 \<le> full_factor nBlockSize nBytes" "full_factor nBlockSize nBytes \<le> MAX_BLOCK_SIZE_GEN"
  using assms by (auto simp: full_factor_def div_greater_zero_iff Suc_le_eq)

lemma size_full_bounds:
  assumes "nBlockSize = 1 \<or> unat (nBlockSize + nBytes) < MAX_BLOCK_SIZE_GEN"
  shows "0 \<le> size_fee nBytes * int (full_factor nBlockSize nBytes)"
    and "size_fee nBytes * int (full_factor nBlockSize nBytes) \<le> 4294968 * MIN_TX_FEE * int MAX_BLOCK_SIZE_GEN"
proof -
  note f = full_factor_bounds [OF assms] and z = size_fee_bounds [of nBytes]
  show "0 \<le> size_fee nBytes * int (full_factor nBlockSize nBytes)" using z by simp
  show "size_fee nBytes * int (full_factor nBlockSize nBytes) \<le> 4294968 * MIN_TX_FEE * int MAX_BLOCK_SIZE_GEN"
    by (rule mult_mono) (use f z in simp_all)
qed

lemma sint_mult_factor:
  assumes "sint (a :: i64) = x" "0 \<le> x * int k" "x * int k < 2 ^ 63"
  shows "sint (a * word_of_nat k) = x * int k"
proof -
  have "a * word_of_nat k = word_of_int (x * int k)" using assms(1) by (simp flip: assms(1))
  then show ?thesis using sint_word_of_int [of "x * int k"] assms(2,3) by (simp only:)
qed

lemma GetMinFee_sint:
  assumes "length (strTxComment tx) \<le> MAX_BLOCK_SIZE" "script_bytes (vout tx) \<le> int MAX_BLOCK_SIZE"
  shows "sint (GetMinFee m tx nBlockSize mode nBytes) =
    (if nBlockSize \<noteq> 1 \<and> unat (nBlockSize + nBytes) \<ge> MAX_BLOCK_SIZE_GEN then MAX_MONEY
     else min MAX_MONEY (size_fee nBytes * int (full_factor nBlockSize nBytes) + service_fee m tx))"
proof (cases "nBlockSize \<noteq> 1 \<and> unat (nBlockSize + nBytes) \<ge> MAX_BLOCK_SIZE_GEN")
  case True
  then show ?thesis by (simp add: GetMinFee_def Let_def)
next
  case False
  let ?fee0 = "(1 + word_of_nat (unat nBytes div 1000)) * word_of_int MIN_TX_FEE :: i64"
  define fee2 where "fee2 = ?fee0 * word_of_nat (full_factor nBlockSize nBytes)"
  define fee3 where "fee3 = (if sint (tx_nVersion tx) \<ge> 2 then fee2 + GetSwiftFee tx + GetOpRetFee m tx else fee2)"
  have nf: "nBlockSize = 1 \<or> unat (nBlockSize + nBytes) < MAX_BLOCK_SIZE_GEN" using False by auto
  have s2: "sint fee2 = size_fee nBytes * int (full_factor nBlockSize nBytes)"
    unfolding fee2_def using size_full_bounds [OF nf] by (intro sint_mult_factor fee0_value) auto
  have sw: "sint (GetSwiftFee tx) = COMMENT_FEE_PER_CHAR * int (length (strTxComment tx))"
    using assms(1) by (intro GetSwiftFee_value) simp
  have op: "0 \<le> sint (GetOpRetFee m tx)" "sint (GetOpRetFee m tx) \<le> OP_RET_FEE_PER_CHAR * int MAX_BLOCK_SIZE"
    using GetOpRetFee_bounds [of tx m] assms(2) by auto
  have "sint (fee2 + GetSwiftFee tx) = sint fee2 + sint (GetSwiftFee tx)"
    using s2 sw size_full_bounds [OF nf] assms(1) by (intro sint_add_in_range) auto
  moreover have "sint (fee2 + GetSwiftFee tx + GetOpRetFee m tx) = sint (fee2 + GetSwiftFee tx) + sint (GetOpRetFee m tx)"
    using calculation s2 sw op size_full_bounds [OF nf] assms(1) by (intro sint_add_in_range) auto
  ultimately have s3: "sint fee3 = size_fee nBytes * int (full_factor nBlockSize nBytes) + service_fee m tx"
    using s2 sw by (simp add: fee3_def service_fee_def)
  have "GetMinFee m tx nBlockSize mode nBytes = (if \<not> MoneyRange fee3 then word_of_int MAX_MONEY else fee3)"
    unfolding GetMinFee_def Let_def fee3_def fee2_def full_factor_def
    using nf fee0_value [of nBytes] size_fee_bounds(1) [of nBytes] by auto
  moreover have "0 \<le> sint fee3" using s3 size_full_bounds(1) [OF nf] op by (simp add: service_fee_def)
  ultimately show ?thesis using s3 False by (auto simp: MoneyRange_def)
qed

lemma full_factor_pos: "nBlockSize = 1 \<or> unat (nBlockSize + nBytes) < MAX_BLOCK_SIZE_GEN \<Longrightarrow> 1 \<le> full_factor nBlockSize nBytes"
  by (auto simp: full_factor_def div_greater_zero_iff Suc_le_eq)

lemma GetMinFee_lower:
  assumes "length (strTxComment tx) \<le> MAX_BLOCK_SIZE" "script_bytes (vout tx) \<le> int MAX_BLOCK_SIZE"
  shows "MIN_TX_FEE \<le> sint (GetMinFee m tx nBlockSize mode nBytes)"
proof (cases "nBlockSize \<noteq> 1 \<and> unat (nBlockSize + nBytes) \<ge> MAX_BLOCK_SIZE_GEN")
  case False
  then have "1 \<le> full_factor nBlockSize nBytes" using full_factor_pos [of nBlockSize nBytes] by auto
  then have "MIN_TX_FEE * 1 \<le> size_fee nBytes * int (full_factor nBlockSize nBytes)"
    using size_fee_bounds(1) [of nBytes] by (intro mult_mono) auto
  moreover have "0 \<le> service_fee m tx" using GetOpRetFee_bounds(1) [of tx m] assms(2) by (simp add: service_fee_def)
  ultimately show ?thesis using False by (simp add: GetMinFee_sint [OF assms])
qed (simp add: GetMinFee_sint [OF assms])

text \<open>
  C33: the fee asked for is a full block's \<open>MAX_MONEY\<close>, or the size fee scaled up as the block
  fills plus the service fees, capped at \<open>MAX_MONEY\<close>; no 64-bit operation overflows.
\<close>

theorem GetMinFee_value:
  assumes "length (strTxComment tx) \<le> MAX_BLOCK_SIZE" "script_bytes (vout tx) \<le> int MAX_BLOCK_SIZE"
  shows "sint (GetMinFee m tx nBlockSize mode nBytes) =
    (if nBlockSize \<noteq> 1 \<and> unat (nBlockSize + nBytes) \<ge> MAX_BLOCK_SIZE_GEN then MAX_MONEY
     else min MAX_MONEY (size_fee nBytes * int (full_factor nBlockSize nBytes) + service_fee m tx))"
  using GetMinFee_sint [OF assms] .

section \<open>Properties\<close>

definition sample_tx :: CTransaction where
  "sample_tx = \<lparr> tx_nVersion = 2, tx_nTime = 1442210400,
     vin = [\<lparr> prevout = \<lparr> op_hash = 7, op_n = 1 \<rparr>, scriptSig = [1, 5], nSequence = 0xffffffff \<rparr>],
     vout = [\<lparr> nValue = 5000, scriptPubKey = [0x51] \<rparr>], nLockTime = 0, strTxComment = [104, 105], nProdTypeID = 0 \<rparr>"

theorem GetMinFee_value_witness: "sint (GetMinFee (\<lambda>_ _. None) sample_tx 1000 GMF_SEND 250) = 82500"
proof -
  have "script_bytes (vout sample_tx) \<le> int MAX_BLOCK_SIZE" "length (strTxComment sample_tx) \<le> MAX_BLOCK_SIZE"
    by (simp_all add: sample_tx_def script_bytes_def)
  moreover have "size_fee 250 = 62500" "full_factor 1000 250 = 1" "service_fee (\<lambda>_ _. None) sample_tx = 20000"
    by code_simp+
  ultimately show ?thesis using GetMinFee_value [of sample_tx "\<lambda>_ _. None" 1000 GMF_SEND 250] by simp
qed

text \<open>
  C31: a transaction that the wire format can hold is parsed back from its serialization, whatever follows
  it in the stream, the size computed without serializing is the number of bytes written, and two
  such transactions with the same bytes are equal.
\<close>

theorem CTransaction_roundtrip:
  assumes "ok_CTransaction tx" "ok_CTransaction tx'"
  shows "unser_CTransaction (ser_CTransaction tx @ r) = Some (tx, r)
    \<and> length (ser_CTransaction tx) = size_CTransaction tx
    \<and> (ser_CTransaction tx = ser_CTransaction tx' \<longleftrightarrow> tx = tx')"
  using unser_ser_CTransaction [OF assms(1)] length_ser_CTransaction tx_c.ser_inject [OF assms] by simp

theorem CTransaction_roundtrip_witness:
  "unser_CTransaction (ser_CTransaction sample_tx @ [1]) = Some (sample_tx, [1])"
proof -
  have "ok_CTransaction sample_tx" by code_simp
  from CTransaction_roundtrip [OF this this] show ?thesis by blast
qed

end
