(* ===== verification/ScriptEval.thy ===== *)
theory ScriptEval
  imports Transaction "HOL-Library.Sublist"
begin

text \<open>
  The script interpreter of \<open>script.cpp\<close>: canonical encodings, \<open>EvalScript\<close>, \<open>SignatureHash\<close>,
  \<open>CheckSig\<close> with its cache, and \<open>VerifyScript\<close>.  The stacks of the code grow at the back; here the
  head of the list is the top, so \<open>stacktop(-i)\<close> is \<open>stack ! (i - 1)\<close>.  \<open>None\<close> is \<open>return false\<close>, which
  is also what the handler \<open>catch (...)\<close> returns.  ECDSA verification with a public key
  (\<open>key.SetPubKey\<close>, then \<open>key.Verify\<close>) is OpenSSL's and is a parameter.
\<close>

record script_lib =
  s_bn :: bn_lib
  s_hash :: hash_lib
  s_verify :: "byte list \<Rightarrow> uint256 \<Rightarrow> byte list \<Rightarrow> bool"

abbreviation (input) MAX_SCRIPT_ELEMENT_SIZE :: nat where "MAX_SCRIPT_ELEMENT_SIZE \<equiv> 520"
abbreviation (input) MAX_OP_RETURN_RELAY :: nat where "MAX_OP_RETURN_RELAY \<equiv> 48"
abbreviation (input) SIGHASH_ALL :: nat where "SIGHASH_ALL \<equiv> 1"
abbreviation (input) SIGHASH_NONE :: nat where "SIGHASH_NONE \<equiv> 2"
abbreviation (input) SIGHASH_SINGLE :: nat where "SIGHASH_SINGLE \<equiv> 3"
abbreviation (input) SIGHASH_ANYONECANPAY :: nat where "SIGHASH_ANYONECANPAY \<equiv> 0x80"

abbreviation (input) vchFalse :: "byte list" where "vchFalse \<equiv> []"
abbreviation (input) vchTrue :: "byte list" where "vchTrue \<equiv> [1]"

section \<open>Casts\<close>

definition CastToBigNum :: "bn_lib \<Rightarrow> byte list \<Rightarrow> int option" where
  "CastToBigNum L vch = (if length vch > 4 then None else Some (setvch L (getvch L (setvch L vch))))"

fun CastToBool :: "byte list \<Rightarrow> bool" where
  "CastToBool [] = False"
| "CastToBool (b # r) = (if b \<noteq> 0 then (if r = [] \<and> b = 0x80 then False else True) else CastToBool r)"

definition bool_vch :: "bool \<Rightarrow> byte list" where
  "bool_vch b = (if b then vchTrue else vchFalse)"

definition bool_int :: "bool \<Rightarrow> int" where
  "bool_int b = (if b then 1 else 0)"

section \<open>Canonical encodings\<close>

fun cbe_trim :: "nat \<Rightarrow> byte list \<Rightarrow> byte list option" where
  "cbe_trim 0 c = Some c"
| "cbe_trim (Suc k) [] = Some []"
| "cbe_trim (Suc k) (x # c) = (if x \<noteq> 0 then None else cbe_trim k c)"

lemma cbe_trim_code [code]:
  "cbe_trim k c = (if k = 0 then Some c
     else case c of [] \<Rightarrow> Some [] | x # r \<Rightarrow> if x \<noteq> 0 then None else cbe_trim (k - 1) r)"
  by (cases k; cases c) auto

fun cbe_cmp :: "byte list \<Rightarrow> byte list \<Rightarrow> int" where
  "cbe_cmp (x # c1) (y # c2) = (if x > y then 1 else if y > x then -1 else cbe_cmp c1 c2)"
| "cbe_cmp _ _ = 0"

definition CompareBigEndian :: "byte list \<Rightarrow> byte list \<Rightarrow> int" where
  "CompareBigEndian c1 c2 =
     (case cbe_trim (length c1 - length c2) c1 of None \<Rightarrow> 1
      | Some c1' \<Rightarrow> (case cbe_trim (length c2 - length c1) c2 of None \<Rightarrow> -1 | Some c2' \<Rightarrow> cbe_cmp c1' c2'))"

definition vchMaxModOrder :: "byte list" where
  "vchMaxModOrder =
     [0xFF,0xFF,0xFF,0xFF,0xFF,0xFF,0xFF,0xFF, 0xFF,0xFF,0xFF,0xFF,0xFF,0xFF,0xFF,0xFE,
      0xBA,0xAE,0xDC,0xE6,0xAF,0x48,0xA0,0x3B, 0xBF,0xD2,0x5E,0x8C,0xD0,0x36,0x41,0x40]"

definition vchMaxModHalfOrder :: "byte list" where
  "vchMaxModHalfOrder =
     [0x7F,0xFF,0xFF,0xFF,0xFF,0xFF,0xFF,0xFF, 0xFF,0xFF,0xFF,0xFF,0xFF,0xFF,0xFF,0xFF,
      0x5D,0x57,0x6E,0x73,0x57,0xA4,0x50,0x1D, 0xDF,0xE9,0x2F,0x46,0x68,0x1B,0x20,0xA0]"

definition CheckSignatureElement :: "byte list \<Rightarrow> bool \<Rightarrow> bool" where
  "CheckSignatureElement vch half \<longleftrightarrow>
     CompareBigEndian vch [] > 0 \<and> CompareBigEndian vch (if half then vchMaxModHalfOrder else vchMaxModOrder) \<le> 0"

definition IsCanonicalPubKey :: "byte list \<Rightarrow> bool" where
  "IsCanonicalPubKey vchPubKey =
     (if length vchPubKey < 33 then False
      else if vchPubKey ! 0 = 0x04 then length vchPubKey = 65
      else if vchPubKey ! 0 = 0x02 \<or> vchPubKey ! 0 = 0x03 then length vchPubKey = 33
      else False)"

definition IsCanonicalSignature :: "byte list \<Rightarrow> bool" where
  "IsCanonicalSignature vchSig =
     (if length vchSig < 9 then False
      else if length vchSig > 73 then False
      else
       let nHashType = unat (vchSig ! (length vchSig - 1) AND NOT (word_of_nat SIGHASH_ANYONECANPAY)) in
       if nHashType < SIGHASH_ALL \<or> nHashType > SIGHASH_SINGLE then False
       else if vchSig ! 0 \<noteq> 0x30 then False
       else if unat (vchSig ! 1) \<noteq> length vchSig - 3 then False
       else
        let nLenR = unat (vchSig ! 3) in
        if 5 + nLenR \<ge> length vchSig then False
        else
         let nLenS = unat (vchSig ! (5 + nLenR)) in
         if nLenR + nLenS + 7 \<noteq> length vchSig then False
         else if vchSig ! 2 \<noteq> 0x02 then False
         else if nLenR = 0 then False
         else if vchSig ! 4 AND 0x80 \<noteq> 0 then False
         else if nLenR > 1 \<and> vchSig ! 4 = 0x00 \<and> vchSig ! 5 AND 0x80 = 0 then False
         else if vchSig ! (4 + nLenR) \<noteq> 0x02 then False
         else if nLenS = 0 then False
         else if vchSig ! (6 + nLenR) AND 0x80 \<noteq> 0 then False
         else if nLenS > 1 \<and> vchSig ! (6 + nLenR) = 0x00 \<and> vchSig ! (7 + nLenR) AND 0x80 = 0 then False
         else CheckSignatureElement (take nLenS (drop (6 + nLenR) vchSig)) True)"

section \<open>The interpreter\<close>

record estate =
  stk :: "valtype list"
  altstk :: "valtype list"
  vfExec :: "bool list"
  nOpCount :: nat
  pbegincodehash :: "byte list"

abbreviation (input) push_stk :: "valtype \<Rightarrow> estate \<Rightarrow> estate" where
  "push_stk v s \<equiv> s\<lparr> stk := v # stk s \<rparr>"

definition fExec :: "estate \<Rightarrow> bool" where
  "fExec s = list_all id (vfExec s)"

definition disabled :: "nat \<Rightarrow> bool" where
  "disabled opcode \<longleftrightarrow>
     opcode = OP_CAT \<or> opcode = OP_SUBSTR \<or> opcode = OP_LEFT \<or> opcode = OP_RIGHT \<or> opcode = OP_INVERT
     \<or> opcode = OP_AND \<or> opcode = OP_OR \<or> opcode = OP_XOR \<or> opcode = OP_2MUL \<or> opcode = OP_2DIV
     \<or> opcode = OP_MUL \<or> opcode = OP_DIV \<or> opcode = OP_MOD \<or> opcode = OP_LSHIFT \<or> opcode = OP_RSHIFT"

text \<open>Push value, no-ops and control flow.\<close>

definition eval_control :: "script_lib \<Rightarrow> nat \<Rightarrow> estate \<Rightarrow> estate option" where
  "eval_control E opcode s =
     (if opcode = OP_1NEGATE \<or> (OP_1 \<le> opcode \<and> opcode \<le> OP_16)
      then Some (push_stk (getvch (s_bn E) (int opcode - (int OP_1 - 1))) s)
      else if opcode = OP_NOP \<or> (OP_NOP1 \<le> opcode \<and> opcode \<le> OP_NOP10) then Some s
      else if opcode = OP_IF \<or> opcode = OP_NOTIF then
        (if fExec s then
           (case stk s of [] \<Rightarrow> None
            | vch # r \<Rightarrow>
                let fValue = (if opcode = OP_NOTIF then \<not> CastToBool vch else CastToBool vch)
                in Some (s\<lparr> stk := r, vfExec := fValue # vfExec s \<rparr>))
         else Some (s\<lparr> vfExec := False # vfExec s \<rparr>))
      else if opcode = OP_ELSE then
        (case vfExec s of [] \<Rightarrow> None | f # r \<Rightarrow> Some (s\<lparr> vfExec := (\<not> f) # r \<rparr>))
      else if opcode = OP_ENDIF then
        (case vfExec s of [] \<Rightarrow> None | f # r \<Rightarrow> Some (s\<lparr> vfExec := r \<rparr>))
      else if opcode = OP_VERIFY then
        (case stk s of [] \<Rightarrow> None | vch # r \<Rightarrow> if CastToBool vch then Some (s\<lparr> stk := r \<rparr>) else None)
      else None)"

text \<open>Stack operations.\<close>

definition eval_stack :: "script_lib \<Rightarrow> nat \<Rightarrow> estate \<Rightarrow> estate option" where
  "eval_stack E opcode s =
     (if opcode = OP_TOALTSTACK then
        (case stk s of x # r \<Rightarrow> Some (s\<lparr> stk := r, altstk := x # altstk s \<rparr>) | _ \<Rightarrow> None)
      else if opcode = OP_FROMALTSTACK then
        (case altstk s of x # r \<Rightarrow> Some (s\<lparr> stk := x # stk s, altstk := r \<rparr>) | _ \<Rightarrow> None)
      else if opcode = OP_2DROP then
        (case stk s of x2 # x1 # r \<Rightarrow> Some (s\<lparr> stk := r \<rparr>) | _ \<Rightarrow> None)
      else if opcode = OP_2DUP then
        (case stk s of x2 # x1 # r \<Rightarrow> Some (s\<lparr> stk := x2 # x1 # x2 # x1 # r \<rparr>) | _ \<Rightarrow> None)
      else if opcode = OP_3DUP then
        (case stk s of x3 # x2 # x1 # r \<Rightarrow> Some (s\<lparr> stk := x3 # x2 # x1 # x3 # x2 # x1 # r \<rparr>) | _ \<Rightarrow> None)
      else if opcode = OP_2OVER then
        (case stk s of x4 # x3 # x2 # x1 # r \<Rightarrow> Some (s\<lparr> stk := x2 # x1 # x4 # x3 # x2 # x1 # r \<rparr>) | _ \<Rightarrow> None)
      else if opcode = OP_2ROT then
        (case stk s of x6 # x5 # x4 # x3 # x2 # x1 # r \<Rightarrow>
           Some (s\<lparr> stk := x2 # x1 # x6 # x5 # x4 # x3 # r \<rparr>) | _ \<Rightarrow> None)
      else if opcode = OP_2SWAP then
        (case stk s of x4 # x3 # x2 # x1 # r \<Rightarrow> Some (s\<lparr> stk := x2 # x1 # x4 # x3 # r \<rparr>) | _ \<Rightarrow> None)
      else if opcode = OP_IFDUP then
        (case stk s of x # r \<Rightarrow> Some (if CastToBool x then push_stk x s else s) | _ \<Rightarrow> None)
      else if opcode = OP_DEPTH then Some (push_stk (getvch (s_bn E) (int (length (stk s)))) s)
      else if opcode = OP_DROP then (case stk s of x # r \<Rightarrow> Some (s\<lparr> stk := r \<rparr>) | _ \<Rightarrow> None)
      else if opcode = OP_DUP then (case stk s of x # r \<Rightarrow> Some (push_stk x s) | _ \<Rightarrow> None)
      else if opcode = OP_NIP then
        (case stk s of x2 # x1 # r \<Rightarrow> Some (s\<lparr> stk := x2 # r \<rparr>) | _ \<Rightarrow> None)
      else if opcode = OP_OVER then
        (case stk s of x2 # x1 # r \<Rightarrow> Some (push_stk x1 s) | _ \<Rightarrow> None)
      else if opcode = OP_PICK \<or> opcode = OP_ROLL then
        (case stk s of t # x0 # r0 \<Rightarrow>
           do { bn \<leftarrow> CastToBigNum (s_bn E) t;
                let n = getint (s_bn E) bn;
                    r = x0 # r0
                in if n < 0 \<or> n \<ge> int (length r) then None
                   else let vch = r ! nat n
                        in Some (s\<lparr> stk := vch # (if opcode = OP_ROLL then take (nat n) r @ drop (Suc (nat n)) r else r) \<rparr>) }
         | _ \<Rightarrow> None)
      else if opcode = OP_ROT then
        (case stk s of x3 # x2 # x1 # r \<Rightarrow> Some (s\<lparr> stk := x1 # x3 # x2 # r \<rparr>) | _ \<Rightarrow> None)
      else if opcode = OP_SWAP then
        (case stk s of x2 # x1 # r \<Rightarrow> Some (s\<lparr> stk := x1 # x2 # r \<rparr>) | _ \<Rightarrow> None)
      else if opcode = OP_TUCK then
        (case stk s of x2 # x1 # r \<Rightarrow> Some (s\<lparr> stk := x2 # x1 # x2 # r \<rparr>) | _ \<Rightarrow> None)
      else if opcode = OP_SIZE then
        (case stk s of x # r \<Rightarrow> Some (push_stk (getvch (s_bn E) (int (length x))) s) | _ \<Rightarrow> None)
      else None)"

text \<open>Equality and arithmetic.  The disabled operations have been rejected before.\<close>

definition unary_result :: "nat \<Rightarrow> int \<Rightarrow> int option" where
  "unary_result opcode bn =
     (if opcode = OP_1ADD then Some (bn + 1)
      else if opcode = OP_1SUB then Some (bn - 1)
      else if opcode = OP_NEGATE then Some (- bn)
      else if opcode = OP_ABS then Some (if bn < 0 then - bn else bn)
      else if opcode = OP_NOT then Some (bool_int (bn = 0))
      else if opcode = OP_0NOTEQUAL then Some (bool_int (bn \<noteq> 0))
      else None)"

definition binary_result :: "nat \<Rightarrow> int \<Rightarrow> int \<Rightarrow> int option" where
  "binary_result opcode bn1 bn2 =
     (if opcode = OP_ADD then Some (bn1 + bn2)
      else if opcode = OP_SUB then Some (bn1 - bn2)
      else if opcode = OP_BOOLAND then Some (bool_int (bn1 \<noteq> 0 \<and> bn2 \<noteq> 0))
      else if opcode = OP_BOOLOR then Some (bool_int (bn1 \<noteq> 0 \<or> bn2 \<noteq> 0))
      else if opcode = OP_NUMEQUAL \<or> opcode = OP_NUMEQUALVERIFY then Some (bool_int (bn1 = bn2))
      else if opcode = OP_NUMNOTEQUAL then Some (bool_int (bn1 \<noteq> bn2))
      else if opcode = OP_LESSTHAN then Some (bool_int (bn1 < bn2))
      else if opcode = OP_GREATERTHAN then Some (bool_int (bn1 > bn2))
      else if opcode = OP_LESSTHANOREQUAL then Some (bool_int (bn1 \<le> bn2))
      else if opcode = OP_GREATERTHANOREQUAL then Some (bool_int (bn1 \<ge> bn2))
      else if opcode = OP_MIN then Some (if bn1 < bn2 then bn1 else bn2)
      else if opcode = OP_MAX then Some (if bn1 > bn2 then bn1 else bn2)
      else None)"

definition eval_numeric :: "script_lib \<Rightarrow> nat \<Rightarrow> estate \<Rightarrow> estate option" where
  "eval_numeric E opcode s =
     (if opcode = OP_EQUAL \<or> opcode = OP_EQUALVERIFY then
        (case stk s of x2 # x1 # r \<Rightarrow>
           (if opcode = OP_EQUALVERIFY then (if x1 = x2 then Some (s\<lparr> stk := r \<rparr>) else None)
            else Some (s\<lparr> stk := bool_vch (x1 = x2) # r \<rparr>))
         | _ \<Rightarrow> None)
      else if (OP_1ADD \<le> opcode \<and> opcode \<le> OP_0NOTEQUAL) then
        (case stk s of x # r \<Rightarrow>
           do { bn \<leftarrow> CastToBigNum (s_bn E) x; v \<leftarrow> unary_result opcode bn;
                Some (s\<lparr> stk := getvch (s_bn E) v # r \<rparr>) }
         | _ \<Rightarrow> None)
      else if OP_ADD \<le> opcode \<and> opcode \<le> OP_MAX then
        (case stk s of x2 # x1 # r \<Rightarrow>
           do { bn1 \<leftarrow> CastToBigNum (s_bn E) x1; bn2 \<leftarrow> CastToBigNum (s_bn E) x2;
                v \<leftarrow> binary_result opcode bn1 bn2;
                if opcode = OP_NUMEQUALVERIFY
                then (if CastToBool (getvch (s_bn E) v) then Some (s\<lparr> stk := r \<rparr>) else None)
                else Some (s\<lparr> stk := getvch (s_bn E) v # r \<rparr>) }
         | _ \<Rightarrow> None)
      else if opcode = OP_WITHIN then
        (case stk s of x3 # x2 # x1 # r \<Rightarrow>
           do { bn1 \<leftarrow> CastToBigNum (s_bn E) x1; bn2 \<leftarrow> CastToBigNum (s_bn E) x2;
                bn3 \<leftarrow> CastToBigNum (s_bn E) x3;
                Some (s\<lparr> stk := bool_vch (bn2 \<le> bn1 \<and> bn1 < bn3) # r \<rparr>) }
         | _ \<Rightarrow> None)
      else None)"

text \<open>Hashes and signatures.  \<open>chk\<close> is \<open>CheckSig\<close> with the transaction, input and hash type applied.\<close>

definition hash_result :: "hash_lib \<Rightarrow> nat \<Rightarrow> valtype \<Rightarrow> valtype" where
  "hash_result H opcode vch =
     (if opcode = OP_RIPEMD160 then RIPEMD160 H vch
      else if opcode = OP_SHA1 then SHA1 H vch
      else if opcode = OP_SHA256 then SHA256 H vch
      else if opcode = OP_HASH160 then word_to_le (Hash160 H vch)
      else word_to_le (Hash H vch))"

definition sig_ok :: "(valtype \<Rightarrow> valtype \<Rightarrow> byte list \<Rightarrow> bool) \<Rightarrow> byte list \<Rightarrow> valtype \<Rightarrow> valtype \<Rightarrow> bool" where
  "sig_ok chk scriptCode vchSig vchPubKey \<longleftrightarrow>
     IsCanonicalSignature vchSig \<and> IsCanonicalPubKey vchPubKey \<and> chk vchSig vchPubKey scriptCode"

fun multisig_loop :: "(valtype \<Rightarrow> valtype \<Rightarrow> bool) \<Rightarrow> valtype list \<Rightarrow> valtype list \<Rightarrow> bool" where
  "multisig_loop ok [] keys = True"
| "multisig_loop ok (sig # sigs) [] = False"
| "multisig_loop ok (sig # sigs) (key # keys) =
     (let sigs' = (if ok sig key then sigs else sig # sigs)
      in if length sigs' > length keys then False else multisig_loop ok sigs' keys)"

definition drop_sigs :: "valtype list \<Rightarrow> byte list \<Rightarrow> byte list" where
  "drop_sigs sigs scriptCode = fold (\<lambda>vchSig sc. fst (FindAndDelete (push_data vchSig []) sc)) sigs scriptCode"

definition eval_multisig ::
  "script_lib \<Rightarrow> (valtype \<Rightarrow> valtype \<Rightarrow> byte list \<Rightarrow> bool) \<Rightarrow> nat \<Rightarrow> estate \<Rightarrow> estate option" where
  "eval_multisig E chk opcode s =
     (if length (stk s) < 1 then None else
      do { bnKeys \<leftarrow> CastToBigNum (s_bn E) (stk s ! 0);
           let nKeysCount = getint (s_bn E) bnKeys in
           if nKeysCount < 0 \<or> nKeysCount > 20 then None else
           let k = nat nKeysCount; nOpCount' = nOpCount s + k in
           if nOpCount' > 201 then None
           else if length (stk s) < 2 + k then None else
           do { bnSigs \<leftarrow> CastToBigNum (s_bn E) (stk s ! (1 + k));
                let nSigsCount = getint (s_bn E) bnSigs in
                if nSigsCount < 0 \<or> nSigsCount > nKeysCount then None else
                let m = nat nSigsCount in
                if length (stk s) < 3 + k + m then None else
                let keys = take k (drop 1 (stk s));
                    sigs = take m (drop (2 + k) (stk s));
                    scriptCode = drop_sigs sigs (pbegincodehash s);
                    fSuccess = multisig_loop (sig_ok chk scriptCode) sigs keys;
                    r = drop (3 + k + m) (stk s)
                in if opcode = OP_CHECKMULTISIGVERIFY
                   then (if fSuccess then Some (s\<lparr> stk := r, nOpCount := nOpCount' \<rparr>) else None)
                   else Some (s\<lparr> stk := bool_vch fSuccess # r, nOpCount := nOpCount' \<rparr>) } })"

definition eval_crypto ::
  "script_lib \<Rightarrow> (valtype \<Rightarrow> valtype \<Rightarrow> byte list \<Rightarrow> bool) \<Rightarrow> nat \<Rightarrow> byte list \<Rightarrow> estate \<Rightarrow> estate option" where
  "eval_crypto E chk opcode pc s =
     (if OP_RIPEMD160 \<le> opcode \<and> opcode \<le> OP_HASH256 then
        (case stk s of x # r \<Rightarrow> Some (s\<lparr> stk := hash_result (s_hash E) opcode x # r \<rparr>) | _ \<Rightarrow> None)
      else if opcode = OP_CODESEPARATOR then Some (s\<lparr> pbegincodehash := pc \<rparr>)
      else if opcode = OP_CHECKSIG \<or> opcode = OP_CHECKSIGVERIFY then
        (case stk s of vchPubKey # vchSig # r \<Rightarrow>
           (let scriptCode = fst (FindAndDelete (push_data vchSig []) (pbegincodehash s));
                fSuccess = sig_ok chk scriptCode vchSig vchPubKey
            in if opcode = OP_CHECKSIGVERIFY then (if fSuccess then Some (s\<lparr> stk := r \<rparr>) else None)
               else Some (s\<lparr> stk := bool_vch fSuccess # r \<rparr>))
         | _ \<Rightarrow> None)
      else if opcode = OP_CHECKMULTISIG \<or> opcode = OP_CHECKMULTISIGVERIFY then eval_multisig E chk opcode s
      else None)"

text \<open>One opcode of the \<open>switch\<close>; \<open>pc\<close> is the iterator after it.\<close>

definition eval_op ::
  "script_lib \<Rightarrow> (valtype \<Rightarrow> valtype \<Rightarrow> byte list \<Rightarrow> bool) \<Rightarrow> nat \<Rightarrow> byte list \<Rightarrow> estate \<Rightarrow> estate option" where
  "eval_op E chk opcode pc s =
     (if opcode \<le> OP_RETURN \<or> (OP_NOP1 \<le> opcode \<and> opcode \<le> OP_NOP10) then eval_control E opcode s
      else if opcode \<le> OP_SIZE then eval_stack E opcode s
      else if opcode \<le> OP_WITHIN then eval_numeric E opcode s
      else eval_crypto E chk opcode pc s)"

text \<open>The body of the loop: limits, disabled opcodes, execution, size of the stacks.\<close>

definition eval_step ::
  "script_lib \<Rightarrow> (valtype \<Rightarrow> valtype \<Rightarrow> byte list \<Rightarrow> bool) \<Rightarrow> nat \<Rightarrow> valtype \<Rightarrow> byte list \<Rightarrow> estate \<Rightarrow> estate option" where
  "eval_step E chk opcode vchPushValue pc s =
     (if length vchPushValue > MAX_SCRIPT_ELEMENT_SIZE then None
      else let s1 = (if opcode > OP_16 then s\<lparr> nOpCount := nOpCount s + 1 \<rparr> else s) in
      if opcode > OP_16 \<and> nOpCount s1 > 201 then None
      else if disabled opcode then None
      else
       do { s2 \<leftarrow> (if fExec s1 \<and> opcode \<le> OP_PUSHDATA4 then Some (push_stk vchPushValue s1)
                  else if fExec s1 \<or> (OP_IF \<le> opcode \<and> opcode \<le> OP_ENDIF) then eval_op E chk opcode pc s1
                  else Some s1);
            if length (stk s2) + length (altstk s2) > 1000 then None else Some s2 })"

function eval_loop ::
  "script_lib \<Rightarrow> (valtype \<Rightarrow> valtype \<Rightarrow> byte list \<Rightarrow> bool) \<Rightarrow> byte list \<Rightarrow> estate \<Rightarrow> estate option" where
  "eval_loop E chk pc s =
     (if pc = [] then Some s
      else case GetOp pc of None \<Rightarrow> None
           | Some (opcode, vchPushValue, pc') \<Rightarrow>
               (case eval_step E chk opcode vchPushValue pc' s of None \<Rightarrow> None
                | Some s' \<Rightarrow> eval_loop E chk pc' s'))"
  by pat_completeness auto
termination
  by (relation "measure (\<lambda>(E, chk, pc, s). length pc)") (auto dest: GetOp_length)

declare eval_loop.simps [simp del]

definition EvalScript ::
  "script_lib \<Rightarrow> (valtype \<Rightarrow> valtype \<Rightarrow> byte list \<Rightarrow> bool) \<Rightarrow> valtype list \<Rightarrow> byte list \<Rightarrow> valtype list option" where
  "EvalScript E chk stack script =
     (if length script > 10000 then None
      else do { s \<leftarrow> eval_loop E chk script
                      \<lparr> stk = stack, altstk = [], vfExec = [], nOpCount = 0, pbegincodehash = script \<rparr>;
                if vfExec s \<noteq> [] then None else Some (stk s) })"



section \<open>Comparing big-endian numbers\<close>

lemma be_nat_bound: "be_nat bs < 256 ^ length bs"
  using le_nat_bound [of "rev bs"] by (simp add: be_nat_def)

lemma cbe_trim_None: "cbe_trim k c = None \<Longrightarrow> k \<le> length c \<Longrightarrow> 256 ^ (length c - k) \<le> be_nat c"
proof (induction k c rule: cbe_trim.induct)
  case (3 k x c)
  show ?case
  proof (cases "x = 0")
    case True
    then show ?thesis using 3 by simp
  next
    case False
    have "(256 :: nat) ^ (length c - k) \<le> 256 ^ length c" by simp
    also have "\<dots> \<le> unat x * 256 ^ length c" using False by (simp add: byte_neq_0)
    finally show ?thesis by simp
  qed
qed auto

lemma cbe_trim_Some: "cbe_trim k c = Some c' \<Longrightarrow> k \<le> length c \<Longrightarrow> be_nat c' = be_nat c \<and> length c' = length c - k"
  by (induction k c rule: cbe_trim.induct) (auto split: if_splits)

lemma cbe_cmp_sgn: "length c1 = length c2 \<Longrightarrow> cbe_cmp c1 c2 = sgn (int (be_nat c1) - int (be_nat c2))"
proof (induction c1 c2 rule: cbe_cmp.induct)
  case (1 x c1 y c2)
  have less: "be_nat (a # u) < be_nat (b # v)" if "a < b" "length u = length v" for a b :: byte and u v
  proof -
    have "unat a + 1 \<le> unat b" using that(1) by (simp add: word_less_nat_alt)
    then have "(unat a + 1) * 256 ^ length v \<le> unat b * 256 ^ length v" by (rule mult_le_mono1)
    then show ?thesis using be_nat_bound [of u] that(2) by simp
  qed
  consider "x < y" | "x > y" | "x = y" by fastforce
  then show ?case
  proof cases
    case 1
    then show ?thesis using less [OF 1, of c1 c2] "1.prems" by (simp del: be_nat_simps)
  next
    case 2
    then show ?thesis using less [OF 2, of c2 c1] "1.prems" by (simp del: be_nat_simps)
  next
    case 3
    then show ?thesis using "1.IH" "1.prems" by simp
  qed
qed auto

text \<open>
  \<open>CompareBigEndian\<close> is the sign of the difference of the two numbers, whatever leading zeros
  their encodings carry.
\<close>

theorem CompareBigEndian_sgn: "CompareBigEndian c1 c2 = sgn (int (be_nat c1) - int (be_nat c2))"
proof (cases "cbe_trim (length c1 - length c2) c1")
  case None
  then have "length c1 > length c2" by (cases "length c1 - length c2") auto
  then have "256 ^ length c2 \<le> be_nat c1" using cbe_trim_None [OF None] by simp
  then have "be_nat c2 < be_nat c1" using be_nat_bound [of c2] by linarith
  then show ?thesis using None by (simp add: CompareBigEndian_def)
next
  case (Some d1)
  note d1 = cbe_trim_Some [OF Some]
  show ?thesis
  proof (cases "cbe_trim (length c2 - length c1) c2")
    case None
    then have "length c2 > length c1" by (cases "length c2 - length c1") auto
    then have "256 ^ length c1 \<le> be_nat c2" using cbe_trim_None [OF None] by simp
    then have "be_nat c1 < be_nat c2" using be_nat_bound [of c1] by linarith
    then show ?thesis using None Some by (simp add: CompareBigEndian_def)
  next
    case (Some d2)
    then show ?thesis using \<open>cbe_trim (length c1 - length c2) c1 = Some d1\<close> d1 cbe_trim_Some [OF Some]
      by (simp add: CompareBigEndian_def cbe_cmp_sgn)
  qed
qed

section \<open>Limits\<close>

lemma eval_control_ops: "eval_control E opcode s = Some s' \<Longrightarrow> nOpCount s' = nOpCount s"
  by (auto simp: eval_control_def Let_def split: if_splits list.splits)

lemma eval_stack_ops: "eval_stack E opcode s = Some s' \<Longrightarrow> nOpCount s' = nOpCount s"
  by (simp add: eval_stack_def Let_def split: if_split_asm list.split_asm Option.bind_split_asm) auto

lemma eval_numeric_ops: "eval_numeric E opcode s = Some s' \<Longrightarrow> nOpCount s' = nOpCount s"
  by (auto simp: eval_numeric_def split: if_splits list.splits Option.bind_splits)

lemma eval_crypto_ops: "eval_crypto E chk opcode pc s = Some s' \<Longrightarrow> nOpCount s \<le> 201 \<Longrightarrow> nOpCount s' \<le> 201"
  by (auto simp: eval_crypto_def eval_multisig_def Let_def split: if_splits list.splits Option.bind_splits)

lemma eval_op_ops: "eval_op E chk opcode pc s = Some s' \<Longrightarrow> nOpCount s \<le> 201 \<Longrightarrow> nOpCount s' \<le> 201"
  by (auto simp: eval_op_def split: if_splits dest: eval_control_ops eval_stack_ops eval_numeric_ops eval_crypto_ops)

(*@@*)

text \<open>After every instruction the two stacks hold at most 1000 items and at most 201 operations ran.\<close>

definition within_limits :: "estate \<Rightarrow> bool" where
  "within_limits s \<longleftrightarrow> length (stk s) + length (altstk s) \<le> 1000 \<and> nOpCount s \<le> 201"

lemma eval_step_limits:
  "eval_step E chk opcode v pc s = Some s' \<Longrightarrow> nOpCount s \<le> 201 \<Longrightarrow> within_limits s'"
  by (auto simp: eval_step_def within_limits_def Let_def split: if_splits Option.bind_splits dest: eval_op_ops)

lemma eval_loop_limits: "eval_loop E chk pc s = Some s' \<Longrightarrow> within_limits s \<Longrightarrow> within_limits s'"
proof (induction E chk pc s rule: eval_loop.induct)
  case (1 E chk pc s)
  show ?case
  proof (cases "pc = []")
    case True
    then show ?thesis using 1 by (subst (asm) eval_loop.simps) simp
  next
    case False
    then obtain opcode v pc' s1 where o: "GetOp pc = Some (opcode, v, pc')"
      and e: "eval_step E chk opcode v pc' s = Some s1" "eval_loop E chk pc' s1 = Some s'"
      using "1.prems"(1) by (subst (asm) eval_loop.simps) (auto split: option.splits)
    then have "within_limits s1" using "1.prems"(2) eval_step_limits by (auto simp: within_limits_def)
    then show ?thesis using "1.IH" [OF False o refl refl e(1,2)] by simp
  qed
qed

text \<open>
  a script that runs to its end leaves at most 1000 elements on the stack.
\<close>

theorem EvalScript_limits: "EvalScript E chk st script = Some st' \<Longrightarrow> length st \<le> 1000 \<Longrightarrow> length st' \<le> 1000"
  by (auto simp: EvalScript_def within_limits_def split: if_splits Option.bind_splits dest!: eval_loop_limits)

section \<open>Instances\<close>

definition sample_lib :: script_lib where
  "sample_lib = \<lparr> s_bn = mpi_ref,
     s_hash = \<lparr> SHA256 = (\<lambda>v. rev (take 32 (v @ replicate 32 0))), SHA1 = (\<lambda>v. take 20 (v @ replicate 20 1)),
                RIPEMD160 = (\<lambda>v. take 20 (v @ replicate 20 2)) \<rparr>,
     s_verify = (\<lambda>key h sig. True) \<rparr>"

theorem EvalScript_limits_witness:
  "\<exists>st. EvalScript sample_lib (\<lambda>_ _ _. True) [[3]] [0x52, 0x93] = Some st \<and> length st \<le> 1000"
proof -
  have "EvalScript sample_lib (\<lambda>_ _ _. True) [[3]] [0x52, 0x93] = Some [[5]]" by code_simp
  from EvalScript_limits [OF this] show ?thesis using \<open>EvalScript sample_lib _ _ _ = _\<close> by auto
qed

end
