(* ===== verification/ScriptVerify.thy ===== *)
theory ScriptVerify
  imports ScriptEval
begin

text \<open>
  Signature hashes, \<open>CheckSig\<close> with its cache of valid signatures, and \<open>VerifyScript\<close>, which runs an
  input script against an output script (\<open>script.cpp\<close>).
\<close>

section \<open>Signature hashes\<close>

definition CTxOut_null :: CTxOut where
  "CTxOut_null = \<lparr> nValue = -1, scriptPubKey = [] \<rparr>"

definition zero_other_sequences :: "nat \<Rightarrow> CTxIn list \<Rightarrow> CTxIn list" where
  "zero_other_sequences nIn ins =
     map (\<lambda>(i, txin). if i \<noteq> nIn then txin\<lparr> nSequence := 0 \<rparr> else txin) (enumerate 0 ins)"

text \<open>The transaction that is hashed; \<open>None\<close> where the code returns the constant 1.\<close>

definition SignatureHash_tx :: "byte list \<Rightarrow> CTransaction \<Rightarrow> nat \<Rightarrow> i32 \<Rightarrow> CTransaction option" where
  "SignatureHash_tx scriptCode txTo nIn nHashType =
     (if nIn \<ge> length (vin txTo) then None
      else
       let code = fst (FindAndDelete [word_of_nat OP_CODESEPARATOR] scriptCode);
           ins = (map (\<lambda>txin. txin\<lparr> scriptSig := [] \<rparr>) (vin txTo))[nIn := (vin txTo ! nIn)\<lparr> scriptSig := code \<rparr>];
           ht = unat (nHashType AND 0x1f)
       in do {
         tmp \<leftarrow> (if ht = SIGHASH_NONE then Some (txTo\<lparr> vin := zero_other_sequences nIn ins, vout := [] \<rparr>)
                else if ht = SIGHASH_SINGLE then
                  (if nIn \<ge> length (vout txTo) then None
                   else Some (txTo\<lparr> vin := zero_other_sequences nIn ins,
                                   vout := replicate nIn CTxOut_null @ [vout txTo ! nIn] \<rparr>))
                else Some (txTo\<lparr> vin := ins \<rparr>));
         Some (if nHashType AND word_of_nat SIGHASH_ANYONECANPAY \<noteq> 0 then tmp\<lparr> vin := [vin tmp ! nIn] \<rparr> else tmp) })"

definition SignatureHash :: "hash_lib \<Rightarrow> byte list \<Rightarrow> CTransaction \<Rightarrow> nat \<Rightarrow> i32 \<Rightarrow> uint256" where
  "SignatureHash H scriptCode txTo nIn nHashType =
     (case SignatureHash_tx scriptCode txTo nIn nHashType of
        None \<Rightarrow> 1
      | Some txTmp \<Rightarrow> Hash H (ser_CTransaction txTmp @ ser_word nHashType))"

section \<open>The signature cache\<close>

text \<open>
  \<open>setValid\<close> is a list without duplicates.  Which entry an eviction removes depends on
  \<open>GetRandHash\<close>; \<open>pick\<close> stands for that choice among the entries.
\<close>

type_synonym sigdata = "uint256 \<times> valtype \<times> valtype"

definition cache_Get :: "sigdata list \<Rightarrow> sigdata \<Rightarrow> bool" where
  "cache_Get setValid k = (k \<in> set setValid)"

definition remove_nth :: "nat \<Rightarrow> 'a list \<Rightarrow> 'a list" where
  "remove_nth i xs = take i xs @ drop (Suc i) xs"

lemma length_remove_nth: "i < length xs \<Longrightarrow> length (remove_nth i xs) < length xs"
  by (simp add: remove_nth_def)

lemma set_remove_nth: "set (remove_nth i xs) \<subseteq> set xs"
  by (auto simp: remove_nth_def dest: in_set_takeD in_set_dropD)

function cache_evict :: "(sigdata list \<Rightarrow> nat) \<Rightarrow> nat \<Rightarrow> sigdata list \<Rightarrow> sigdata list" where
  "cache_evict pick nMax setValid =
     (if length setValid > nMax
      then cache_evict pick nMax (remove_nth (pick setValid mod length setValid) setValid)
      else setValid)"
  by pat_completeness auto
termination
  by (relation "measure (\<lambda>(p, n, c). length c)") (auto intro!: length_remove_nth mod_less_divisor)

declare cache_evict.simps [simp del]

definition cache_Set :: "(sigdata list \<Rightarrow> nat) \<Rightarrow> int \<Rightarrow> sigdata \<Rightarrow> sigdata list \<Rightarrow> sigdata list" where
  "cache_Set pick nMaxCacheSize k setValid =
     (if nMaxCacheSize \<le> 0 then setValid
      else List.insert k (cache_evict pick (nat nMaxCacheSize) setValid))"

text \<open>\<open>CheckSig\<close>: the hash type it uses and the signature without its last byte; \<open>None\<close> is \<open>return false\<close>.\<close>

definition CheckSig_split :: "valtype \<Rightarrow> i32 \<Rightarrow> (i32 \<times> valtype) option" where
  "CheckSig_split vchSig nHashType =
     (if vchSig = [] then None
      else if nHashType = 0 then Some (ucast (last vchSig), butlast vchSig)
      else if nHashType \<noteq> ucast (last vchSig) then None
      else Some (nHashType, butlast vchSig))"

definition CheckSig_cached ::
  "script_lib \<Rightarrow> (sigdata list \<Rightarrow> nat) \<Rightarrow> int \<Rightarrow> sigdata list \<Rightarrow> valtype \<Rightarrow> valtype \<Rightarrow> byte list \<Rightarrow> CTransaction \<Rightarrow> nat \<Rightarrow> i32
   \<Rightarrow> bool \<times> sigdata list" where
  "CheckSig_cached E pick nMaxCacheSize cache vchSig vchPubKey scriptCode txTo nIn nHashType =
     (case CheckSig_split vchSig nHashType of None \<Rightarrow> (False, cache)
      | Some (ht, sig) \<Rightarrow>
          let sighash = SignatureHash (s_hash E) scriptCode txTo nIn ht in
          if cache_Get cache (sighash, sig, vchPubKey) then (True, cache)
          else if \<not> s_verify E vchPubKey sighash sig then (False, cache)
          else (True, cache_Set pick nMaxCacheSize (sighash, sig, vchPubKey) cache))"

text \<open>What \<open>CheckSig\<close> answers, whatever the cache holds.\<close>

definition CheckSig :: "script_lib \<Rightarrow> CTransaction \<Rightarrow> nat \<Rightarrow> i32 \<Rightarrow> valtype \<Rightarrow> valtype \<Rightarrow> byte list \<Rightarrow> bool" where
  "CheckSig E txTo nIn nHashType vchSig vchPubKey scriptCode =
     (case CheckSig_split vchSig nHashType of None \<Rightarrow> False
      | Some (ht, sig) \<Rightarrow> s_verify E vchPubKey (SignatureHash (s_hash E) scriptCode txTo nIn ht) sig)"

section \<open>Verification\<close>

definition VerifyScript :: "script_lib \<Rightarrow> byte list \<Rightarrow> byte list \<Rightarrow> CTransaction \<Rightarrow> nat \<Rightarrow> i32 \<Rightarrow> bool" where
  "VerifyScript E sig pubKey txTo nIn nHashType =
     (let chk = CheckSig E txTo nIn nHashType in
      case EvalScript E chk [] sig of None \<Rightarrow> False
      | Some stackCopy \<Rightarrow>
         (case EvalScript E chk stackCopy pubKey of None \<Rightarrow> False
          | Some [] \<Rightarrow> False
          | Some (t1 # _) \<Rightarrow>
              if \<not> CastToBool t1 then False
              else if IsPayToScriptHash pubKey then
                (if \<not> IsPushOnly sig then False
                 else case stackCopy of [] \<Rightarrow> False
                      | pubKey2 # rest \<Rightarrow>
                          (case EvalScript E chk rest pubKey2 of None \<Rightarrow> False
                           | Some [] \<Rightarrow> False
                           | Some (t2 # _) \<Rightarrow> CastToBool t2))
              else True))"

text \<open>\<open>VerifySignature\<close>; \<open>None\<close> is the failed assertion on \<open>nIn\<close>.\<close>

definition VerifySignature :: "script_lib \<Rightarrow> CTransaction \<Rightarrow> CTransaction \<Rightarrow> nat \<Rightarrow> i32 \<Rightarrow> bool option" where
  "VerifySignature E txFrom txTo nIn nHashType =
     (if nIn \<ge> length (vin txTo) then None
      else let txin = vin txTo ! nIn in
           Some (if unat (op_n (prevout txin)) \<ge> length (vout txFrom) then False
                 else if op_hash (prevout txin) \<noteq> GetHash (s_hash E) txFrom then False
                 else VerifyScript E (scriptSig txin) (scriptPubKey (vout txFrom ! unat (op_n (prevout txin)))) txTo nIn nHashType))"



section \<open>The cache does not change the answers\<close>

definition cache_valid :: "script_lib \<Rightarrow> sigdata list \<Rightarrow> bool" where
  "cache_valid E cache \<longleftrightarrow> list_all (\<lambda>(hash, sig, pubKey). s_verify E pubKey hash sig) cache"

lemma cache_evict_subset: "set (cache_evict pick n c) \<subseteq> set c"
proof (induction pick n c rule: cache_evict.induct)
  case (1 pick n c)
  then show ?case using set_remove_nth [of "pick c mod length c" c] by (subst cache_evict.simps) auto
qed

lemma cache_evict_length: "length (cache_evict pick n c) \<le> n"
proof (induction pick n c rule: cache_evict.induct)
  case (1 pick n c)
  then show ?case by (subst cache_evict.simps) auto
qed

lemma cache_evict_distinct: "distinct c \<Longrightarrow> distinct (cache_evict pick n c)"
proof (induction pick n c rule: cache_evict.induct)
  case (1 pick n c)
  have "distinct (remove_nth i c)" for i
    using 1(2) set_take_disj_set_drop_if_distinct [of c i "Suc i"] by (simp add: remove_nth_def)
  then show ?case using 1 by (subst cache_evict.simps) auto
qed

lemma cache_Set_length: "length (cache_Set pick n k c) \<le> max (length c) (nat n + 1)"
  using cache_evict_length [of pick "nat n" c] by (auto simp: cache_Set_def List.insert_def)

text \<open>
  C28: with a cache that holds only signatures that verify, \<open>CheckSig\<close> gives the answer it gives without
  a cache, whichever entry is evicted, and the cache keeps holding only signatures that verify.
\<close>

theorem CheckSig_cached_eq:
  assumes "cache_valid E cache"
  shows "fst (CheckSig_cached E pick n cache vchSig vchPubKey scriptCode txTo nIn nHashType)
           = CheckSig E txTo nIn nHashType vchSig vchPubKey scriptCode
    \<and> cache_valid E (snd (CheckSig_cached E pick n cache vchSig vchPubKey scriptCode txTo nIn nHashType))"
proof
  show "fst (CheckSig_cached E pick n cache vchSig vchPubKey scriptCode txTo nIn nHashType)
           = CheckSig E txTo nIn nHashType vchSig vchPubKey scriptCode"
    using assms
    by (auto simp: CheckSig_cached_def CheckSig_def Let_def cache_Get_def cache_valid_def list_all_iff split: option.splits)
  have "set (cache_Set pick n k cache) \<subseteq> insert k (set cache)" for k
    using cache_evict_subset [of pick "nat n" cache] by (auto simp: cache_Set_def)
  then show "cache_valid E (snd (CheckSig_cached E pick n cache vchSig vchPubKey scriptCode txTo nIn nHashType))"
    using assms
    by (auto simp: CheckSig_cached_def Let_def cache_valid_def list_all_iff split: option.splits; fastforce)
qed

theorem CheckSig_cached_eq_witness:
  "cache_valid sample_lib (snd (CheckSig_cached sample_lib (\<lambda>_. 0) 1 [(1, [2], [3])] [0x30, 1] [2] [0x51] sample_tx 0 1))"
  using CheckSig_cached_eq [of sample_lib "[(1, [2], [3])]"] by (simp add: cache_valid_def sample_lib_def)

section \<open>Running scripts\<close>

lemma eval_loop_Nil [simp]: "eval_loop E chk [] s = Some s"
  by (subst eval_loop.simps) simp

lemma eval_loop_step:
  "GetOp pc = Some (opcode, v, pc') \<Longrightarrow>
   eval_loop E chk pc s = (case eval_step E chk opcode v pc' s of None \<Rightarrow> None | Some s' \<Rightarrow> eval_loop E chk pc' s')"
  by (subst eval_loop.simps) (auto simp: GetOp_def)

lemma eval_loop_push:
  assumes "length b \<le> MAX_SCRIPT_ELEMENT_SIZE" "fExec s" "length (stk s) + length (altstk s) < 1000"
  shows "eval_loop E chk (push_data b [] @ r) s = eval_loop E chk r (s\<lparr> stk := b # stk s \<rparr>)"
proof -
  have "GetOp (push_data b [] @ r) = Some (push_op b, b, r)" using assms(1) by (intro GetOp_push_data) simp
  moreover have "eval_step E chk (push_op b) b r s = Some (s\<lparr> stk := b # stk s \<rparr>)"
    using assms push_op_le [of b] by (simp add: eval_step_def Let_def disabled_def)
  ultimately show ?thesis by (simp add: eval_loop_step)
qed

lemma fExec_stk [simp]: "fExec (s\<lparr> stk := x \<rparr>) = fExec s"
  by (simp add: fExec_def)

definition pushes :: "valtype list \<Rightarrow> byte list" where
  "pushes bs = concat (map (\<lambda>b. push_data b []) bs)"

lemma eval_loop_pushes:
  assumes "list_all (\<lambda>b. length b \<le> MAX_SCRIPT_ELEMENT_SIZE) bs" "fExec s"
    "length bs + length (stk s) + length (altstk s) \<le> 1000"
  shows "eval_loop E chk (pushes bs @ r) s = eval_loop E chk r (s\<lparr> stk := rev bs @ stk s \<rparr>)"
  using assms
proof (induction bs arbitrary: s)
  case Nil
  then show ?case by (simp add: pushes_def)
next
  case (Cons b bs)
  have "eval_loop E chk (pushes (b # bs) @ r) s = eval_loop E chk (push_data b [] @ pushes bs @ r) s"
    by (simp add: pushes_def)
  also have "\<dots> = eval_loop E chk (pushes bs @ r) (s\<lparr> stk := b # stk s \<rparr>)"
    using Cons.prems by (intro eval_loop_push) auto
  also have "\<dots> = eval_loop E chk r (s\<lparr> stk := rev (b # bs) @ stk s \<rparr>)"
    using Cons.prems Cons.IH [of "s\<lparr> stk := b # stk s \<rparr>"] by simp
  finally show ?case .
qed

lemma EvalScript_pushes:
  assumes "list_all (\<lambda>b. length b \<le> MAX_SCRIPT_ELEMENT_SIZE) bs" "length bs + length st \<le> 1000"
    "length (pushes bs) \<le> 10000"
  shows "EvalScript E chk st (pushes bs) = Some (rev bs @ st)"
  using assms eval_loop_pushes [of bs _ E chk "[]"] by (simp add: EvalScript_def fExec_def)



section \<open>Standard spends\<close>

definition p2pkh :: "uint160 \<Rightarrow> byte list" where
  "p2pkh h = snd (SetDestination (CKeyID h))"

definition p2sh :: "uint160 \<Rightarrow> byte list" where
  "p2sh h = snd (SetDestination (CScriptID h))"

lemma p2pkh_bytes: "p2pkh h = 0x76 # 0xa9 # 20 # word_to_le h @ [0x88, 0xac]"
  by (simp add: p2pkh_def SetDestination_def push_opcode_def push_uint160_def)

lemma p2sh_bytes: "p2sh h = 0xa9 # 20 # word_to_le h @ [0x87]"
  by (simp add: p2sh_def SetDestination_def push_opcode_def push_uint160_def)

lemma word_to_le_160: "word_to_le (a :: uint160) = word_to_le b \<longleftrightarrow> a = b"
  by (rule word_to_le_inject) simp

lemma GetOp_consts:
  "GetOp (0x76 # r) = Some (0x76, [], r)" "GetOp (0xa9 # r) = Some (0xa9, [], r)"
  "GetOp (0x88 # r) = Some (0x88, [], r)" "GetOp (0x87 # r) = Some (0x87, [], r)"
  "GetOp (0xac # r) = Some (0xac, [], r)"
  by (simp_all add: GetOp_def)

lemma GetOp_hash: "GetOp (20 # word_to_le (h :: uint160) @ r) = Some (20, word_to_le h, r)"
  by (rule GetOp_20) simp

lemmas run_simps = eval_loop_step [OF GetOp_consts(1)] eval_loop_step [OF GetOp_consts(2)]
  eval_loop_step [OF GetOp_consts(3)] eval_loop_step [OF GetOp_consts(4)] eval_loop_step [OF GetOp_consts(5)]
  eval_loop_step [OF GetOp_hash] eval_step_def Let_def disabled_def fExec_def eval_op_def

lemma EvalScript_p2pkh:
  assumes "length st + 4 \<le> 1000"
  shows "EvalScript E chk (pubkey # sig # st) (p2pkh h) =
    (if Hash160 (s_hash E) pubkey = h
     then Some (bool_vch (sig_ok chk (fst (FindAndDelete (push_data sig []) (p2pkh h))) sig pubkey) # st) else None)"
  using assms
  by (simp add: EvalScript_def p2pkh_bytes run_simps eval_stack_def eval_crypto_def eval_numeric_def hash_result_def word_to_le_160)

lemma EvalScript_p2sh:
  assumes "length st + 2 \<le> 1000"
  shows "EvalScript E chk (redeem # st) (p2sh h) = Some (bool_vch (Hash160 (s_hash E) redeem = h) # st)"
  using assms
  by (auto simp add: EvalScript_def p2sh_bytes run_simps eval_crypto_def eval_numeric_def hash_result_def word_to_le_160)

lemma CastToBool_bool_vch [simp]: "CastToBool (bool_vch b) = b"
  by (simp add: bool_vch_def)

lemma length_push_data: "length b \<le> MAX_SCRIPT_ELEMENT_SIZE \<Longrightarrow> length (push_data b []) \<le> length b + 5"
  by (simp add: push_data_def)

lemma VerifyScript_p2pkh:
  assumes "length sig \<le> MAX_SCRIPT_ELEMENT_SIZE" "length pubkey \<le> MAX_SCRIPT_ELEMENT_SIZE"
  shows "VerifyScript E (pushes [sig, pubkey]) (p2pkh h) txTo nIn nHashType \<longleftrightarrow>
    Hash160 (s_hash E) pubkey = h
    \<and> IsCanonicalSignature sig \<and> IsCanonicalPubKey pubkey
    \<and> CheckSig E txTo nIn nHashType sig pubkey (fst (FindAndDelete (push_data sig []) (p2pkh h)))"
proof -
  have "length (pushes [sig, pubkey]) \<le> 10000"
    using length_push_data [OF assms(1)] length_push_data [OF assms(2)] assms by (simp add: pushes_def)
  then have "EvalScript E chk [] (pushes [sig, pubkey]) = Some [pubkey, sig]" for chk
    using EvalScript_pushes [of "[sig, pubkey]" "[]" E chk] assms by simp
  moreover have "\<not> IsPayToScriptHash (p2pkh h)" by (simp add: IsPayToScriptHash_def p2pkh_bytes)
  ultimately show ?thesis
    by (simp add: VerifyScript_def Let_def EvalScript_p2pkh sig_ok_def)
qed

text \<open>
  C15: spending a pay-to-script-hash output with pushed arguments and a redeem script succeeds
  exactly when the redeem script has the committed hash and, run on the arguments, ends with a true
  value on top.
\<close>

theorem VerifyScript_p2sh:
  assumes "list_all (\<lambda>b. length b \<le> MAX_SCRIPT_ELEMENT_SIZE) (args @ [redeem])" "length args < 999"
    "length (pushes (args @ [redeem])) \<le> 10000"
  shows "VerifyScript E (pushes (args @ [redeem])) (p2sh h) txTo nIn nHashType \<longleftrightarrow>
    Hash160 (s_hash E) redeem = h
    \<and> (\<exists>t st. EvalScript E (CheckSig E txTo nIn nHashType) (rev args) redeem = Some (t # st) \<and> CastToBool t)"
proof -
  have "EvalScript E chk [] (pushes (args @ [redeem])) = Some (redeem # rev args)" for chk
    using EvalScript_pushes [of "args @ [redeem]" "[]" E chk] assms by simp
  moreover have "IsPayToScriptHash (p2sh h)" unfolding p2sh_def IsPayToScriptHash_iff by blast
  moreover have "IsPushOnly (pushes (args @ [redeem]))"
    using assms(1) unfolding pushes_def by (intro IsPushOnly_pushes) (auto simp: list_all_iff)
  ultimately show ?thesis using assms(2)
    by (auto simp: VerifyScript_def Let_def EvalScript_p2sh split: option.splits list.splits)
qed

section \<open>Multisignatures\<close>

text \<open>
  The single pass over signatures and keys succeeds exactly when the signatures match, in order, a
  subsequence of the keys.
\<close>

definition sigs_match :: "(valtype \<Rightarrow> valtype \<Rightarrow> bool) \<Rightarrow> valtype list \<Rightarrow> valtype list \<Rightarrow> bool" where
  "sigs_match ok sigs keys \<longleftrightarrow> (\<exists>ks. subseq ks keys \<and> list_all2 ok sigs ks)"

lemma sigs_match_length: "sigs_match ok sigs keys \<Longrightarrow> length sigs \<le> length keys"
  unfolding sigs_match_def by (metis list_all2_lengthD list_emb_length)

lemma sigs_match_first:
  "sigs_match ok (s # ss) keys \<longleftrightarrow> (\<exists>k ks. ok s k \<and> list_all2 ok ss ks \<and> subseq (k # ks) keys)"
  by (auto simp: sigs_match_def list_all2_Cons1)

lemma sigs_match_Cons:
  "sigs_match ok (s # ss) (k # ks) \<longleftrightarrow> (if ok s k then sigs_match ok ss ks else sigs_match ok (s # ss) ks)"
proof (cases "ok s k")
  case True
  have "sigs_match ok ss ks" if m: "sigs_match ok (s # ss) (k # ks)"
  proof -
    obtain k' r where r: "list_all2 ok ss r" "subseq (k' # r) (k # ks)" using m unfolding sigs_match_first by blast
    then have "subseq r ks \<or> subseq (k' # r) ks" by (cases "k' = k") simp_all
    then have "subseq r ks" by (auto dest: subseq_Cons')
    then show ?thesis using r by (auto simp: sigs_match_def)
  qed
  moreover have "sigs_match ok (s # ss) (k # ks)" if m: "sigs_match ok ss ks"
  proof -
    obtain r where "subseq r ks" "list_all2 ok ss r" using m by (auto simp: sigs_match_def)
    then show ?thesis using True unfolding sigs_match_first by (intro exI [of _ k] exI [of _ r]) simp
  qed
  ultimately show ?thesis using True by auto
next
  case False
  then have "ok s k' \<Longrightarrow> subseq (k' # r) (k # ks) = subseq (k' # r) ks" for k' r
    by (cases "k' = k") simp_all
  then have "sigs_match ok (s # ss) (k # ks) = sigs_match ok (s # ss) ks" unfolding sigs_match_first by blast
  then show ?thesis using False by simp
qed

text \<open>
  C16: the loop of \<open>OP_CHECKMULTISIG\<close> succeeds exactly when the signatures match, in order, some
  subsequence of the public keys.
\<close>

theorem multisig_loop_iff: "multisig_loop ok sigs keys \<longleftrightarrow> sigs_match ok sigs keys"
proof (induction ok sigs keys rule: multisig_loop.induct)
  case (1 ok keys)
  then show ?case by (auto simp: sigs_match_def)
next
  case (2 ok s ss)
  then show ?case by (simp add: sigs_match_first)
next
  case (3 ok s ss k ks)
  let ?ss = "if ok s k then ss else s # ss"
  have "sigs_match ok (s # ss) (k # ks) = sigs_match ok ?ss ks" by (simp add: sigs_match_Cons)
  moreover have "length ks < length ?ss \<Longrightarrow> \<not> sigs_match ok ?ss ks" using sigs_match_length [of ok ?ss ks] by auto
  moreover have "\<not> length ks < length ?ss \<Longrightarrow> multisig_loop ok ?ss ks = sigs_match ok ?ss ks" using 3 by simp
  moreover have "multisig_loop ok (s # ss) (k # ks) = (if length ks < length ?ss then False else multisig_loop ok ?ss ks)"
    by (simp only: multisig_loop.simps Let_def)
  ultimately show ?case by presburger
qed

section \<open>Instances\<close>

theorem VerifyScript_p2sh_witness:
  "VerifyScript sample_lib (pushes [[0x51]]) (p2sh (Hash160 (s_hash sample_lib) [0x51])) sample_tx 0 1"
proof -
  have "EvalScript sample_lib (CheckSig sample_lib sample_tx 0 1) [] [0x51] = Some [[1]]" by code_simp
  moreover have "length (pushes [[0x51]]) = 2" by code_simp
  ultimately show ?thesis
    using VerifyScript_p2sh [of "[]" "[0x51]" sample_lib "Hash160 (s_hash sample_lib) [0x51]" sample_tx 0 1] by simp
qed

end
