(* ===== verification/Standard.thy ===== *)
theory Standard
  imports ScriptVerify "HOL-Library.List_Lexorder"
begin

text \<open>
  Recognising, signing and combining standard scripts (\<open>script.cpp\<close>): \<open>Solver\<close> matches a script
  against the templates, \<open>SignSignature\<close> fills in an input script from a key store, and
  \<open>CombineSignatures\<close> merges partially signed inputs.
\<close>

datatype txnouttype = TX_NONSTANDARD | TX_PUBKEY | TX_PUBKEYHASH | TX_SCRIPTHASH | TX_MULTISIG | TX_NULL_DATA

definition ops :: "nat list \<Rightarrow> byte list" where
  "ops = map word_of_nat"

text \<open>The templates in the order in which the \<open>multimap\<close> is scanned.\<close>

definition mTemplates :: "(txnouttype \<times> byte list) list" where
  "mTemplates =
     [(TX_PUBKEY, ops [OP_PUBKEY, OP_CHECKSIG]),
      (TX_PUBKEYHASH, ops [OP_DUP, OP_HASH160, OP_PUBKEYHASH, OP_EQUALVERIFY, OP_CHECKSIG]),
      (TX_MULTISIG, ops [OP_SMALLINTEGER, OP_PUBKEYS, OP_SMALLINTEGER, OP_CHECKMULTISIG]),
      (TX_NULL_DATA, ops [OP_RETURN]),
      (TX_NULL_DATA, ops [OP_RETURN, OP_SMALLDATA]),
      (TX_NULL_DATA, ops [OP_RETURN, OP_SMALLDATA, OP_RETURN, OP_SMALLDATA])]"

text \<open>
  The inner loop for \<open>OP_PUBKEYS\<close>.  When \<open>GetOp\<close> fails it leaves \<open>OP_INVALIDOPCODE\<close> and an empty
  operand, which no template accepts next.
\<close>

function take_pubkeys :: "nat \<Rightarrow> valtype \<Rightarrow> byte list \<Rightarrow> valtype list \<Rightarrow> nat \<times> valtype \<times> byte list \<times> valtype list" where
  "take_pubkeys opcode1 vch1 pc1 vSolutions =
     (if length vch1 \<ge> 33 \<and> length vch1 \<le> 120 then
        (case GetOp pc1 of
           None \<Rightarrow> (OP_INVALIDOPCODE, [], [], vSolutions @ [vch1])
         | Some (opcode1', vch1', pc1') \<Rightarrow> take_pubkeys opcode1' vch1' pc1' (vSolutions @ [vch1]))
      else (opcode1, vch1, pc1, vSolutions))"
  by pat_completeness auto
termination
  by (relation "measure (\<lambda>(a, b, pc, c). length pc)") (auto dest: GetOp_length)

declare take_pubkeys.simps [simp del]

definition match_op :: "nat \<Rightarrow> valtype \<Rightarrow> nat \<Rightarrow> valtype \<Rightarrow> valtype list \<Rightarrow> valtype list option" where
  "match_op opcode1 vch1 opcode2 vch2 vSolutions =
     (if opcode2 = OP_PUBKEY then
        (if length vch1 < 33 \<or> length vch1 > 120 then None else Some (vSolutions @ [vch1]))
      else if opcode2 = OP_PUBKEYHASH then
        (if length vch1 \<noteq> 20 then None else Some (vSolutions @ [vch1]))
      else if opcode2 = OP_SMALLINTEGER then
        (if opcode1 = OP_0 \<or> (opcode1 \<ge> OP_1 \<and> opcode1 \<le> OP_16)
         then Some (vSolutions @ [[word_of_nat (the (DecodeOP_N opcode1))]]) else None)
      else if opcode2 = OP_SMALLDATA then
        (if length vch1 > MAX_OP_RETURN_RELAY then None else Some vSolutions)
      else if opcode1 \<noteq> opcode2 \<or> vch1 \<noteq> vch2 then None
      else Some vSolutions)"

lemma take_pubkeys_length:
  "take_pubkeys o1 v1 pc sols = (o1', v1', pc', sols') \<Longrightarrow> length pc' \<le> length pc"
proof (induction "length pc" arbitrary: o1 v1 pc sols rule: less_induct)
  case less
  show ?case
  proof (cases "33 \<le> length v1 \<and> length v1 \<le> 120 \<and> GetOp pc \<noteq> None")
    case True
    then obtain o2 v2 pc2 where g: "GetOp pc = Some (o2, v2, pc2)" by auto
    then have "take_pubkeys o2 v2 pc2 (sols @ [v1]) = (o1', v1', pc', sols')"
      using less.prems True by (subst (asm) take_pubkeys.simps) simp
    from less.hyps [OF GetOp_length [OF g] this] show ?thesis using GetOp_length [OF g] by simp
  next
    case False
    then show ?thesis using less.prems by (subst (asm) take_pubkeys.simps) (auto split: if_splits option.splits)
  qed
qed

function match_template :: "byte list \<Rightarrow> byte list \<Rightarrow> valtype list \<Rightarrow> valtype list option" where
  "match_template pc1 pc2 vSolutions =
     (if pc1 = [] \<and> pc2 = [] then Some vSolutions
      else case GetOp pc1 of None \<Rightarrow> None
      | Some (opcode1, vch1, pc1') \<Rightarrow>
         (case GetOp pc2 of None \<Rightarrow> None
          | Some (opcode2, vch2, pc2') \<Rightarrow>
             if opcode2 = OP_PUBKEYS then
               (case take_pubkeys opcode1 vch1 pc1' vSolutions of (opcode1a, vch1a, pc1a, sols) \<Rightarrow>
                (case GetOp pc2' of None \<Rightarrow> None
                 | Some (opcode2a, vch2a, pc2a) \<Rightarrow>
                    (case match_op opcode1a vch1a opcode2a vch2a sols of None \<Rightarrow> None
                     | Some sols' \<Rightarrow> match_template pc1a pc2a sols')))
             else
               (case match_op opcode1 vch1 opcode2 vch2 vSolutions of None \<Rightarrow> None
                | Some sols' \<Rightarrow> match_template pc1' pc2' sols')))"
  by pat_completeness auto
termination
proof (relation "measure (\<lambda>(pc1, pc2, s). length pc1)", goal_cases)
  case (2 pc1 pc2 vSolutions x2 opcode1 y vch1 pc1' x2a opcode2 ya vch2 pc2' opcode1a yb vch1a yc pc1a sols x2b opcode2a yd vch2a pc2a sols')
  then show ?case using take_pubkeys_length [of opcode1 vch1 pc1' vSolutions] GetOp_length [of pc1]
    by (metis (no_types, lifting) case_prod_conv in_measure order_le_less_trans)
qed (auto dest: GetOp_length)

declare match_template.simps [simp del]

text \<open>The scan: the first template that matches decides.  The result is what the references hold.\<close>

fun Solver_scan :: "(txnouttype \<times> byte list) list \<Rightarrow> byte list \<Rightarrow> bool \<times> txnouttype \<times> valtype list" where
  "Solver_scan [] script1 = (False, TX_NONSTANDARD, [])"
| "Solver_scan ((t, script2) # r) script1 =
     (case match_template script1 script2 [] of
        None \<Rightarrow> Solver_scan r script1
      | Some sols \<Rightarrow>
          if t = TX_MULTISIG then
            (let m = unat (hd (hd sols)); n = unat (hd (last sols))
             in (\<not> (m < 1 \<or> n < 1 \<or> m > n \<or> length sols - 2 \<noteq> n), t, sols))
          else (True, t, sols))"

definition Solver :: "byte list \<Rightarrow> bool \<times> txnouttype \<times> valtype list" where
  "Solver spk =
     (if IsPayToScriptHash spk then (True, TX_SCRIPTHASH, [take 20 (drop 2 spk)])
      else Solver_scan mTemplates spk)"

definition ScriptSigArgsExpected :: "txnouttype \<Rightarrow> valtype list \<Rightarrow> int" where
  "ScriptSigArgsExpected t vSolutions = (case t of
      TX_NONSTANDARD \<Rightarrow> -1
    | TX_NULL_DATA \<Rightarrow> -1
    | TX_PUBKEY \<Rightarrow> 1
    | TX_PUBKEYHASH \<Rightarrow> 2
    | TX_MULTISIG \<Rightarrow>
        if length vSolutions < 1 \<or> length (vSolutions ! 0) < 1 then -1 else uint (vSolutions ! 0 ! 0) + 1
    | TX_SCRIPTHASH \<Rightarrow> 1)"

definition IsStandard_script :: "byte list \<Rightarrow> bool \<times> txnouttype" where
  "IsStandard_script spk =
     (case Solver spk of (ok, whichType, vSolutions) \<Rightarrow>
        if \<not> ok then (False, whichType)
        else if whichType = TX_MULTISIG then
          (let m = unat (hd (hd vSolutions)); n = unat (hd (last vSolutions)) in
           if n < 1 \<or> n > 3 then (False, whichType)
           else if m < 1 \<or> m > n then (False, whichType)
           else (True, whichType))
        else (whichType \<noteq> TX_NONSTANDARD, whichType))"

text \<open>\<open>CTransaction::IsStandard\<close>; the output loop carries \<open>nDataOut\<close> and \<open>nTxnOut\<close>.\<close>

fun IsStandard_outs :: "bool \<Rightarrow> CTxOut list \<Rightarrow> nat \<Rightarrow> nat \<Rightarrow> (nat \<times> nat) option" where
  "IsStandard_outs fEnforceCanonical [] nDataOut nTxnOut = Some (nDataOut, nTxnOut)"
| "IsStandard_outs fEnforceCanonical (txout # r) nDataOut nTxnOut =
     (case IsStandard_script (scriptPubKey txout) of (ok, whichType) \<Rightarrow>
        if \<not> ok then None
        else if whichType \<noteq> TX_NULL_DATA \<and> nValue txout = 0 then None
        else if fEnforceCanonical \<and> \<not> HasCanonicalPushes (scriptPubKey txout) then None
        else if whichType = TX_NULL_DATA then IsStandard_outs fEnforceCanonical r (Suc nDataOut) nTxnOut
        else IsStandard_outs fEnforceCanonical r nDataOut (Suc nTxnOut))"

definition IsStandard :: "bool \<Rightarrow> CTransaction \<Rightarrow> bool" where
  "IsStandard fEnforceCanonical tx =
     (if sint (tx_nVersion tx) > TX_CURRENT_VERSION then False
      else if length (strTxComment tx) > MAX_TX_COMMENT_LEN then False
      else if list_ex (\<lambda>txin. length (scriptSig txin) > 500 \<or> \<not> IsPushOnly (scriptSig txin)
                         \<or> (fEnforceCanonical \<and> \<not> HasCanonicalPushes (scriptSig txin))) (vin tx) then False
      else case IsStandard_outs fEnforceCanonical (vout tx) 0 0 of None \<Rightarrow> False
           | Some (nDataOut, nTxnOut) \<Rightarrow> \<not> nDataOut > nTxnOut)"

section \<open>Destinations\<close>

text \<open>\<open>CPubKey::IsValid\<close> looks at the length only.\<close>

definition ExtractDestination :: "hash_lib \<Rightarrow> byte list \<Rightarrow> CTxDestination option" where
  "ExtractDestination H script =
     (case Solver script of (ok, whichType, vSolutions) \<Rightarrow>
        if \<not> ok then None
        else if whichType = TX_PUBKEY then
          (if length (vSolutions ! 0) = 33 \<or> length (vSolutions ! 0) = 65 then Some (CKeyID (Hash160 H (vSolutions ! 0))) else None)
        else if whichType = TX_PUBKEYHASH then Some (CKeyID (word_of_le (vSolutions ! 0)))
        else if whichType = TX_SCRIPTHASH then Some (CScriptID (word_of_le (vSolutions ! 0)))
        else None)"

definition ExtractDestinations :: "hash_lib \<Rightarrow> byte list \<Rightarrow> (txnouttype \<times> CTxDestination list \<times> nat) option" where
  "ExtractDestinations H script =
     (case Solver script of (ok, typeRet, vSolutions) \<Rightarrow>
        if \<not> ok then None
        else if typeRet = TX_NULL_DATA then None
        else if typeRet = TX_MULTISIG then
          Some (typeRet, map (\<lambda>k. CKeyID (Hash160 H k)) (butlast (tl vSolutions)), unat (hd (hd vSolutions)))
        else (case ExtractDestination H script of None \<Rightarrow> None | Some address \<Rightarrow> Some (typeRet, [address], 1)))"



section \<open>Signing\<close>

text \<open>
  The interface \<open>CKeyStore\<close>; \<open>GetKey\<close> yields a key object, whose \<open>Sign\<close> is OpenSSL's and a parameter
  (\<open>None\<close> where it fails).
\<close>

record 'key CKeyStore =
  GetKey :: "uint160 \<Rightarrow> 'key option"
  HaveKey :: "uint160 \<Rightarrow> bool"
  GetPubKey :: "uint160 \<Rightarrow> valtype"
  GetCScript :: "uint160 \<Rightarrow> byte list option"

type_synonym 'key signer = "'key \<Rightarrow> uint256 \<Rightarrow> valtype option"

definition Sign1 :: "'key signer \<Rightarrow> uint160 \<Rightarrow> 'key CKeyStore \<Rightarrow> uint256 \<Rightarrow> i32 \<Rightarrow> byte list \<Rightarrow> bool \<times> byte list" where
  "Sign1 sign address keystore hash nHashType scriptSigRet =
     (case GetKey keystore address of None \<Rightarrow> (False, scriptSigRet)
      | Some key \<Rightarrow>
         (case sign key hash of None \<Rightarrow> (False, scriptSigRet)
          | Some vchSig \<Rightarrow> (True, push_data (vchSig @ [ucast nHashType]) scriptSigRet)))"

fun SignN_loop :: "'key signer \<Rightarrow> hash_lib \<Rightarrow> valtype list \<Rightarrow> 'key CKeyStore \<Rightarrow> uint256 \<Rightarrow> i32 \<Rightarrow> nat \<Rightarrow> nat \<Rightarrow> byte list \<Rightarrow> nat \<times> byte list" where
  "SignN_loop sign H [] keystore hash nHashType nRequired nSigned scriptSigRet = (nSigned, scriptSigRet)"
| "SignN_loop sign H (pubkey # r) keystore hash nHashType nRequired nSigned scriptSigRet =
     (if nSigned < nRequired then
        (case Sign1 sign (Hash160 H pubkey) keystore hash nHashType scriptSigRet of (ok, s) \<Rightarrow>
           SignN_loop sign H r keystore hash nHashType nRequired (if ok then Suc nSigned else nSigned) s)
      else (nSigned, scriptSigRet))"

definition SignN :: "'key signer \<Rightarrow> hash_lib \<Rightarrow> valtype list \<Rightarrow> 'key CKeyStore \<Rightarrow> uint256 \<Rightarrow> i32 \<Rightarrow> byte list \<Rightarrow> bool \<times> byte list" where
  "SignN sign H multisigdata keystore hash nHashType scriptSigRet =
     (let nRequired = unat (hd (hd multisigdata)) in
      case SignN_loop sign H (butlast (tl multisigdata)) keystore hash nHashType nRequired 0 scriptSigRet of
        (nSigned, s) \<Rightarrow> (nSigned = nRequired, s))"

definition Solver_sign ::
  "'key signer \<Rightarrow> hash_lib \<Rightarrow> 'key CKeyStore \<Rightarrow> byte list \<Rightarrow> uint256 \<Rightarrow> i32 \<Rightarrow> bool \<times> byte list \<times> txnouttype" where
  "Solver_sign sign H keystore spk hash nHashType =
     (case Solver spk of (ok, whichType, vSolutions) \<Rightarrow>
        if \<not> ok then (False, [], whichType) else
        (case whichType of
           TX_NONSTANDARD \<Rightarrow> (False, [], whichType)
         | TX_NULL_DATA \<Rightarrow> (False, [], whichType)
         | TX_PUBKEY \<Rightarrow>
             (case Sign1 sign (Hash160 H (vSolutions ! 0)) keystore hash nHashType [] of (b, s) \<Rightarrow> (b, s, whichType))
         | TX_PUBKEYHASH \<Rightarrow>
             (let keyID = word_of_le (vSolutions ! 0) in
              case Sign1 sign keyID keystore hash nHashType [] of (b, s) \<Rightarrow>
                if \<not> b then (False, s, whichType)
                else (True, push_data (GetPubKey keystore keyID) s, whichType))
         | TX_SCRIPTHASH \<Rightarrow>
             (case GetCScript keystore (word_of_le (vSolutions ! 0)) of
                None \<Rightarrow> (False, [], whichType) | Some s \<Rightarrow> (True, s, whichType))
         | TX_MULTISIG \<Rightarrow>
             (case SignN sign H vSolutions keystore hash nHashType [word_of_nat OP_0] of (b, s) \<Rightarrow> (b, s, whichType))))"

definition set_scriptSig :: "CTransaction \<Rightarrow> nat \<Rightarrow> byte list \<Rightarrow> CTransaction" where
  "set_scriptSig tx nIn s = tx\<lparr> vin := (vin tx)[nIn := (vin tx ! nIn)\<lparr> scriptSig := s \<rparr>] \<rparr>"

text \<open>\<open>SignSignature\<close>; \<open>None\<close> is the failed assertion.\<close>

definition SignSignature ::
  "script_lib \<Rightarrow> 'key signer \<Rightarrow> 'key CKeyStore \<Rightarrow> byte list \<Rightarrow> CTransaction \<Rightarrow> nat \<Rightarrow> i32 \<Rightarrow> (bool \<times> CTransaction) option" where
  "SignSignature E sign keystore fromPubKey txTo nIn nHashType =
     (if nIn \<ge> length (vin txTo) then None else Some
      (let H = s_hash E;
           hash = SignatureHash H fromPubKey txTo nIn nHashType
       in case Solver_sign sign H keystore fromPubKey hash nHashType of (ok, s, whichType) \<Rightarrow>
          let tx1 = set_scriptSig txTo nIn s in
          if \<not> ok then (False, tx1)
          else if whichType = TX_SCRIPTHASH then
            (let subscript = s;
                 hash2 = SignatureHash H subscript tx1 nIn nHashType
             in case Solver_sign sign H keystore subscript hash2 nHashType of (ok2, s2, subType) \<Rightarrow>
                let fSolved = ok2 \<and> subType \<noteq> TX_SCRIPTHASH;
                    sig = push_data subscript s2;
                    tx2 = set_scriptSig tx1 nIn sig
                in if \<not> fSolved then (False, tx2) else (VerifyScript E sig fromPubKey tx2 nIn 0, tx2))
          else (VerifyScript E s fromPubKey tx1 nIn 0, tx1)))"

definition HaveKeys :: "hash_lib \<Rightarrow> valtype list \<Rightarrow> 'key CKeyStore \<Rightarrow> nat" where
  "HaveKeys H pubkeys keystore = length (filter (\<lambda>pubkey. HaveKey keystore (Hash160 H pubkey)) pubkeys)"

text \<open>\<open>IsMine\<close> recurs into redemption scripts; nothing in the code bounds the depth.\<close>

partial_function (option) IsMine :: "hash_lib \<Rightarrow> 'key CKeyStore \<Rightarrow> byte list \<Rightarrow> bool option" where
  "IsMine H keystore spk =
     (case Solver spk of (ok, whichType, vSolutions) \<Rightarrow>
        if \<not> ok then Some False
        else if whichType = TX_PUBKEY then Some (HaveKey keystore (Hash160 H (vSolutions ! 0)))
        else if whichType = TX_PUBKEYHASH then Some (HaveKey keystore (word_of_le (vSolutions ! 0)))
        else if whichType = TX_SCRIPTHASH then
          (case GetCScript keystore (word_of_le (vSolutions ! 0)) of
             None \<Rightarrow> Some False | Some subscript \<Rightarrow> IsMine H keystore subscript)
        else if whichType = TX_MULTISIG then
          (let keys = butlast (tl vSolutions) in Some (HaveKeys H keys keystore = length keys))
        else Some False)"

section \<open>Combining signatures\<close>

definition PushAll :: "valtype list \<Rightarrow> byte list" where
  "PushAll values = fold push_data values []"

text \<open>Each signature, in the order of the set, goes to the first key without one that it satisfies.\<close>

fun assign_sig :: "(valtype \<Rightarrow> valtype \<Rightarrow> bool) \<Rightarrow> valtype \<Rightarrow> valtype list \<Rightarrow> (valtype \<rightharpoonup> valtype) \<Rightarrow> (valtype \<rightharpoonup> valtype)" where
  "assign_sig ok sig [] sigs = sigs"
| "assign_sig ok sig (pubkey # r) sigs =
     (if sigs pubkey \<noteq> None then assign_sig ok sig r sigs
      else if ok sig pubkey then sigs(pubkey \<mapsto> sig)
      else assign_sig ok sig r sigs)"

fun merge_sigs :: "(valtype \<rightharpoonup> valtype) \<Rightarrow> valtype list \<Rightarrow> nat \<Rightarrow> nat \<Rightarrow> byte list \<Rightarrow> byte list" where
  "merge_sigs sigs [] nSigsHave nSigsRequired result =
     result @ replicate (nSigsRequired - nSigsHave) (word_of_nat OP_0)"
| "merge_sigs sigs (pubkey # r) nSigsHave nSigsRequired result =
     (if nSigsHave < nSigsRequired then
        (case sigs pubkey of None \<Rightarrow> merge_sigs sigs r nSigsHave nSigsRequired result
         | Some sig \<Rightarrow> merge_sigs sigs r (Suc nSigsHave) nSigsRequired (push_data sig result))
      else merge_sigs sigs [] nSigsHave nSigsRequired result)"

definition CombineMultisig ::
  "script_lib \<Rightarrow> byte list \<Rightarrow> CTransaction \<Rightarrow> nat \<Rightarrow> valtype list \<Rightarrow> valtype list \<Rightarrow> valtype list \<Rightarrow> byte list" where
  "CombineMultisig E spk txTo nIn vSolutions sigs1 sigs2 =
     (let allsigs = remdups (sort (filter (\<lambda>v. v \<noteq> []) (sigs1 @ sigs2)));
          nSigsRequired = unat (hd (hd vSolutions));
          pubkeys = butlast (tl vSolutions);
          sigs = fold (\<lambda>sig. assign_sig (\<lambda>s k. CheckSig E txTo nIn 0 s k spk) sig pubkeys) allsigs Map.empty
      in merge_sigs sigs pubkeys 0 nSigsRequired [word_of_nat OP_0])"

text \<open>The stacks are given with their bottom first, as the vectors of the code.\<close>

function CombineSignatures ::
  "script_lib \<Rightarrow> byte list \<Rightarrow> CTransaction \<Rightarrow> nat \<Rightarrow> txnouttype \<Rightarrow> valtype list \<Rightarrow> valtype list \<Rightarrow> valtype list \<Rightarrow> byte list" where
  "CombineSignatures E spk txTo nIn txType vSolutions sigs1 sigs2 =
     (case txType of
        TX_NONSTANDARD \<Rightarrow> if length sigs1 \<ge> length sigs2 then PushAll sigs1 else PushAll sigs2
      | TX_NULL_DATA \<Rightarrow> if length sigs1 \<ge> length sigs2 then PushAll sigs1 else PushAll sigs2
      | TX_PUBKEY \<Rightarrow> if sigs1 = [] \<or> sigs1 ! 0 = [] then PushAll sigs2 else PushAll sigs1
      | TX_PUBKEYHASH \<Rightarrow> if sigs1 = [] \<or> sigs1 ! 0 = [] then PushAll sigs2 else PushAll sigs1
      | TX_SCRIPTHASH \<Rightarrow>
          if sigs1 = [] \<or> last sigs1 = [] then PushAll sigs2
          else if sigs2 = [] \<or> last sigs2 = [] then PushAll sigs1
          else
            (let sub = last sigs1 in
             case Solver sub of (ok2, txType2, vSolutions2) \<Rightarrow>
               push_data sub (CombineSignatures E sub txTo nIn txType2 vSolutions2 (butlast sigs1) (butlast sigs2)))
      | TX_MULTISIG \<Rightarrow> CombineMultisig E spk txTo nIn vSolutions sigs1 sigs2)"
  by pat_completeness auto
termination
  by (relation "measure (\<lambda>(E, p, t, n, ty, v, s1, s2). length s1)") auto

declare CombineSignatures.simps [simp del]


section \<open>The templates recognise the scripts that are built for them\<close>

lemma match_Nil [simp]: "match_template [] [] sols = Some sols"
  by (subst match_template.simps) simp

lemma match_step:
  assumes "GetOp pc1 = Some (o1, v1, p1)" "GetOp pc2 = Some (o2, v2, p2)" "o2 \<noteq> OP_PUBKEYS"
  shows "match_template pc1 pc2 sols =
    (case match_op o1 v1 o2 v2 sols of None \<Rightarrow> None | Some sols' \<Rightarrow> match_template p1 p2 sols')"
  using assms by (subst match_template.simps) (auto simp: GetOp_def)

lemma match_pubkeys:
  assumes "GetOp pc1 = Some (o1, v1, p1)" "GetOp pc2 = Some (OP_PUBKEYS, v2, p2)"
    "take_pubkeys o1 v1 p1 sols = (o1a, v1a, p1a, solsa)" "GetOp p2 = Some (o2a, v2a, p2a)"
  shows "match_template pc1 pc2 sols =
    (case match_op o1a v1a o2a v2a solsa of None \<Rightarrow> None | Some sols' \<Rightarrow> match_template p1a p2a sols')"
  using assms by (subst match_template.simps) (auto simp: GetOp_def)

lemma GetOp_high: "OP_PUSHDATA4 < unat c \<Longrightarrow> GetOp (c # r) = Some (unat c, [], r)"
  by (simp add: GetOp_def)

lemma not_p2sh_p2pkh: "\<not> IsPayToScriptHash (p2pkh h)"
  by (simp add: IsPayToScriptHash_def p2pkh_bytes)

lemma Solver_p2pkh: "Solver (p2pkh h) = (True, TX_PUBKEYHASH, [word_to_le h])"
proof -
  have "match_template (p2pkh h) (ops [OP_PUBKEY, OP_CHECKSIG]) [] = None"
    by (simp add: p2pkh_bytes ops_def match_step [OF GetOp_high GetOp_high] match_op_def)
  moreover have "match_template (p2pkh h) (ops [OP_DUP, OP_HASH160, OP_PUBKEYHASH, OP_EQUALVERIFY, OP_CHECKSIG]) [] = Some [word_to_le h]"
    by (simp add: p2pkh_bytes ops_def match_step [OF GetOp_high GetOp_high] match_step [OF GetOp_hash GetOp_high] match_op_def)
  ultimately show ?thesis by (simp add: Solver_def not_p2sh_p2pkh mTemplates_def)
qed

lemma Solver_p2sh: "Solver (p2sh h) = (True, TX_SCRIPTHASH, [word_to_le h])"
proof -
  have "IsPayToScriptHash (p2sh h)" unfolding p2sh_def IsPayToScriptHash_iff by blast
  moreover have "take 20 (drop 2 (p2sh h)) = word_to_le h" by (simp add: p2sh_bytes)
  ultimately show ?thesis by (simp add: Solver_def)
qed

lemma word_of_le_160: "word_of_le (word_to_le (h :: uint160)) = h"
  by (rule word_of_le_to_le) simp

text \<open>\<open>ExtractDestination\<close> inverts \<open>SetDestination\<close> on the destinations that have a script.\<close>

text \<open>
  the destination put into a script by \<open>SetDestination\<close> is the one \<open>ExtractDestination\<close>
  finds in it.
\<close>

theorem ExtractDestination_SetDestination:
  "fst (SetDestination d) \<Longrightarrow> ExtractDestination H (snd (SetDestination d)) = Some d"
  using Solver_p2pkh Solver_p2sh
  by (cases d) (auto simp: ExtractDestination_def p2pkh_def p2sh_def word_of_le_160, simp_all add: SetDestination_def)

lemma GetOp_small: "1 \<le> n \<Longrightarrow> n \<le> 16 \<Longrightarrow> GetOp (word_of_nat (80 + n) # r) = Some (80 + n, [], r)"
  by (rule GetOp_opcode) auto

text \<open>The keys of a multisignature script are collected in order.\<close>

lemma take_pubkeys_pushes:
  assumes "list_all (\<lambda>k. 33 \<le> length k \<and> length k \<le> 120) keys" "33 \<le> length v" "length v \<le> 120"
    "GetOp r = Some (opc, [], r')"
  shows "take_pubkeys o1 v (pushes keys @ r) sols = (opc, [], r', sols @ v # keys)"
  using assms
proof (induction keys arbitrary: o1 v sols)
  case Nil
  then show ?case by (subst take_pubkeys.simps, simp add: pushes_def) (subst take_pubkeys.simps, simp)
next
  case (Cons k keys)
  have "GetOp (pushes (k # keys) @ r) = Some (push_op k, k, pushes keys @ r)"
    using Cons.prems by (simp add: pushes_def GetOp_push_data)
  then show ?case using Cons by (subst take_pubkeys.simps) simp
qed

lemma fold_push_data: "fold push_data keys s = s @ pushes keys"
proof (induction keys arbitrary: s)
  case (Cons k keys)
  have "fold push_data (k # keys) s = push_data k s @ pushes keys" using Cons by simp
  also have "push_data k s = s @ push_data k []" by (rule push_data_append)
  finally show ?case by (simp add: pushes_def)
qed (simp add: pushes_def)

text \<open>
  \<open>Solver\<close> recognises the script \<open>SetMultisig\<close> builds from one to sixteen public keys, and
  returns the required number, the keys and their number.
\<close>

theorem Solver_multisig:
  assumes "1 \<le> m" "m \<le> length keys" "length keys \<le> 16"
    "list_all (\<lambda>k. 33 \<le> length k \<and> length k \<le> 120) keys" "SetMultisig m keys = Some s"
  shows "Solver s = (True, TX_MULTISIG, [word_of_nat m] # keys @ [[word_of_nat (length keys)]])"
proof -
  obtain k ks where keys: "keys = k # ks" using assms(1,2) by (cases keys) auto
  let ?n = "length keys"
  define tail where "tail = [word_of_nat (80 + ?n), 0xae :: byte]"
  have pk: "GetOp (0xfb # r) = Some (OP_PUBKEYS, [], r)" for r by (simp add: GetOp_def)
  have s: "s = word_of_nat (80 + m) # push_data k [] @ pushes ks @ tail"
    using assms(1,2,3,5) keys push_data_append [of k "[word_of_nat (80 + m)]"]
    by (auto simp: tail_def SetMultisig_def EncodeOP_N_def push_opcode_def fold_push_data pushes_def)
  have m: "GetOp s = Some (80 + m, [], push_data k [] @ pushes ks @ tail)"
    unfolding s using assms by (intro GetOp_small) auto
  have n: "GetOp tail = Some (80 + ?n, [], [0xae])" unfolding tail_def using assms by (intro GetOp_small) auto
  have k: "GetOp (push_data k [] @ pushes ks @ tail) = Some (push_op k, k, pushes ks @ tail)"
    using assms(4) keys by (intro GetOp_push_data) simp
  have tk: "take_pubkeys (push_op k) k (pushes ks @ tail) sols = (80 + ?n, [], [0xae], sols @ keys)" for sols
    using assms(4) take_pubkeys_pushes [OF _ _ _ n, of ks k] keys by simp
  have "unat (s ! 0) = 80 + m" using assms(2,3) by (simp add: s unat_byte_of_nat del: of_nat_add)
  then have "\<not> IsPayToScriptHash s" using assms(2,3) by (auto simp: IsPayToScriptHash_def)
  moreover have "match_template s (ops [OP_PUBKEY, OP_CHECKSIG]) [] = None"
    by (simp add: ops_def match_step [OF m GetOp_high] match_op_def)
  moreover have "match_template s (ops [OP_DUP, OP_HASH160, OP_PUBKEYHASH, OP_EQUALVERIFY, OP_CHECKSIG]) [] = None"
    using assms(1-3) by (simp add: ops_def match_step [OF m GetOp_high] match_op_def)
  moreover have "match_template s (ops [OP_SMALLINTEGER, OP_PUBKEYS, OP_SMALLINTEGER, OP_CHECKMULTISIG]) []
      = Some ([word_of_nat m] # keys @ [[word_of_nat ?n]])"
    using assms(1-3)
    by (simp add: ops_def match_step [OF m GetOp_high] match_pubkeys [OF k pk tk GetOp_high]
        match_step [OF GetOp_high GetOp_high] match_op_def DecodeOP_N_def)
  moreover have "keys \<noteq> []" using keys by simp
  ultimately show ?thesis using assms(1-3)
    by (simp add: Solver_def mTemplates_def Let_def unat_byte_of_nat)
qed



section \<open>Signing produces what verification accepts\<close>

text \<open>The signature hash does not depend on the input scripts that are being filled in.\<close>

lemma SignatureHash_tx_set_scriptSig:
  assumes "nIn < length (vin tx)"
  shows "SignatureHash_tx code (set_scriptSig tx nIn s) nIn ht = SignatureHash_tx code tx nIn ht"
proof -
  have "map (\<lambda>txin. txin\<lparr> scriptSig := [] \<rparr>) (vin (set_scriptSig tx nIn s)) = map (\<lambda>txin. txin\<lparr> scriptSig := [] \<rparr>) (vin tx)"
    using assms by (intro nth_equalityI) (auto simp: set_scriptSig_def nth_list_update)
  then show ?thesis using assms
    by (simp add: SignatureHash_tx_def Let_def set_scriptSig_def nth_list_update)
qed

lemma SignatureHash_set_scriptSig:
  "nIn < length (vin tx) \<Longrightarrow> SignatureHash H code (set_scriptSig tx nIn s) nIn ht = SignatureHash H code tx nIn ht"
  by (simp add: SignatureHash_def SignatureHash_tx_set_scriptSig)

lemma erase_copies_other: "take (length b) pc \<noteq> b \<Longrightarrow> erase_copies b pc n = (pc, n)"
  by (subst erase_copies.simps) auto

lemma FindAndDelete_loop_skip:
  assumes "take (length b) pc \<noteq> b" "GetOp pc = Some (opc, v, pc')"
  shows "FindAndDelete_loop b pre pc n = FindAndDelete_loop b (pre @ take (length pc - length pc') pc) pc' n"
  using assms by (subst FindAndDelete_loop.simps) (simp add: erase_copies_other)

lemma FindAndDelete_loop_end: "b \<noteq> [] \<Longrightarrow> FindAndDelete_loop b pre [] n = (pre, n)"
  by (subst FindAndDelete_loop.simps) (simp add: erase_copies_other GetOp_def)

lemma FindAndDelete_p2pkh:
  assumes "9 \<le> length sig" "length sig \<le> 73" "sig \<noteq> word_to_le h"
  shows "FindAndDelete (push_data sig []) (p2pkh h) = (p2pkh h, 0)"
proof -
  define c where "c = (word_of_nat (length sig) :: byte)"
  define b where "b = c # sig"
  have b: "push_data sig [] = b" using assms by (simp add: push_data_def b_def c_def)
  have c: "unat c = length sig" using assms(2) by (simp add: c_def unat_byte_of_nat)
  have ne: "take (length b) (x # r) \<noteq> b" if "unat x > 73" for x r
    using that c assms(2) by (auto simp: b_def)
  have ne20: "take (length b) (20 # word_to_le h @ r) \<noteq> b" for r
  proof
    assume a: "take (length b) (20 # word_to_le h @ r) = b"
    then have "c = 20" by (simp add: b_def)
    then have "length sig = 20" using c by simp
    then show False using a assms(3) by (simp add: b_def)
  qed
  show ?thesis
    unfolding b FindAndDelete_def p2pkh_bytes
    by (simp add: FindAndDelete_loop_skip [OF ne GetOp_high] FindAndDelete_loop_skip [OF ne20 GetOp_hash]
        FindAndDelete_loop_end b_def [symmetric])
qed

text \<open>
  C8: signing an input that spends a pay-to-public-key-hash output with the stored key yields a
  transaction that passes \<open>VerifyScript\<close>, so \<open>SignSignature\<close> returns true, provided the key's signature
  verifies and is canonical.
\<close>

theorem SignSignature_p2pkh:
  assumes "nIn < length (vin txTo)" "GetKey ks h = Some key"
    "sign key (SignatureHash (s_hash E) (p2pkh h) txTo nIn nHashType) = Some sig"
    "Hash160 (s_hash E) (GetPubKey ks h) = h" "IsCanonicalPubKey (GetPubKey ks h)"
    "s_verify E (GetPubKey ks h) (SignatureHash (s_hash E) (p2pkh h) txTo nIn nHashType) sig"
    "IsCanonicalSignature (sig @ [ucast nHashType])" "sig @ [ucast nHashType] \<noteq> word_to_le h"
    "ucast (ucast nHashType :: byte) = nHashType"
  shows "SignSignature E sign ks (p2pkh h) txTo nIn nHashType
    = Some (True, set_scriptSig txTo nIn (pushes [sig @ [ucast nHashType], GetPubKey ks h]))"
proof -
  let ?sig = "sig @ [ucast nHashType]" and ?pk = "GetPubKey ks h"
  let ?s = "pushes [?sig, ?pk]"
  have len: "9 \<le> length ?sig" "length ?sig \<le> 73" "length ?pk \<le> 65"
    using assms(5,7) by (auto simp: IsCanonicalSignature_def IsCanonicalPubKey_def split: if_splits)
  have "Solver_sign sign (s_hash E) ks (p2pkh h) (SignatureHash (s_hash E) (p2pkh h) txTo nIn nHashType) nHashType
      = (True, ?s, TX_PUBKEYHASH)"
    using assms(2,3) push_data_append [of ?pk "push_data ?sig []"]
    by (simp add: Solver_sign_def Solver_p2pkh word_of_le_160 Sign1_def Let_def pushes_def)
  moreover have "VerifyScript E ?s (p2pkh h) (set_scriptSig txTo nIn ?s) nIn 0"
    using assms len
    by (subst VerifyScript_p2pkh)
      (auto simp: FindAndDelete_p2pkh CheckSig_def CheckSig_split_def SignatureHash_set_scriptSig)
  ultimately show ?thesis using assms(1) by (simp add: SignSignature_def Let_def)
qed

section \<open>Instances\<close>

theorem ExtractDestination_SetDestination_witness:
  "ExtractDestination (s_hash sample_lib) (snd (SetDestination (CKeyID 5))) = Some (CKeyID 5)"
  by (rule ExtractDestination_SetDestination) (simp add: SetDestination_def)

theorem Solver_multisig_witness:
  "\<exists>s. SetMultisig 1 [replicate 33 2, replicate 33 3] = Some s
     \<and> Solver s = (True, TX_MULTISIG, [[1], replicate 33 2, replicate 33 3, [2]])"
proof -
  obtain s where s: "SetMultisig 1 [replicate 33 2, replicate 33 3] = Some s"
    by (auto simp: SetMultisig_def EncodeOP_N_def)
  then show ?thesis using Solver_multisig [OF _ _ _ _ s] by simp
qed

theorem SignSignature_p2pkh_witness:
  "\<exists>tx. SignSignature sample_lib (\<lambda>(k :: nat) h. Some [0x30, 6, 2, 1, 1, 2, 1, 1])
     \<lparr> GetKey = (\<lambda>_. Some 0), HaveKey = (\<lambda>_. True), GetPubKey = (\<lambda>_. 2 # replicate 32 9), GetCScript = (\<lambda>_. None) \<rparr>
     (p2pkh (Hash160 (s_hash sample_lib) (2 # replicate 32 9))) sample_tx 0 1 = Some (True, tx)"
proof -
  have "IsCanonicalSignature [0x30, 6, 2, 1, 1, 2, 1, 1, 1]" "IsCanonicalPubKey (2 # replicate 32 9)"
    by code_simp+
  moreover have "[0x30, 6, 2, 1, 1, 2, 1, 1, 1] \<noteq> word_to_le (h :: uint160)" for h
    by (rule notI, drule arg_cong [of _ _ length]) simp
  moreover have "s_verify sample_lib key h sig" for key h sig by (simp add: sample_lib_def)
  moreover have "0 < length (vin sample_tx)" by (simp add: sample_tx_def)
  ultimately show ?thesis
    using SignSignature_p2pkh [where E = sample_lib and nHashType = 1 and nIn = 0 and txTo = sample_tx
        and sign = "\<lambda>(k :: nat) h. Some [0x30, 6, 2, 1, 1, 2, 1, 1]" and sig = "[0x30, 6, 2, 1, 1, 2, 1, 1]" and key = 0
        and h = "Hash160 (s_hash sample_lib) (2 # replicate 32 9)"
        and ks = "\<lparr> GetKey = (\<lambda>_. Some 0), HaveKey = (\<lambda>_. True), GetPubKey = (\<lambda>_. 2 # replicate 32 9), GetCScript = (\<lambda>_. None) \<rparr>"]
    by simp
qed

end
