(* ===== verification/Block.thy ===== *)
theory Block
  imports Standard
begin

text \<open>
  Blocks (\<open>CBlock\<close> in \<open>main.h\<close>): the header, its serialization and hash, the two kinds of block, and
  the merkle tree over the transactions.  \<open>Hash9\<close>, the X11 hash of the header bytes, is a parameter.
\<close>

record CBlock =
  blk_nVersion :: i32
  hashPrevBlock :: uint256
  hashMerkleRoot :: uint256
  blk_nTime :: u32
  blk_nBits :: u32
  blk_nNonce :: u32
  vtx :: "CTransaction list"
  vchBlockSig :: "byte list"

abbreviation (input) LAST_POW_BLOCK :: int where "LAST_POW_BLOCK \<equiv> 4320"
abbreviation (input) LAUNCH_TIME :: int where "LAUNCH_TIME \<equiv> 1432620000"
abbreviation (input) LAST_X11_TIME :: int where "LAST_X11_TIME \<equiv> LAUNCH_TIME + 10 * 24 * 60 * 60"

definition CBlock_IsNull :: "CBlock \<Rightarrow> bool" where
  "CBlock_IsNull b \<longleftrightarrow> blk_nBits b = 0"

definition ser_header :: "CBlock \<Rightarrow> byte list" where
  "ser_header b =
     ser_word (blk_nVersion b) @ ser_word (hashPrevBlock b) @ ser_word (hashMerkleRoot b)
     @ ser_word (blk_nTime b) @ ser_word (blk_nBits b) @ ser_word (blk_nNonce b)"

text \<open>Network and disk: the header, then the transactions and the block signature.\<close>

definition ser_CBlock :: "CBlock \<Rightarrow> byte list" where
  "ser_CBlock b = ser_header b @ ser_vec ser_CTransaction (vtx b) @ ser_bytes (vchBlockSig b)"

abbreviation (input) sizeof_CTransaction :: nat where "sizeof_CTransaction \<equiv> 88"

definition unser_header :: "byte list \<Rightarrow> (CBlock \<times> byte list) option" where
  "unser_header s = do {
     (ver, s) \<leftarrow> unser_word s; (prev, s) \<leftarrow> unser_word s; (root, s) \<leftarrow> unser_word s;
     (time, s) \<leftarrow> unser_word s; (bits, s) \<leftarrow> unser_word s; (nonce, s) \<leftarrow> unser_word s;
     Some (\<lparr> blk_nVersion = ver, hashPrevBlock = prev, hashMerkleRoot = root, blk_nTime = time,
             blk_nBits = bits, blk_nNonce = nonce, vtx = [], vchBlockSig = [] \<rparr>, s) }"

definition unser_CBlock :: "byte list \<Rightarrow> (CBlock \<times> byte list) option" where
  "unser_CBlock s = do {
     (b, s) \<leftarrow> unser_header s;
     (txs, s) \<leftarrow> unser_vec sizeof_CTransaction unser_CTransaction s;
     (sig, s) \<leftarrow> unser_bytes s;
     Some (b\<lparr> vtx := txs, vchBlockSig := sig \<rparr>, s) }"

definition size_CBlock :: "CBlock \<Rightarrow> nat" where
  "size_CBlock b = 80 + size_vec size_CTransaction (vtx b) + size_string (vchBlockSig b)"

text \<open>The header alone is hashed, with X11 up to \<open>LAST_X11_TIME\<close> and with SHA256d after it.\<close>

definition CBlock_GetHash :: "hash_lib \<Rightarrow> (byte list \<Rightarrow> uint256) \<Rightarrow> CBlock \<Rightarrow> uint256" where
  "CBlock_GetHash H Hash9 b =
     (if uint (blk_nTime b) > LAST_X11_TIME then Hash H (ser_header b) else Hash9 (ser_header b))"

definition IsProofOfStake :: "CBlock \<Rightarrow> bool" where
  "IsProofOfStake b \<longleftrightarrow> length (vtx b) > 1 \<and> IsCoinStake (vtx b ! 1)"

definition IsProofOfWork :: "CBlock \<Rightarrow> bool" where
  "IsProofOfWork b \<longleftrightarrow> \<not> IsProofOfStake b"

definition GetProofOfStake :: "CBlock \<Rightarrow> COutPoint \<times> u32" where
  "GetProofOfStake b =
     (if IsProofOfStake b then (prevout (vin (vtx b ! 1) ! 0), tx_nTime (vtx b ! 1))
      else (\<lparr> op_hash = 0, op_n = -1 \<rparr>, 0))"

definition GetMaxTransactionTime :: "CBlock \<Rightarrow> int" where
  "GetMaxTransactionTime b = fold (\<lambda>tx m. max m (uint (tx_nTime tx))) (vtx b) 0"

definition Get64_low :: "uint256 \<Rightarrow> u64" where
  "Get64_low h = ucast h"

definition GetStakeEntropyBit :: "hash_lib \<Rightarrow> (byte list \<Rightarrow> uint256) \<Rightarrow> CBlock \<Rightarrow> u32" where
  "GetStakeEntropyBit H Hash9 b = ucast (Get64_low (CBlock_GetHash H Hash9 b) AND 1)"

section \<open>The merkle tree\<close>

definition hash_pair :: "hash_lib \<Rightarrow> uint256 \<Rightarrow> uint256 \<Rightarrow> uint256" where
  "hash_pair H a b = Hash2 H (word_to_le a) (word_to_le b)"

function merkle_inner :: "hash_lib \<Rightarrow> uint256 list \<Rightarrow> nat \<Rightarrow> nat \<Rightarrow> nat \<Rightarrow> uint256 list" where
  "merkle_inner H tree j nSize i =
     (if i < nSize
      then let i2 = min (i + 1) (nSize - 1)
           in merkle_inner H (tree @ [hash_pair H (tree ! (j + i)) (tree ! (j + i2))]) j nSize (i + 2)
      else tree)"
  by pat_completeness auto
termination
  by (relation "measure (\<lambda>(H, t, j, n, i). n - i)") auto

function merkle_outer :: "hash_lib \<Rightarrow> uint256 list \<Rightarrow> nat \<Rightarrow> nat \<Rightarrow> uint256 list" where
  "merkle_outer H tree j nSize =
     (if nSize > 1 then merkle_outer H (merkle_inner H tree j nSize 0) (j + nSize) ((nSize + 1) div 2) else tree)"
  by pat_completeness auto
termination
  by (relation "measure (\<lambda>(H, t, j, n). n)") auto

declare merkle_inner.simps [simp del] merkle_outer.simps [simp del]

definition vMerkleTree :: "hash_lib \<Rightarrow> CBlock \<Rightarrow> uint256 list" where
  "vMerkleTree H b = merkle_outer H (map (GetHash H) (vtx b)) 0 (length (vtx b))"

definition BuildMerkleTree :: "hash_lib \<Rightarrow> CBlock \<Rightarrow> uint256" where
  "BuildMerkleTree H b = (if vMerkleTree H b = [] then 0 else last (vMerkleTree H b))"

function branch_loop :: "uint256 list \<Rightarrow> nat \<Rightarrow> nat \<Rightarrow> nat \<Rightarrow> uint256 list" where
  "branch_loop tree j nSize nIndex =
     (if nSize > 1
      then tree ! (j + min (nIndex XOR 1) (nSize - 1))
           # branch_loop tree (j + nSize) ((nSize + 1) div 2) (drop_bit 1 nIndex)
      else [])"
  by pat_completeness auto
termination
  by (relation "measure (\<lambda>(t, j, n, i). n)") auto

declare branch_loop.simps [simp del]

text \<open>\<open>cached\<close> is the member \<open>vMerkleTree\<close> of the block, which \<open>BuildMerkleTree\<close> fills; it is not serialized.\<close>

definition GetMerkleBranch :: "hash_lib \<Rightarrow> CBlock \<Rightarrow> uint256 list \<Rightarrow> nat \<Rightarrow> uint256 list" where
  "GetMerkleBranch H b cached nIndex = branch_loop (if cached = [] then vMerkleTree H b else cached) 0 (length (vtx b)) nIndex"

fun CheckMerkleBranch_loop :: "hash_lib \<Rightarrow> uint256 \<Rightarrow> uint256 list \<Rightarrow> int \<Rightarrow> uint256" where
  "CheckMerkleBranch_loop H hash [] nIndex = hash"
| "CheckMerkleBranch_loop H hash (otherside # r) nIndex =
     CheckMerkleBranch_loop H
       (if nIndex AND 1 \<noteq> 0 then hash_pair H otherside hash else hash_pair H hash otherside) r (drop_bit 1 nIndex)"

definition CheckMerkleBranch :: "hash_lib \<Rightarrow> uint256 \<Rightarrow> uint256 list \<Rightarrow> int \<Rightarrow> uint256" where
  "CheckMerkleBranch H hash branch nIndex = (if nIndex = -1 then 0 else CheckMerkleBranch_loop H hash branch nIndex)"

section \<open>Serialization\<close>

definition ok_CBlock :: "CBlock \<Rightarrow> bool" where
  "ok_CBlock b \<longleftrightarrow> length (vtx b) \<le> MAX_SIZE \<and> list_all ok_CTransaction (vtx b) \<and> length (vchBlockSig b) \<le> MAX_SIZE"

interpretation txs: coder "ser_vec ser_CTransaction" "unser_vec sizeof_CTransaction unser_CTransaction"
    "\<lambda>v. length v \<le> MAX_SIZE \<and> list_all ok_CTransaction v"
  by (rule tx_c.vec_coder) simp_all

lemma unser_ser_CBlock: "ok_CBlock b \<Longrightarrow> unser_CBlock (ser_CBlock b @ r) = Some (b, r)"
  by (simp add: ser_CBlock_def unser_CBlock_def ser_header_def unser_header_def ok_CBlock_def coder_simps txs.unser_ser)

interpretation block_c: coder ser_CBlock unser_CBlock ok_CBlock
  by standard (rule unser_ser_CBlock)

lemma length_ser_CBlock: "length (ser_CBlock b) = size_CBlock b"
  by (simp add: ser_CBlock_def ser_header_def size_CBlock_def length_ser_vec [OF length_ser_CTransaction]
      ser_bytes_def size_string_def length_WriteCompactSize)

section \<open>The merkle tree level by level\<close>

text \<open>The reference definition: a level pairs its nodes, the last one with itself when it is alone.\<close>

fun next_level :: "hash_lib \<Rightarrow> uint256 list \<Rightarrow> uint256 list" where
  "next_level H [] = []"
| "next_level H [x] = [hash_pair H x x]"
| "next_level H (x # y # r) = hash_pair H x y # next_level H r"

lemma length_next_level: "length (next_level H xs) = (length xs + 1) div 2"
  by (induction H xs rule: next_level.induct) auto

function levels :: "hash_lib \<Rightarrow> uint256 list \<Rightarrow> uint256 list" where
  "levels H xs = (if length xs > 1 then xs @ levels H (next_level H xs) else xs)"
  by pat_completeness auto
termination
  by (relation "measure (\<lambda>(H, xs). length xs)") (auto simp: length_next_level)

function merkle_root :: "hash_lib \<Rightarrow> uint256 list \<Rightarrow> uint256" where
  "merkle_root H xs = (if length xs > 1 then merkle_root H (next_level H xs) else if xs = [] then 0 else hd xs)"
  by pat_completeness auto
termination
  by (relation "measure (\<lambda>(H, xs). length xs)") (auto simp: length_next_level)

declare levels.simps [simp del] merkle_root.simps [simp del]

lemma nth_next_level:
  "i < length (next_level H xs) \<Longrightarrow>
   next_level H xs ! i = hash_pair H (xs ! (2 * i)) (xs ! min (2 * i + 1) (length xs - 1))"
proof (induction H xs arbitrary: i rule: next_level.induct)
  case (3 H x y r)
  show ?case
  proof (cases i)
    case (Suc k)
    then have "k < length (next_level H r)" using 3(2) by simp
    moreover from this have "r \<noteq> []" by auto
    ultimately show ?thesis using Suc 3(1) [of k] by (simp add: min_def nth_Cons split: nat.splits)
  qed simp
qed auto

lemma merkle_inner_level:
  assumes "k \<le> length (next_level H lev)"
  shows "merkle_inner H (pre @ lev @ take k (next_level H lev)) (length pre) (length lev) (2 * k) = pre @ lev @ next_level H lev"
  using assms
proof (induction "length (next_level H lev) - k" arbitrary: k)
  case 0
  then have "k = length (next_level H lev)" by simp
  moreover from this have "\<not> 2 * k < length lev" by (simp add: length_next_level)
  ultimately show ?case by (subst merkle_inner.simps) simp
next
  case (Suc d)
  then have k: "k < length (next_level H lev)" by simp
  then have lt: "2 * k < length lev" by (simp add: length_next_level)
  have "(pre @ lev @ take k (next_level H lev)) @ [next_level H lev ! k] = pre @ lev @ take (Suc k) (next_level H lev)"
    using k by (simp add: take_Suc_conv_app_nth)
  moreover have "next_level H lev ! k = hash_pair H ((pre @ lev @ take k (next_level H lev)) ! (length pre + 2 * k))
      ((pre @ lev @ take k (next_level H lev)) ! (length pre + min (2 * k + 1) (length lev - 1)))"
  proof -
    have "min (2 * k + 1) (length lev - 1) < length lev" using lt by simp
    then show ?thesis using lt by (subst nth_next_level [OF k]) (simp add: nth_append)
  qed
  ultimately show ?case using lt k Suc.hyps(1) [of "Suc k"] Suc.hyps(2)
    by (subst merkle_inner.simps) (simp add: Let_def)
qed

lemma merkle_outer_levels: "merkle_outer H (pre @ lev) (length pre) (length lev) = pre @ levels H lev"
proof (induction H lev arbitrary: pre rule: levels.induct)
  case (1 H lev)
  show ?case
  proof (cases "length lev > 1")
    case True
    have "merkle_outer H (pre @ lev) (length pre) (length lev)
        = merkle_outer H ((pre @ lev) @ next_level H lev) (length (pre @ lev)) (length (next_level H lev))"
      using True merkle_inner_level [of 0 H lev pre]
      by (subst merkle_outer.simps) (simp add: length_next_level)
    also have "\<dots> = (pre @ lev) @ levels H (next_level H lev)" using 1 True by blast
    also have "\<dots> = pre @ levels H lev" using True by (subst (2) levels.simps) simp
    finally show ?thesis .
  next
    case False
    then show ?thesis by (subst merkle_outer.simps, subst levels.simps) simp
  qed
qed

lemma levels_root: "levels H xs \<noteq> [] \<longleftrightarrow> xs \<noteq> []" "xs \<noteq> [] \<Longrightarrow> last (levels H xs) = merkle_root H xs"
proof (induction H xs rule: levels.induct)
  case (1 H xs)
  have ne: "length xs > 1 \<Longrightarrow> next_level H xs \<noteq> []" using length_next_level [of H xs] by auto
  {
    case 1
    show ?case by (subst levels.simps) auto
  next
    case 2
    then show ?case using "1.IH" ne
      by (subst levels.simps, subst merkle_root.simps) (cases xs; auto)
  }
qed

lemma BuildMerkleTree_root: "BuildMerkleTree H b = merkle_root H (map (GetHash H) (vtx b))"
proof -
  have "vMerkleTree H b = levels H (map (GetHash H) (vtx b))"
    using merkle_outer_levels [of H "[]" "map (GetHash H) (vtx b)"] by (simp add: vMerkleTree_def)
  then show ?thesis
    using levels_root [where H = H and xs = "map (GetHash H) (vtx b)"]
    by (auto simp: BuildMerkleTree_def) (subst merkle_root.simps, simp)
qed



text \<open>A branch, level by level, and its verification against the root.\<close>

function level_branch :: "hash_lib \<Rightarrow> uint256 list \<Rightarrow> nat \<Rightarrow> uint256 list" where
  "level_branch H xs i =
     (if length xs > 1 then xs ! min (i XOR 1) (length xs - 1) # level_branch H (next_level H xs) (i div 2) else [])"
  by pat_completeness auto
termination
  by (relation "measure (\<lambda>(H, xs, i). length xs)") (auto simp: length_next_level)

declare level_branch.simps [simp del]

lemma branch_loop_levels:
  "branch_loop (pre @ levels H lev) (length pre) (length lev) i = level_branch H lev i"
proof (induction H lev i arbitrary: pre rule: level_branch.induct)
  case (1 H lev i)
  show ?case
  proof (cases "length lev > 1")
    case True
    have lev: "levels H lev = lev @ levels H (next_level H lev)" using True by (subst levels.simps) simp
    have "branch_loop (pre @ levels H lev) (length pre) (length lev) i
        = lev ! min (i XOR 1) (length lev - 1)
          # branch_loop ((pre @ lev) @ levels H (next_level H lev)) (length (pre @ lev)) (length (next_level H lev)) (i div 2)"
    proof -
      have "min (i XOR 1) (length lev - 1) < length lev" using True by auto
      then show ?thesis using True
        by (subst branch_loop.simps) (simp add: lev nth_append length_next_level drop_bit_Suc)
    qed
    also have "\<dots> = lev ! min (i XOR 1) (length lev - 1) # level_branch H (next_level H lev) (i div 2)"
      using 1 True by blast
    finally show ?thesis using True by (subst level_branch.simps) simp
  next
    case False
    then show ?thesis by (subst branch_loop.simps, subst level_branch.simps) simp
  qed
qed

lemma xor_1_nat: "(i :: nat) XOR Suc 0 = (if even i then Suc i else i - Suc 0)"
  using xor_one_eq [of i] by simp

lemma next_level_nth_pair:
  assumes "i < length xs" "length xs > 1"
  shows "next_level H xs ! (i div 2) =
    (if odd i then hash_pair H (xs ! min (i XOR 1) (length xs - 1)) (xs ! i)
     else hash_pair H (xs ! i) (xs ! min (i XOR 1) (length xs - 1)))"
proof -
  have "i div 2 < length (next_level H xs)" using assms(1) by (simp add: length_next_level)
  then show ?thesis
    using assms(1) by (cases "even i") (auto simp: nth_next_level xor_1_nat elim!: evenE oddE)
qed

lemma level_branch_root:
  "i < length xs \<Longrightarrow> CheckMerkleBranch_loop H (xs ! i) (level_branch H xs i) (int i) = merkle_root H xs"
proof (induction H xs i rule: level_branch.induct)
  case (1 H xs i)
  show ?case
  proof (cases "length xs > 1")
    case True
    have "i div 2 < length (next_level H xs)" using 1(2) by (simp add: length_next_level)
    moreover have "int i AND 1 \<noteq> 0 \<longleftrightarrow> odd i" by (simp add: and_one_eq mod_2_eq_odd)
    moreover have "drop_bit 1 (int i) = int (i div 2)" by (simp add: drop_bit_Suc zdiv_int)
    ultimately show ?thesis
      using 1 True next_level_nth_pair [OF 1(2) True, of H]
      by (subst level_branch.simps, subst merkle_root.simps, cases "odd i") simp_all
  next
    case False
    then obtain x where "xs = [x]" "i = 0" using 1(2) by (cases xs) auto
    then show ?thesis by (subst level_branch.simps, subst merkle_root.simps) simp
  qed
qed

text \<open>
  C18: for every transaction of a block, checking the branch returned by \<open>GetMerkleBranch\<close> from the
  hash of the transaction gives the Merkle root of the block.  The tree kept in the block is empty or was built from the
  transactions that the block has now.
\<close>

theorem merkle_branch_correct:
  assumes "i < length (vtx b)" "cached = [] \<or> cached = vMerkleTree H b"
  shows "CheckMerkleBranch H (GetHash H (vtx b ! i)) (GetMerkleBranch H b cached i) (int i) = BuildMerkleTree H b"
proof -
  have "vMerkleTree H b = levels H (map (GetHash H) (vtx b))"
    using merkle_outer_levels [of H "[]" "map (GetHash H) (vtx b)"] by (simp add: vMerkleTree_def)
  then have "GetMerkleBranch H b cached i = level_branch H (map (GetHash H) (vtx b)) i"
    using assms(2) branch_loop_levels [of "[]" H "map (GetHash H) (vtx b)" i] by (auto simp: GetMerkleBranch_def)
  then show ?thesis
    using assms(1) level_branch_root [of i "map (GetHash H) (vtx b)" H]
    by (simp add: CheckMerkleBranch_def BuildMerkleTree_root)
qed

section \<open>Properties\<close>

definition sample_block :: CBlock where
  "sample_block = \<lparr> blk_nVersion = 7, hashPrevBlock = 1, hashMerkleRoot = 2, blk_nTime = 1442210400, blk_nBits = 0x1e0fffff,
     blk_nNonce = 3, vtx = [sample_tx, sample_tx, sample_tx], vchBlockSig = [1, 2] \<rparr>"

theorem merkle_branch_correct_witness:
  "CheckMerkleBranch (s_hash sample_lib) (GetHash (s_hash sample_lib) (vtx sample_block ! 2))
     (GetMerkleBranch (s_hash sample_lib) sample_block [] 2) 2 = BuildMerkleTree (s_hash sample_lib) sample_block"
  using merkle_branch_correct [of 2 sample_block "[]" "s_hash sample_lib"] by (simp add: sample_block_def)

text \<open>
  C19: the tree built in one growing vector has the root of the recursive definition, in which every level
  hashes neighbouring pairs and an odd level pairs its last hash with itself.
\<close>

theorem BuildMerkleTree_reference: "BuildMerkleTree H b = merkle_root H (map (GetHash H) (vtx b))"
  by (rule BuildMerkleTree_root)

text \<open>
  C32: a block that the format can hold is parsed back from its serialization, and its announced size is the
  number of bytes.
\<close>

theorem CBlock_roundtrip:
  assumes "ok_CBlock b"
  shows "unser_CBlock (ser_CBlock b @ r) = Some (b, r) \<and> length (ser_CBlock b) = size_CBlock b"
  using unser_ser_CBlock [OF assms] length_ser_CBlock by simp

theorem CBlock_roundtrip_witness: "unser_CBlock (ser_CBlock sample_block @ [9]) = Some (sample_block, [9])"
proof -
  have "ok_CBlock sample_block" by code_simp
  from CBlock_roundtrip [OF this] show ?thesis by blast
qed

end
