(* ===== verification/BlockIndex.thy ===== *)
theory BlockIndex
  imports Block
begin

text \<open>
  The block index (\<open>CBlockIndex\<close>) and the functions of \<open>main.cpp\<close> that walk it: times, difficulty,
  chain trust, locators.  A \<open>CBlockIndex*\<close> that is only followed through \<open>pprev\<close> is the list of the
  entries from that block down to the genesis block; \<open>NULL\<close> is the empty list.
\<close>

record CBlockIndex =
  phashBlock :: uint256
  nFile :: u32
  nBlockPos :: u32
  nChainTrust :: uint256
  nHeight :: int
  nMint :: i64
  nMoneySupply :: i64
  nFlags :: u32
  nStakeModifier :: u64
  nStakeModifierChecksum :: u32
  prevoutStake :: COutPoint
  nStakeTime :: u32
  hashProof :: uint256
  bi_nVersion :: i32
  bi_hashMerkleRoot :: uint256
  bi_nTime :: u32
  bi_nBits :: u32
  bi_nNonce :: u32

type_synonym chain = "CBlockIndex list"

abbreviation (input) BLOCK_PROOF_OF_STAKE :: u32 where "BLOCK_PROOF_OF_STAKE \<equiv> 1"
abbreviation (input) BLOCK_STAKE_ENTROPY :: u32 where "BLOCK_STAKE_ENTROPY \<equiv> 2"
abbreviation (input) BLOCK_STAKE_MODIFIER :: u32 where "BLOCK_STAKE_MODIFIER \<equiv> 4"

section \<open>Network parameters\<close>

record params =
  bnProofOfWorkLimit :: int
  bnProofOfStakeLimit :: int
  nStakeMinAge :: int
  nCoinbaseMaturity :: int
  nModifierInterval :: int
  fTestNet :: bool

definition main_params :: params where
  "main_params = \<lparr> bnProofOfWorkLimit = 2 ^ 240 - 1, bnProofOfStakeLimit = 2 ^ 244 - 1,
     nStakeMinAge = 60 * 60 * 24 * 2, nCoinbaseMaturity = 120, nModifierInterval = 20 * 60, fTestNet = False \<rparr>"

definition test_params :: params where
  "test_params = \<lparr> bnProofOfWorkLimit = 2 ^ 242 - 1, bnProofOfStakeLimit = 2 ^ 248 - 1,
     nStakeMinAge = 5 * 60, nCoinbaseMaturity = 5, nModifierInterval = 120, fTestNet = True \<rparr>"

definition bnProofOfStakeLimit_REVISED :: int where
  "bnProofOfStakeLimit_REVISED = 2 ^ 254 - 1"

abbreviation (input) nPoSLimitSwitchTime :: int where "nPoSLimitSwitchTime \<equiv> 1433055600"
abbreviation (input) nTargetSpacing :: int where "nTargetSpacing \<equiv> 120"
abbreviation (input) nTargetSpacing2 :: int where "nTargetSpacing2 \<equiv> 300"
abbreviation (input) nSpacing2Time :: int where "nSpacing2Time \<equiv> 1442210400"
abbreviation (input) nTargetTimespan :: int where "nTargetTimespan \<equiv> 20 * 60"

section \<open>Entries\<close>

definition null_outpoint :: COutPoint where
  "null_outpoint = \<lparr> op_hash = 0, op_n = -1 \<rparr>"

definition CBlockIndex_of :: "u32 \<Rightarrow> u32 \<Rightarrow> CBlock \<Rightarrow> CBlockIndex" where
  "CBlockIndex_of nFileIn nBlockPosIn block =
     \<lparr> phashBlock = 0, nFile = nFileIn, nBlockPos = nBlockPosIn, nChainTrust = 0, nHeight = 0, nMint = 0,
       nMoneySupply = 0, nFlags = (if IsProofOfStake block then BLOCK_PROOF_OF_STAKE else 0),
       nStakeModifier = 0, nStakeModifierChecksum = 0,
       prevoutStake = (if IsProofOfStake block then prevout (vin (vtx block ! 1) ! 0) else null_outpoint),
       nStakeTime = (if IsProofOfStake block then tx_nTime (vtx block ! 1) else 0),
       hashProof = 0, bi_nVersion = blk_nVersion block, bi_hashMerkleRoot = hashMerkleRoot block,
       bi_nTime = blk_nTime block, bi_nBits = blk_nBits block, bi_nNonce = blk_nNonce block \<rparr>"

text \<open>\<open>GetBlockHeader\<close> of the first entry of a chain.\<close>

definition GetBlockHeader :: "CBlockIndex \<Rightarrow> chain \<Rightarrow> CBlock" where
  "GetBlockHeader pindex pprev =
     \<lparr> blk_nVersion = bi_nVersion pindex, hashPrevBlock = (case pprev of [] \<Rightarrow> 0 | p # _ \<Rightarrow> phashBlock p),
       hashMerkleRoot = bi_hashMerkleRoot pindex, blk_nTime = bi_nTime pindex, blk_nBits = bi_nBits pindex,
       blk_nNonce = bi_nNonce pindex, vtx = [], vchBlockSig = [] \<rparr>"

definition bi_IsProofOfStake :: "CBlockIndex \<Rightarrow> bool" where
  "bi_IsProofOfStake p \<longleftrightarrow> nFlags p AND BLOCK_PROOF_OF_STAKE \<noteq> 0"

definition SetProofOfStake :: "CBlockIndex \<Rightarrow> CBlockIndex" where
  "SetProofOfStake p = p\<lparr> nFlags := nFlags p OR BLOCK_PROOF_OF_STAKE \<rparr>"

definition bi_GetStakeEntropyBit :: "CBlockIndex \<Rightarrow> u32" where
  "bi_GetStakeEntropyBit p = drop_bit 1 (nFlags p AND BLOCK_STAKE_ENTROPY)"

definition SetStakeEntropyBit :: "u32 \<Rightarrow> CBlockIndex \<Rightarrow> CBlockIndex option" where
  "SetStakeEntropyBit nEntropyBit p =
     (if nEntropyBit > 1 then None
      else Some (p\<lparr> nFlags := nFlags p OR (if nEntropyBit \<noteq> 0 then BLOCK_STAKE_ENTROPY else 0) \<rparr>))"

definition GeneratedStakeModifier :: "CBlockIndex \<Rightarrow> bool" where
  "GeneratedStakeModifier p \<longleftrightarrow> nFlags p AND BLOCK_STAKE_MODIFIER \<noteq> 0"

definition SetStakeModifier :: "u64 \<Rightarrow> bool \<Rightarrow> CBlockIndex \<Rightarrow> CBlockIndex" where
  "SetStakeModifier nModifier fGenerated p =
     p\<lparr> nStakeModifier := nModifier,
        nFlags := (if fGenerated then nFlags p OR BLOCK_STAKE_MODIFIER else nFlags p) \<rparr>"

definition bi_GetBlockTime :: "CBlockIndex \<Rightarrow> int" where
  "bi_GetBlockTime p = uint (bi_nTime p)"

text \<open>\<open>GetMedianTimePast\<close>: up to eleven times are written backwards into an array, which is sorted.\<close>

abbreviation (input) nMedianTimeSpan :: nat where "nMedianTimeSpan \<equiv> 11"

definition GetMedianTimePast :: "chain \<Rightarrow> int" where
  "GetMedianTimePast pindex =
     (let pmedian = sort (rev (map bi_GetBlockTime (take nMedianTimeSpan pindex)))
      in pmedian ! (length pmedian div 2))"

fun IsSuperMajority_loop :: "int \<Rightarrow> chain \<Rightarrow> nat \<Rightarrow> nat \<Rightarrow> nat \<Rightarrow> nat" where
  "IsSuperMajority_loop minVersion pstart nRequired 0 nFound = nFound"
| "IsSuperMajority_loop minVersion [] nRequired (Suc k) nFound = nFound"
| "IsSuperMajority_loop minVersion (p # r) nRequired (Suc k) nFound =
     (if nFound < nRequired
      then IsSuperMajority_loop minVersion r nRequired k (if sint (bi_nVersion p) \<ge> minVersion then Suc nFound else nFound)
      else nFound)"

lemma IsSuperMajority_loop_code [code]:
  "IsSuperMajority_loop v c n k nFound = (if k = 0 then nFound
     else case c of [] \<Rightarrow> nFound
       | p # r \<Rightarrow> if nFound < n then IsSuperMajority_loop v r n (k - 1) (if sint (bi_nVersion p) \<ge> v then Suc nFound else nFound)
                else nFound)"
  by (cases k; cases c) auto

definition IsSuperMajority :: "int \<Rightarrow> chain \<Rightarrow> nat \<Rightarrow> nat \<Rightarrow> bool" where
  "IsSuperMajority minVersion pstart nRequired nToCheck \<longleftrightarrow>
     IsSuperMajority_loop minVersion pstart nRequired nToCheck 0 \<ge> nRequired"

section \<open>Difficulty\<close>

text \<open>\<open>GetLastBlockIndex\<close>: the last block of the wanted kind, or the genesis block.\<close>

fun GetLastBlockIndex :: "chain \<Rightarrow> bool \<Rightarrow> chain" where
  "GetLastBlockIndex [] fProofOfStake = []"
| "GetLastBlockIndex [p] fProofOfStake = [p]"
| "GetLastBlockIndex (p # q # r) fProofOfStake =
     (if bi_IsProofOfStake p \<noteq> fProofOfStake then GetLastBlockIndex (q # r) fProofOfStake else p # q # r)"

definition stake_limit :: "params \<Rightarrow> int \<Rightarrow> int" where
  "stake_limit P nBlockTime =
     (if nBlockTime \<ge> nPoSLimitSwitchTime then bnProofOfStakeLimit_REVISED else bnProofOfStakeLimit P)"

function ComputeMaxBits_loop :: "int \<Rightarrow> int \<Rightarrow> int \<Rightarrow> int" where
  "ComputeMaxBits_loop bnTargetLimit bnResult time =
     (if time > 0 \<and> bnResult < bnTargetLimit
      then ComputeMaxBits_loop bnTargetLimit (bnResult * 2) (time - 96 * 60) else bnResult)"
  by pat_completeness auto
termination
  by (relation "measure (\<lambda>(l, b, t). nat t)") auto

declare ComputeMaxBits_loop.simps [simp del]

definition ComputeMaxBits :: "bn_lib \<Rightarrow> int \<Rightarrow> u32 \<Rightarrow> int \<Rightarrow> u32" where
  "ComputeMaxBits L bnTargetLimit nBase time =
     (let bnResult = ComputeMaxBits_loop bnTargetLimit (SetCompact L nBase * 2) time
      in GetCompact L (if bnResult > bnTargetLimit then bnTargetLimit else bnResult))"

definition ComputeMinWork :: "bn_lib \<Rightarrow> params \<Rightarrow> u32 \<Rightarrow> int \<Rightarrow> u32" where
  "ComputeMinWork L P nBase time = ComputeMaxBits L (bnProofOfWorkLimit P) nBase time"

definition ComputeMinStake :: "bn_lib \<Rightarrow> params \<Rightarrow> u32 \<Rightarrow> int \<Rightarrow> u32 \<Rightarrow> u32" where
  "ComputeMinStake L P nBase time nBlockTime = ComputeMaxBits L (stake_limit P (uint nBlockTime)) nBase time"

text \<open>
  \<open>GetNextTargetRequired_\<close>.  It reads \<open>pindexLast->nTime\<close> before it compares \<open>pindexLast\<close> with \<open>NULL\<close>, so
  on \<open>NULL\<close> its behaviour is undefined (\<open>None\<close>); the test that follows is dead.
\<close>

definition retarget :: "int \<Rightarrow> int \<Rightarrow> int \<Rightarrow> int" where
  "retarget spacing nActualSpacing bnOld =
     (let nInterval = nTargetTimespan div spacing
      in the (bn_div (bnOld * ((nInterval - 1) * spacing + nActualSpacing + nActualSpacing)) ((nInterval + 1) * spacing)))"

definition GetNextTargetRequired :: "bn_lib \<Rightarrow> params \<Rightarrow> chain \<Rightarrow> bool \<Rightarrow> u32 option" where
  "GetNextTargetRequired L P pindexLast fProofOfStake = (case pindexLast of [] \<Rightarrow> None
    | tip # _ \<Rightarrow> Some
     (let spacing = (if bi_GetBlockTime tip < nSpacing2Time then nTargetSpacing else nTargetSpacing2);
          bnTargetLimit = (if fProofOfStake then stake_limit P (bi_GetBlockTime tip) else bnProofOfWorkLimit P)
      in case GetLastBlockIndex pindexLast fProofOfStake of
           prev # r \<Rightarrow>
             (case GetLastBlockIndex r fProofOfStake of
                prevprev # _ # _ \<Rightarrow>
                  (let nActualSpacing0 = bi_GetBlockTime prev - bi_GetBlockTime prevprev;
                       nActualSpacing = (if nActualSpacing0 < 0 then spacing else nActualSpacing0);
                       bnNew = retarget spacing nActualSpacing (SetCompact L (bi_nBits prev))
                   in GetCompact L (if bnNew \<le> 0 \<or> bnNew > bnTargetLimit then bnTargetLimit else bnNew))
              | _ \<Rightarrow> GetCompact L bnTargetLimit)
         | [] \<Rightarrow> GetCompact L bnTargetLimit))"

definition CheckProofOfWork :: "bn_lib \<Rightarrow> params \<Rightarrow> uint256 \<Rightarrow> u32 \<Rightarrow> bool" where
  "CheckProofOfWork L P hash nBits =
     (let bnTarget = SetCompact L nBits in
      if bnTarget \<le> 0 \<or> bnTarget > bnProofOfWorkLimit P then False
      else if hash > getuint256 L bnTarget then False
      else True)"

definition GetBlockTrust :: "bn_lib \<Rightarrow> CBlockIndex \<Rightarrow> uint256" where
  "GetBlockTrust L p =
     (let bnTarget = SetCompact L (bi_nBits p) in
      if bnTarget \<le> 0 then 0 else getuint256 L (the (bn_div (bn_lshift 1 256) (bnTarget + 1))))"

section \<open>Locators\<close>

text \<open>The walk of \<open>CBlockLocator::Set\<close>; \<open>n\<close> is the number of hashes pushed so far.\<close>

function locator_loop :: "chain \<Rightarrow> nat \<Rightarrow> nat \<Rightarrow> uint256 list" where
  "locator_loop pindex nStep n = (case pindex of [] \<Rightarrow> []
     | p # _ \<Rightarrow> phashBlock p # locator_loop (drop (max 1 nStep) pindex) (if Suc n > 10 then nStep * 2 else nStep) (Suc n))"
  by pat_completeness auto
termination
  by (relation "measure (\<lambda>(c, s, n). length c)") auto

declare locator_loop.simps [simp del]

definition CBlockLocator_Set :: "uint256 \<Rightarrow> chain \<Rightarrow> uint256 list" where
  "CBlockLocator_Set hashGenesis pindex = locator_loop pindex 1 0 @ [hashGenesis]"

fun GetDistanceBack_loop :: "(uint256 \<Rightarrow> bool) \<Rightarrow> uint256 list \<Rightarrow> nat \<Rightarrow> nat \<Rightarrow> nat" where
  "GetDistanceBack_loop in_main [] nDistance nStep = nDistance"
| "GetDistanceBack_loop in_main (hash # r) nDistance nStep =
     (if in_main hash then nDistance
      else GetDistanceBack_loop in_main r (nDistance + nStep) (if nDistance + nStep > 10 then nStep * 2 else nStep))"

definition GetDistanceBack :: "(uint256 \<Rightarrow> bool) \<Rightarrow> uint256 list \<Rightarrow> nat" where
  "GetDistanceBack in_main vHave = GetDistanceBack_loop in_main vHave 0 1"

text \<open>\<open>GetBlockIndex\<close> and \<open>GetBlockHash\<close>: the first hash that is in the main chain.\<close>

definition locator_GetBlockHash :: "(uint256 \<Rightarrow> bool) \<Rightarrow> uint256 \<Rightarrow> uint256 list \<Rightarrow> uint256" where
  "locator_GetBlockHash in_main hashGenesis vHave =
     (case find in_main vHave of Some hash \<Rightarrow> hash | None \<Rightarrow> hashGenesis)"



section \<open>The median of the last times\<close>

lemma sorted_nth_ge_count:
  assumes "sorted xs" "i < length xs"
  shows "m \<le> xs ! i \<longleftrightarrow> length xs - i \<le> length (filter (\<lambda>x. m \<le> x) xs)"
proof
  assume m: "m \<le> xs ! i"
  have "\<forall>x \<in> set (drop i xs). m \<le> x"
  proof
    fix x
    assume "x \<in> set (drop i xs)"
    then obtain k where k: "k < length xs - i" "x = xs ! (i + k)" by (auto simp: in_set_conv_nth)
    then have "xs ! i \<le> x" using assms(1) by (auto intro!: sorted_nth_mono)
    with m show "m \<le> x" by simp
  qed
  then have "length (drop i xs) \<le> length (filter (\<lambda>x. m \<le> x) (take i xs @ drop i xs))"
    by (simp only: filter_append length_append) (simp add: filter_id_conv [THEN iffD2])
  then show "length xs - i \<le> length (filter (\<lambda>x. m \<le> x) xs)" by (simp only: append_take_drop_id length_drop)
next
  assume c: "length xs - i \<le> length (filter (\<lambda>x. m \<le> x) xs)"
  show "m \<le> xs ! i"
  proof (rule ccontr)
    assume "\<not> m \<le> xs ! i"
    then have "\<forall>x \<in> set (take (Suc i) xs). \<not> m \<le> x"
    proof -
      assume n: "\<not> m \<le> xs ! i"
      have "x \<le> xs ! i" if "x \<in> set (take (Suc i) xs)" for x
        using that assms by (auto simp: in_set_conv_nth intro!: sorted_nth_mono)
      with n show ?thesis by (meson order_trans)
    qed
    then have "filter (\<lambda>x. m \<le> x) (take (Suc i) xs @ drop (Suc i) xs) = filter (\<lambda>x. m \<le> x) (drop (Suc i) xs)"
      by (simp only: filter_append) (simp add: filter_empty_conv)
    then have "length (filter (\<lambda>x. m \<le> x) xs) \<le> length xs - Suc i"
      by (metis append_take_drop_id length_drop length_filter_le)
    then show False using c assms(2) by simp
  qed
qed

lemma length_filter_sort_rev: "length (filter P (sort (rev xs))) = length (filter P xs)"
  by (simp only: filter_sort length_sort rev_filter [symmetric] length_rev)

lemma median_ge_count:
  fixes xs :: "int list"
  assumes "xs \<noteq> []"
  shows "m \<le> sort (rev xs) ! (length xs div 2) \<longleftrightarrow> length xs - length xs div 2 \<le> length (filter (\<lambda>x. m \<le> x) xs)"
proof -
  have "length xs div 2 < length (sort (rev xs))" using assms by (simp add: div_less_dividend)
  from sorted_nth_ge_count [OF _ this, of m] show ?thesis by (simp add: length_filter_sort_rev)
qed

lemma GetMedianTimePast_alt:
  "GetMedianTimePast c = sort (rev (map bi_GetBlockTime (take 11 c))) ! (length (map bi_GetBlockTime (take 11 c)) div 2)"
  by (simp add: GetMedianTimePast_def Let_def)

text \<open>A block later than the median of its predecessors never lowers the median.\<close>

text \<open>
  a block accepted on top of a chain, whose time must exceed the median of the last eleven, never
  makes the median of the chain go back.
\<close>

theorem GetMedianTimePast_mono:
  assumes "c \<noteq> []" "bi_GetBlockTime b > GetMedianTimePast c"
  shows "GetMedianTimePast c \<le> GetMedianTimePast (b # c)"
proof -
  let ?m = "GetMedianTimePast c"
  let ?w = "map bi_GetBlockTime (take 11 c)" and ?w' = "map bi_GetBlockTime (take 11 (b # c))"
  let ?P = "\<lambda>x. ?m \<le> x"
  have "?w \<noteq> []" using assms(1) by simp
  then have cnt: "length ?w - length ?w div 2 \<le> length (filter ?P ?w)"
    using median_ge_count [of ?w ?m] GetMedianTimePast_alt [of c] by simp
  have w': "?w' = bi_GetBlockTime b # map bi_GetBlockTime (take 10 c)" by (simp add: take_Cons')
  have "length (filter ?P ?w) \<le> length (filter ?P (map bi_GetBlockTime (take 10 c))) + (length ?w - length (take 10 c))"
  proof (cases "length c \<le> 10")
    case True
    then show ?thesis by simp
  next
    case False
    then have "take 11 c = take 10 c @ [c ! 10]" using take_Suc_conv_app_nth [of 10 c] by simp
    then show ?thesis by simp
  qed
  then have "length ?w' - length ?w' div 2 \<le> length (filter ?P ?w')"
    using cnt assms(2) by (simp add: w') linarith
  then show ?thesis
    using median_ge_count [of ?w' ?m] GetMedianTimePast_alt [of "b # c"] by (simp add: w')
qed



section \<open>Targets\<close>

lemma nat_le_length: "n < 256 ^ k \<Longrightarrow> length (nat_le n) \<le> k"
proof (induction k arbitrary: n)
  case 0
  then show ?case by (simp add: nat_le_simps)
next
  case (Suc k)
  have "n div 256 < 256 ^ k" using Suc.prems by (intro less_mult_imp_div_less) simp
  then show ?case using Suc.IH [of "n div 256"] by (cases "n = 0") (auto simp: nat_le_simps)
qed

lemma mpi_body_length: "\<bar>z\<bar> < 256 ^ k \<Longrightarrow> length (mpi_body z) \<le> Suc k"
proof -
  assume "\<bar>z\<bar> < 256 ^ k"
  then have "nat \<bar>z\<bar> < 256 ^ k" by (simp add: nat_less_iff)
  then have "length (nat_le (nat \<bar>z\<bar>)) \<le> k" by (rule nat_le_length)
  then show ?thesis using length_put_be [of True "z < 0" "rev (nat_le (nat \<bar>z\<bar>))"] by (simp add: mpi_body_def)
qed

text \<open>The three leading bytes of a positive number are not zero, so compacting keeps it positive.\<close>

lemma mpi_top_pos:
  assumes "0 < z"
  shows "256 ^ (length (mpi_body z) - 3) \<le> z"
proof -
  obtain bs where bs: "nat_le (nat z) = bs" "bs \<noteq> []" "last bs \<noteq> 0" "le_nat bs = nat z"
    using nat_le_last [of "nat z"] le_nat_nat_le [of "nat z"] assms by auto
  obtain ys y where ys: "bs = ys @ [y]" "y \<noteq> 0" using bs(2,3) by (metis append_butlast_last_id)
  have "256 ^ length ys \<le> le_nat bs" using ys byte_neq_0 [of y] by (simp add: le_nat_append trans_le_add2)
  moreover have "length (mpi_body z) \<le> Suc (Suc (length ys))"
    using length_put_be [of True False "rev bs"] assms bs ys by (simp add: mpi_body_def)
  then have "(256 :: nat) ^ (length (mpi_body z) - 3) \<le> 256 ^ length ys" by (intro power_increasing) auto
  ultimately have "256 ^ (length (mpi_body z) - 3) \<le> nat z" using bs(4) by linarith
  then show ?thesis using assms by (simp add: le_nat_iff)
qed

definition small_target :: "int \<Rightarrow> bool" where
  "small_target z \<longleftrightarrow> 0 < z \<and> z < 2 ^ 256"

context mpi_lib
begin

lemma compact_range:
  assumes "small_target z"
  shows "0 < SetCompact L (GetCompact L z)" "SetCompact L (GetCompact L z) \<le> z"
proof -
  have z: "0 < z" "\<bar>z\<bar> < 256 ^ 32" using assms by (auto simp: small_target_def)
  have eq: "SetCompact L (GetCompact L z) = z - z mod 256 ^ (length (mpi_body z) - 3)"
    using z mpi_body_length [OF z(2)] by (intro SetCompact_GetCompact) auto
  have "0 \<le> z mod 256 ^ (length (mpi_body z) - 3)" by simp
  then show "SetCompact L (GetCompact L z) \<le> z" using eq by simp
  have "z mod 256 ^ (length (mpi_body z) - 3) < 256 ^ (length (mpi_body z) - 3)" by simp
  then show "0 < SetCompact L (GetCompact L z)" using eq mpi_top_pos [OF z(1)] by linarith
qed

lemma CheckProofOfWork_iff:
  assumes "bnProofOfWorkLimit P < 2 ^ 256"
  shows "CheckProofOfWork L P hash nBits \<longleftrightarrow>
    0 < SetCompact L nBits \<and> SetCompact L nBits \<le> bnProofOfWorkLimit P \<and> uint hash \<le> SetCompact L nBits"
proof (cases "SetCompact L nBits \<le> 0 \<or> SetCompact L nBits > bnProofOfWorkLimit P")
  case True
  then show ?thesis by (auto simp: CheckProofOfWork_def Let_def)
next
  case False
  then have "uint (getuint256 L (SetCompact L nBits)) = SetCompact L nBits"
    using assms by (simp add: getuint256_value uint_word_of_int mod_pos_pos_trivial)
  then show ?thesis using False by (simp add: CheckProofOfWork_def Let_def word_less_def)
qed

lemma GetBlockTrust_value:
  "uint (GetBlockTrust L p) =
    (if SetCompact L (bi_nBits p) \<le> 0 then 0 else 2 ^ 256 div (SetCompact L (bi_nBits p) + 1))"
proof (cases "SetCompact L (bi_nBits p) \<le> 0")
  case True
  then show ?thesis by (simp add: GetBlockTrust_def Let_def)
next
  case False
  define t where "t = SetCompact L (bi_nBits p)"
  have t: "2 \<le> t + 1" using False by (simp add: t_def)
  have q: "0 \<le> (2 :: int) ^ 256 div (t + 1)" using t by (simp add: pos_imp_zdiv_nonneg_iff)
  have "(2 :: int) ^ 256 div (t + 1) \<le> 2 ^ 256 div 2" using t by (intro zdiv_mono2) auto
  then have q2: "(2 :: int) ^ 256 div (t + 1) < 2 ^ 256" by simp
  have "bn_div (bn_lshift 1 256) (t + 1) = Some (2 ^ 256 div (t + 1))"
    using t by (simp add: bn_div_def bn_lshift_def)
  then have "GetBlockTrust L p = word_of_int (2 ^ 256 div (t + 1))"
    using False q by (simp add: GetBlockTrust_def Let_def t_def [symmetric] getuint256_value)
  then show ?thesis using False q q2
    by (simp only: uint_word_of_int t_def [symmetric]) (simp add: mod_pos_pos_trivial)
qed

end

(*@@*)

section \<open>Retargeting\<close>

lemma retarget_div:
  assumes "spacing = 120 \<or> spacing = 300" "0 \<le> a" "0 \<le> t"
  shows "retarget spacing a t =
    t * ((1200 div spacing - 1) * spacing + 2 * a) div ((1200 div spacing + 1) * spacing)"
proof -
  have d: "(1200 div spacing + 1) * spacing > 0" and m: "0 \<le> (1200 div spacing - 1) * spacing + 2 * a"
    using assms by auto
  have n: "0 \<le> t * ((1200 div spacing - 1) * spacing + 2 * a)" using assms(3) m by simp
  have "bn_div x y = Some (x div y)" if "0 \<le> x" "0 < y" for x y
    using that by (cases "x = 0") (auto simp: bn_div_def)
  from this [OF n d] show ?thesis by (simp add: retarget_def Let_def algebra_simps)
qed

text \<open>A block that came on time leaves the target alone; a slower one never lowers it.\<close>

lemma retarget_on_time:
  assumes "spacing = 120 \<or> spacing = 300" "0 \<le> t"
  shows "retarget spacing spacing t = t"
  using assms(1) by (subst retarget_div [OF assms(1) _ assms(2)]) auto

lemma retarget_mono:
  assumes "spacing = 120 \<or> spacing = 300" "0 \<le> t" "0 \<le> a" "a \<le> b"
  shows "retarget spacing a t \<le> retarget spacing b t"
proof -
  have "t * ((1200 div spacing - 1) * spacing + 2 * a) \<le> t * ((1200 div spacing - 1) * spacing + 2 * b)"
    using assms by (intro mult_left_mono) auto
  moreover have "(1200 div spacing + 1) * spacing > 0" using assms(1) by auto
  ultimately show ?thesis using assms
    by (subst (1 2) retarget_div) (auto intro: zdiv_mono1)
qed

definition target_limit :: "params \<Rightarrow> chain \<Rightarrow> bool \<Rightarrow> int" where
  "target_limit P c fProofOfStake =
     (if fProofOfStake then stake_limit P (bi_GetBlockTime (hd c)) else bnProofOfWorkLimit P)"

lemma clamp_cases:
  "\<exists>t. g (if b \<le> 0 \<or> b > lim then lim else b) = g t \<and> (t = lim \<or> (0 < t \<and> t \<le> lim))" for b lim :: int
  by (intro exI [of _ "if b \<le> 0 \<or> b > lim then lim else b"]) auto

lemma GetNextTargetRequired_cases:
  assumes "c \<noteq> []"
  shows "\<exists>t. GetNextTargetRequired L P c f = Some (GetCompact L t)
    \<and> (t = target_limit P c f \<or> (0 < t \<and> t \<le> target_limit P c f))"
proof -
  obtain tip c' where c: "c = tip # c'" using assms by (cases c) auto
  have lim: "(if f then stake_limit P (bi_GetBlockTime tip) else bnProofOfWorkLimit P) = target_limit P c f"
    by (simp add: target_limit_def c)
  show ?thesis
  proof (cases "GetLastBlockIndex c f")
    case Nil
    then show ?thesis unfolding GetNextTargetRequired_def Let_def c list.case lim [unfolded c] by auto
  next
    case prev: (Cons prev r)
    show ?thesis
    proof (cases "length (GetLastBlockIndex r f) < 2")
      case True
      then have "GetLastBlockIndex r f = [] \<or> (\<exists>g. GetLastBlockIndex r f = [g])"
        by (cases "GetLastBlockIndex r f"; cases "tl (GetLastBlockIndex r f)") auto
      then show ?thesis using prev unfolding GetNextTargetRequired_def Let_def c list.case lim [unfolded c] by auto
    next
      case False
      then obtain pp g r' where "GetLastBlockIndex r f = pp # g # r'"
        by (cases "GetLastBlockIndex r f"; cases "tl (GetLastBlockIndex r f)") auto
      then show ?thesis using prev unfolding GetNextTargetRequired_def Let_def c list.case lim [unfolded c]
        by (simp only: list.case option.inject c) (rule clamp_cases)
    qed
  qed
qed

context mpi_lib
begin

lemma GetNextTargetRequired_range:
  assumes "c \<noteq> []" "small_target (target_limit P c f)"
  shows "\<exists>bits. GetNextTargetRequired L P c f = Some bits
    \<and> 0 < SetCompact L bits \<and> SetCompact L bits \<le> target_limit P c f"
proof -
  obtain t where t: "GetNextTargetRequired L P c f = Some (GetCompact L t)"
    "t = target_limit P c f \<or> (0 < t \<and> t \<le> target_limit P c f)"
    using GetNextTargetRequired_cases [OF assms(1)] by blast
  then have "small_target t" "t \<le> target_limit P c f" using assms(2) by (auto simp: small_target_def)
  then show ?thesis using t(1) compact_range [of t] by auto
qed

lemma ComputeMaxBits_range:
  assumes "small_target limit" "0 < SetCompact L nBase"
  shows "0 < SetCompact L (ComputeMaxBits L limit nBase time)" "SetCompact L (ComputeMaxBits L limit nBase time) \<le> limit"
proof -
  have loop: "0 < r \<Longrightarrow> 0 < ComputeMaxBits_loop l r t" for l r t
    by (induction l r t rule: ComputeMaxBits_loop.induct) (subst ComputeMaxBits_loop.simps, simp)
  define r where "r = ComputeMaxBits_loop limit (SetCompact L nBase * 2) time"
  have "small_target (if r > limit then limit else r)"
    using assms loop [of "SetCompact L nBase * 2" limit time] by (auto simp: small_target_def r_def)
  from compact_range [OF this] show "0 < SetCompact L (ComputeMaxBits L limit nBase time)"
    "SetCompact L (ComputeMaxBits L limit nBase time) \<le> limit"
    by (auto simp: ComputeMaxBits_def Let_def r_def)
qed

end

lemma IsSuperMajority_loop_count:
  "nFound \<le> nRequired \<Longrightarrow>
   IsSuperMajority_loop v c nRequired k nFound
     = min nRequired (nFound + length (filter (\<lambda>p. sint (bi_nVersion p) \<ge> v) (take k c)))"
  by (induction v c nRequired k nFound rule: IsSuperMajority_loop.induct) auto

text \<open>
  \<open>IsSuperMajority\<close>, which stops counting early, holds exactly when at least \<open>nRequired\<close> of the last
  \<open>nToCheck\<close> blocks have the version.
\<close>

theorem IsSuperMajority_count:
  "IsSuperMajority v c nRequired nToCheck \<longleftrightarrow>
     nRequired \<le> length (filter (\<lambda>p. sint (bi_nVersion p) \<ge> v) (take nToCheck c))"
  by (simp add: IsSuperMajority_def IsSuperMajority_loop_count)

section \<open>Locators\<close>

lemma locator_loop_nil: "locator_loop [] s n = []"
  by (subst locator_loop.simps) simp

lemma locator_loop_Cons:
  "locator_loop (p # c) s n = phashBlock p # locator_loop (drop (max 1 s) (p # c)) (if Suc n > 10 then s * 2 else s) (Suc n)"
  by (subst locator_loop.simps) simp

text \<open>
  The distances that the receiver of a locator retraces are the distances at which its sender
  took the hashes.
\<close>

lemma locator_distance:
  assumes "0 < s" "(n \<le> 10 \<and> d = n \<and> s = 1) \<or> (10 < n \<and> 10 < d)"
    "\<exists>h \<in> set (locator_loop (drop d c) s n). in_main h"
  shows "\<exists>i < length c. GetDistanceBack_loop in_main (locator_loop (drop d c) s n @ rest) d s = i
    \<and> in_main (phashBlock (c ! i))"
  using assms
proof (induction "length c - d" arbitrary: d s n rule: less_induct)
  case less
  show ?case
  proof (cases "drop d c")
    case Nil
    then show ?thesis using less.prems by (simp add: locator_loop_nil)
  next
    case (Cons p r)
    have d: "d < length c" "p = c ! d" using Cons by (metis drop_all linorder_not_le list.distinct(1)) (metis Cons nth_via_drop)
    define s' where "s' = (if Suc n > 10 then s * 2 else s)"
    have s': "s' = (if d + s > 10 then s * 2 else s)" using less.prems(2) by (auto simp: s'_def)
    have dd: "drop s (p # r) = drop (d + s) c" unfolding Cons [symmetric] by (simp add: add.commute)
    have loop: "locator_loop (drop d c) s n = phashBlock p # locator_loop (drop (d + s) c) s' (Suc n)"
      using less.prems(1) dd by (simp add: Cons locator_loop_Cons s'_def max_def)
    show ?thesis
    proof (cases "in_main (phashBlock p)")
      case True
      then show ?thesis using d loop by auto
    next
      case False
      have "\<exists>h \<in> set (locator_loop (drop (d + s) c) s' (Suc n)). in_main h"
        using less.prems(3) loop False by auto
      moreover have "(Suc n \<le> 10 \<and> d + s = Suc n \<and> s' = 1) \<or> (10 < Suc n \<and> 10 < d + s)"
        using less.prems(1,2) by (auto simp: s'_def)
      moreover have "length c - (d + s) < length c - d" "0 < s'" using less.prems(1) d by (auto simp: s'_def)
      ultimately show ?thesis using less.hyps [of "d + s" s' "Suc n"] loop False by (auto simp: s')
    qed
  qed
qed

lemma GetDistanceBack_Set:
  assumes "\<exists>h \<in> set (locator_loop c 1 0). in_main h"
  shows "GetDistanceBack in_main (CBlockLocator_Set g c) < length c"
    and "in_main (phashBlock (c ! GetDistanceBack in_main (CBlockLocator_Set g c)))"
  using locator_distance [of 1 0 0 c in_main "[g]"] assms
  by (auto simp: GetDistanceBack_def CBlockLocator_Set_def)

section \<open>Properties\<close>

definition sample_index :: "nat \<Rightarrow> u32 \<Rightarrow> u32 \<Rightarrow> CBlockIndex" where
  "sample_index h t bits = \<lparr> phashBlock = word_of_nat h, nFile = 1, nBlockPos = 0, nChainTrust = 0, nHeight = int h, nMint = 0,
     nMoneySupply = 0, nFlags = 0, nStakeModifier = 0, nStakeModifierChecksum = 0, prevoutStake = null_outpoint,
     nStakeTime = 0, hashProof = 0, bi_nVersion = 7, bi_hashMerkleRoot = 0, bi_nTime = t, bi_nBits = bits, bi_nNonce = 0 \<rparr>"

definition sample_chain :: chain where
  "sample_chain = [sample_index 2 1432620300 0x1e00ffff, sample_index 1 1432620100 0x1e00ffff, sample_index 0 1432620000 0x1e00ffff]"

theorem GetMedianTimePast_mono_witness:
  "GetMedianTimePast sample_chain \<le> GetMedianTimePast (sample_index 3 1432620200 0 # sample_chain)"
  by (rule GetMedianTimePast_mono) code_simp+

text \<open>
  C21: with OpenSSL's number format, a hash passes \<open>CheckProofOfWork\<close> exactly when the unpacked target is
  positive, within the limit, and at least the hash, and the trust of a block is \<open>2 ^ 256\<close> divided by its
  target plus one.
\<close>

theorem CheckProofOfWork_spec:
  assumes "mpi_lib L" "bnProofOfWorkLimit P < 2 ^ 256"
  shows "(CheckProofOfWork L P hash nBits \<longleftrightarrow>
      0 < SetCompact L nBits \<and> SetCompact L nBits \<le> bnProofOfWorkLimit P \<and> uint hash \<le> SetCompact L nBits)
    \<and> uint (GetBlockTrust L p) =
        (if SetCompact L (bi_nBits p) \<le> 0 then 0 else 2 ^ 256 div (SetCompact L (bi_nBits p) + 1))"
  using mpi_lib.CheckProofOfWork_iff [OF assms] mpi_lib.GetBlockTrust_value [OF assms(1)] by simp

theorem CheckProofOfWork_spec_witness:
  "CheckProofOfWork mpi_ref main_params 5 0x1d00ffff \<and> \<not> CheckProofOfWork mpi_ref main_params 5 0x2000ffff"
proof -
  have "SetCompact mpi_ref 0x1d00ffff = 0xffff * 256 ^ 26" "SetCompact mpi_ref 0x2000ffff = 0xffff * 256 ^ 29"
    using mref.SetCompact_value [of "0x1d00ffff"] mref.SetCompact_value [of "0x2000ffff"] by simp_all
  then show ?thesis
    using CheckProofOfWork_spec [OF mref.mpi_lib_axioms, of main_params 5 "0x1d00ffff"]
      CheckProofOfWork_spec [OF mref.mpi_lib_axioms, of main_params 5 "0x2000ffff"]
    by (simp add: main_params_def)
qed

text \<open>
  C20: on a non-empty chain \<open>GetNextTargetRequired\<close> returns a compact target that unpacks to a positive
  number within the limit of its kind of block, whatever the times of the blocks.
\<close>

theorem GetNextTargetRequired_valid:
  assumes "mpi_lib L" "c \<noteq> []" "0 < target_limit P c f" "target_limit P c f < 2 ^ 256"
  shows "\<exists>bits. GetNextTargetRequired L P c f = Some bits
    \<and> 0 < SetCompact L bits \<and> SetCompact L bits \<le> target_limit P c f"
  using mpi_lib.GetNextTargetRequired_range [OF assms(1,2)] assms(3,4) by (simp add: small_target_def)

theorem GetNextTargetRequired_valid_witness:
  "\<exists>bits. GetNextTargetRequired mpi_ref main_params sample_chain False = Some bits
    \<and> 0 < SetCompact mpi_ref bits \<and> SetCompact mpi_ref bits \<le> 2 ^ 240 - 1"
proof -
  have "target_limit main_params sample_chain False = 2 ^ 240 - 1" by (simp add: target_limit_def main_params_def)
  moreover have "sample_chain \<noteq> []" by (simp add: sample_chain_def)
  ultimately show ?thesis using GetNextTargetRequired_valid [OF mref.mpi_lib_axioms, of sample_chain main_params False] by simp
qed

text \<open>
  retargeting leaves the target alone when the last block came exactly on time, and a slower block
  never gives a harder target.
\<close>

theorem retarget_on_time_mono:
  assumes "spacing = nTargetSpacing \<or> spacing = nTargetSpacing2" "0 \<le> bnOld" "0 \<le> a" "a \<le> b"
  shows "retarget spacing spacing bnOld = bnOld \<and> retarget spacing a bnOld \<le> retarget spacing b bnOld"
  using retarget_on_time [OF assms(1,2)] retarget_mono [OF assms] by simp

theorem retarget_on_time_mono_witness: "retarget 120 120 1000 = 1000 \<and> retarget 120 60 1000 \<le> retarget 120 240 1000"
  by (rule retarget_on_time_mono) simp_all

text \<open>
  when a peer has on its main chain some block whose hash a locator for a chain names, the distance it
  computes from the locator alone points at a block of that chain which the peer has.
\<close>

theorem CBlockLocator_distance:
  assumes "\<exists>h \<in> set (locator_loop c 1 0). in_main h"
  shows "GetDistanceBack in_main (CBlockLocator_Set g c) < length c
    \<and> in_main (phashBlock (c ! GetDistanceBack in_main (CBlockLocator_Set g c)))"
  using GetDistanceBack_Set [OF assms] by simp

theorem CBlockLocator_distance_witness:
  "GetDistanceBack (\<lambda>h. h = 0) (CBlockLocator_Set 77 sample_chain) < length sample_chain"
proof -
  have "\<exists>h \<in> set (locator_loop sample_chain 1 0). h = 0" by code_simp
  from CBlockLocator_distance [OF this] show ?thesis by blast
qed

end
