(* ===== verification/TxDB.thy ===== *)
theory TxDB
  imports BlockIndex
begin

text \<open>
  The transaction index and its database: \<open>CDiskTxPos\<close> and \<open>CTxIndex\<close> of \<open>main.h\<close>, \<open>CTxDB\<close> of
  \<open>txdb-leveldb.h\<close> and \<open>txdb-leveldb.cpp\<close>.  LevelDB itself is a map from keys to values; \<open>pdb_ok\<close> says whether
  it answers its calls with an ok status.  While \<open>activeBatch\<close> is set, writes and deletes are queued in it
  and reads scan it first.  The contract \<open>tx_store\<close> is what the code that connects blocks relies on.
\<close>

section \<open>Positions and index entries\<close>

record CDiskTxPos =
  pos_nFile :: u32
  pos_nBlockPos :: u32
  pos_nTxPos :: u32

definition CDiskTxPos_null :: CDiskTxPos where
  "CDiskTxPos_null = \<lparr> pos_nFile = -1, pos_nBlockPos = 0, pos_nTxPos = 0 \<rparr>"

definition CDiskTxPos_IsNull :: "CDiskTxPos \<Rightarrow> bool" where
  "CDiskTxPos_IsNull p \<longleftrightarrow> pos_nFile p = -1"

definition ser_CDiskTxPos :: "CDiskTxPos \<Rightarrow> byte list" where
  "ser_CDiskTxPos p = ser_word (pos_nFile p) @ ser_word (pos_nBlockPos p) @ ser_word (pos_nTxPos p)"

definition unser_CDiskTxPos :: "byte list \<Rightarrow> (CDiskTxPos \<times> byte list) option" where
  "unser_CDiskTxPos bs = do {
     (f, r1) \<leftarrow> unser_word bs; (b, r2) \<leftarrow> unser_word r1; (t, r3) \<leftarrow> unser_word r2;
     Some (\<lparr> pos_nFile = f, pos_nBlockPos = b, pos_nTxPos = t \<rparr>, r3) }"

record CTxIndex =
  ti_pos :: CDiskTxPos
  vSpent :: "CDiskTxPos list"

definition CTxIndex_of :: "CDiskTxPos \<Rightarrow> nat \<Rightarrow> CTxIndex" where
  "CTxIndex_of posIn nOutputs = \<lparr> ti_pos = posIn, vSpent = replicate nOutputs CDiskTxPos_null \<rparr>"

abbreviation (input) CLIENT_VERSION :: u32 where "CLIENT_VERSION \<equiv> 1040001"

definition ser_CTxIndex :: "u32 \<Rightarrow> CTxIndex \<Rightarrow> byte list" where
  "ser_CTxIndex nVersion ti = ser_word nVersion @ ser_CDiskTxPos (ti_pos ti) @ ser_vec ser_CDiskTxPos (vSpent ti)"

definition unser_CTxIndex :: "byte list \<Rightarrow> (CTxIndex \<times> byte list) option" where
  "unser_CTxIndex bs = do {
     (nVersion, r0) \<leftarrow> (unser_word bs :: (u32 \<times> byte list) option);
     (p, r1) \<leftarrow> unser_CDiskTxPos r0;
     (v, r2) \<leftarrow> unser_vec 12 unser_CDiskTxPos r1;
     Some (\<lparr> ti_pos = p, vSpent = v \<rparr>, r2) }"

section \<open>The database\<close>

datatype batch_op = BPut "byte list" "byte list" | BDelete "byte list"

record CTxDB =
  pdb :: "byte list \<rightharpoonup> byte list"
  pdb_ok :: bool
  activeBatch :: "batch_op list option"
  fReadOnly :: bool

text \<open>\<open>ScanBatch\<close>: the handlers of \<open>CBatchScanner\<close>, called for the operations in the order they were queued.\<close>

fun scan_op :: "byte list \<Rightarrow> batch_op \<Rightarrow> bool \<times> bool \<times> byte list \<Rightarrow> bool \<times> bool \<times> byte list" where
  "scan_op needle (BPut key value) (foundEntry, deleted, foundValue) =
     (if key = needle then (True, False, value) else (foundEntry, deleted, foundValue))"
| "scan_op needle (BDelete key) (foundEntry, deleted, foundValue) =
     (if key = needle then (True, True, foundValue) else (foundEntry, deleted, foundValue))"

definition ScanBatch :: "byte list \<Rightarrow> batch_op list \<Rightarrow> bool \<times> bool \<times> byte list" where
  "ScanBatch key bops = fold (scan_op key) bops (False, False, [])"

definition db_Get :: "CTxDB \<Rightarrow> byte list \<Rightarrow> byte list option" where
  "db_Get s key = (if pdb_ok s then pdb s key else None)"

definition db_Read :: "CTxDB \<Rightarrow> byte list \<Rightarrow> byte list option" where
  "db_Read s key = (case activeBatch s of None \<Rightarrow> db_Get s key
     | Some bops \<Rightarrow> (case ScanBatch key bops of (foundEntry, deleted, strValue) \<Rightarrow>
         if deleted then None else if foundEntry then Some strValue else db_Get s key))"

text \<open>\<open>None\<close> is a failed assertion, which ends the process.\<close>

definition db_Write :: "byte list \<Rightarrow> byte list \<Rightarrow> CTxDB \<Rightarrow> (bool \<times> CTxDB) option" where
  "db_Write key value s =
     (if fReadOnly s then None
      else case activeBatch s of
        Some bops \<Rightarrow> Some (True, s\<lparr> activeBatch := Some (bops @ [BPut key value]) \<rparr>)
      | None \<Rightarrow> Some (if pdb_ok s then (True, s\<lparr> pdb := (pdb s)(key \<mapsto> value) \<rparr>) else (False, s)))"

definition db_Erase :: "byte list \<Rightarrow> CTxDB \<Rightarrow> (bool \<times> CTxDB) option" where
  "db_Erase key s =
     (if fReadOnly s then None
      else case activeBatch s of
        Some bops \<Rightarrow> Some (True, s\<lparr> activeBatch := Some (bops @ [BDelete key]) \<rparr>)
      | None \<Rightarrow> Some (if pdb_ok s then (True, s\<lparr> pdb := (pdb s)(key := None) \<rparr>) else (False, s)))"

text \<open>\<open>Exists\<close> falls through to the database when the batch deletes the key; an error status counts as found.\<close>

definition db_Exists :: "byte list \<Rightarrow> CTxDB \<Rightarrow> bool" where
  "db_Exists key s \<longleftrightarrow>
     (case activeBatch s of None \<Rightarrow> False
      | Some bops \<Rightarrow> (case ScanBatch key bops of (foundEntry, deleted, _) \<Rightarrow> foundEntry \<and> \<not> deleted))
     \<or> \<not> pdb_ok s \<or> pdb s key \<noteq> None"

definition TxnBegin :: "CTxDB \<Rightarrow> (bool \<times> CTxDB) option" where
  "TxnBegin s = (if activeBatch s \<noteq> None then None else Some (True, s\<lparr> activeBatch := Some [] \<rparr>))"

text \<open>LevelDB applies a batch atomically, in order.\<close>

fun apply_op :: "batch_op \<Rightarrow> (byte list \<rightharpoonup> byte list) \<Rightarrow> (byte list \<rightharpoonup> byte list)" where
  "apply_op (BPut key value) m = m(key \<mapsto> value)"
| "apply_op (BDelete key) m = m(key := None)"

definition TxnCommit :: "CTxDB \<Rightarrow> (bool \<times> CTxDB) option" where
  "TxnCommit s = (case activeBatch s of None \<Rightarrow> None
     | Some bops \<Rightarrow> Some (pdb_ok s,
         s\<lparr> activeBatch := None, pdb := (if pdb_ok s then fold apply_op bops (pdb s) else pdb s) \<rparr>))"

definition TxnAbort :: "CTxDB \<Rightarrow> bool \<times> CTxDB" where
  "TxnAbort s = (True, s\<lparr> activeBatch := None \<rparr>)"

definition tx_key :: "uint256 \<Rightarrow> byte list" where
  "tx_key hash = ser_pair ser_string ser_word (map (of_char :: char \<Rightarrow> byte) ''tx'', hash)"

definition ReadTxIndex :: "CTxDB \<Rightarrow> uint256 \<Rightarrow> CTxIndex option" where
  "ReadTxIndex s hash = do { v \<leftarrow> db_Read s (tx_key hash); (ti, r) \<leftarrow> unser_CTxIndex v; Some ti }"

definition UpdateTxIndex :: "uint256 \<Rightarrow> CTxIndex \<Rightarrow> CTxDB \<Rightarrow> (bool \<times> CTxDB) option" where
  "UpdateTxIndex hash ti s = db_Write (tx_key hash) (ser_CTxIndex CLIENT_VERSION ti) s"

definition AddTxIndex :: "hash_lib \<Rightarrow> CTransaction \<Rightarrow> CDiskTxPos \<Rightarrow> CTxDB \<Rightarrow> (bool \<times> CTxDB) option" where
  "AddTxIndex H tx p s = UpdateTxIndex (GetHash H tx) (CTxIndex_of p (length (vout tx))) s"

definition EraseTxIndex :: "uint256 \<Rightarrow> CTxDB \<Rightarrow> (bool \<times> CTxDB) option" where
  "EraseTxIndex hash s = db_Erase (tx_key hash) s"

definition ContainsTx :: "uint256 \<Rightarrow> CTxDB \<Rightarrow> bool" where
  "ContainsTx hash s = db_Exists (tx_key hash) s"



section \<open>Reads see the batch\<close>

lemma ScanBatch_snoc: "ScanBatch key (bops @ [x]) = scan_op key x (ScanBatch key bops)"
  by (simp add: ScanBatch_def)

text \<open>Scanning the pending operations and falling back to the database is reading after applying them.\<close>

lemma scan_apply:
  "(case ScanBatch key bops of (foundEntry, deleted, v) \<Rightarrow> if deleted then None else if foundEntry then Some v else m key)
   = fold apply_op bops m key"
proof (induction bops rule: rev_induct)
  case Nil
  then show ?case by (simp add: ScanBatch_def)
next
  case (snoc x bops)
  then show ?case
    by (cases x; cases "ScanBatch key bops") (auto simp: ScanBatch_snoc split: if_splits)
qed

definition kv :: "CTxDB \<Rightarrow> byte list \<rightharpoonup> byte list" where
  "kv s = (case activeBatch s of None \<Rightarrow> pdb s | Some bops \<Rightarrow> fold apply_op bops (pdb s))"

lemma db_Read_kv: "pdb_ok s \<Longrightarrow> db_Read s key = kv s key"
  by (auto simp: db_Read_def db_Get_def kv_def scan_apply [symmetric] split: option.splits prod.splits)

definition db_inv :: "CTxDB \<Rightarrow> bool" where
  "db_inv s \<longleftrightarrow> pdb_ok s \<and> \<not> fReadOnly s"

lemma db_Write_kv:
  "db_inv s \<Longrightarrow> \<exists>s'. db_Write key v s = Some (True, s') \<and> db_inv s' \<and> kv s' = (kv s)(key \<mapsto> v)
     \<and> (activeBatch s' = None \<longleftrightarrow> activeBatch s = None)"
  by (auto simp: db_Write_def db_inv_def kv_def split: option.splits)

lemma db_Erase_kv:
  "db_inv s \<Longrightarrow> \<exists>s'. db_Erase key s = Some (True, s') \<and> db_inv s' \<and> kv s' = (kv s)(key := None)
     \<and> (activeBatch s' = None \<longleftrightarrow> activeBatch s = None)"
  by (auto simp: db_Erase_def db_inv_def kv_def split: option.splits)

lemma TxnCommit_kv: "db_inv s \<Longrightarrow> activeBatch s \<noteq> None \<Longrightarrow>
  \<exists>s'. TxnCommit s = Some (True, s') \<and> db_inv s' \<and> kv s' = kv s \<and> activeBatch s' = None"
  by (auto simp: TxnCommit_def db_inv_def kv_def)

text \<open>
  The calls of a client between \<open>TxnBegin\<close> and the end of the transaction, and what they do to an ordinary map.
\<close>

datatype db_call = CallWrite "byte list" "byte list" | CallErase "byte list"

fun run_calls :: "db_call list \<Rightarrow> CTxDB \<Rightarrow> (bool \<times> CTxDB) option" where
  "run_calls [] s = Some (True, s)"
| "run_calls (CallWrite key v # r) s = do { (ok, s') \<leftarrow> db_Write key v s; (oks, s'') \<leftarrow> run_calls r s'; Some (ok \<and> oks, s'') }"
| "run_calls (CallErase key # r) s = do { (ok, s') \<leftarrow> db_Erase key s; (oks, s'') \<leftarrow> run_calls r s'; Some (ok \<and> oks, s'') }"

fun effect :: "db_call list \<Rightarrow> (byte list \<rightharpoonup> byte list) \<Rightarrow> (byte list \<rightharpoonup> byte list)" where
  "effect [] m = m"
| "effect (CallWrite key v # r) m = effect r (\<lambda>k. if k = key then Some v else m k)"
| "effect (CallErase key # r) m = effect r (\<lambda>k. if k = key then None else m k)"

lemma run_calls_batch:
  "db_inv s \<Longrightarrow> activeBatch s = Some bops \<Longrightarrow>
   \<exists>bops'. run_calls calls s = Some (True, s\<lparr> activeBatch := Some bops' \<rparr>) \<and> fold apply_op bops' (pdb s) = effect calls (fold apply_op bops (pdb s))"
proof (induction calls arbitrary: s bops)
  case Nil
  then show ?case by (intro exI [of _ bops]) simp
next
  case (Cons c r)
  define x where "x = (case c of CallWrite key v \<Rightarrow> BPut key v | CallErase key \<Rightarrow> BDelete key)"
  have inv: "db_inv (s\<lparr> activeBatch := Some (bops @ [x]) \<rparr>)" using Cons.prems(1) by (simp add: db_inv_def)
  from Cons.IH [OF this] obtain bops' where
    "run_calls r (s\<lparr> activeBatch := Some (bops @ [x]) \<rparr>) = Some (True, s\<lparr> activeBatch := Some bops' \<rparr>)"
    "fold apply_op bops' (pdb s) = effect r (apply_op x (fold apply_op bops (pdb s)))" by auto
  moreover have "apply_op (BPut key v) m = (\<lambda>k. if k = key then Some v else m k)"
    "apply_op (BDelete key) m = (\<lambda>k. if k = key then None else m k)" for key v m by auto
  ultimately show ?case using Cons.prems
    by (intro exI [of _ bops']) (cases c; simp add: x_def db_Write_def db_Erase_def db_inv_def)
qed

section \<open>The index as a store\<close>

definition ok_CTxIndex :: "CTxIndex \<Rightarrow> bool" where
  "ok_CTxIndex ti \<longleftrightarrow> length (vSpent ti) \<le> MAX_SIZE"

interpretation diskpos: coder ser_CDiskTxPos unser_CDiskTxPos "\<lambda>_. True"
  by standard (simp add: ser_CDiskTxPos_def unser_CDiskTxPos_def coder_simps)

interpretation diskposs: coder "ser_vec ser_CDiskTxPos" "unser_vec 12 unser_CDiskTxPos"
  "\<lambda>v. length v \<le> MAX_SIZE \<and> list_all (\<lambda>_. True) v"
  by (rule diskpos.vec_coder) simp_all

interpretation txindex: coder "ser_CTxIndex n" unser_CTxIndex ok_CTxIndex for n
  by standard (simp add: ser_CTxIndex_def unser_CTxIndex_def ok_CTxIndex_def coder_simps diskpos.unser_ser
      diskposs.unser_ser list_all_iff)

text \<open>The loop of \<open>ConnectBlock\<close> that writes the queued index entries.\<close>

fun write_queued :: "(uint256 \<Rightarrow> CTxIndex \<Rightarrow> 'db \<Rightarrow> (bool \<times> 'db) option) \<Rightarrow> (uint256 \<times> CTxIndex) list \<Rightarrow> 'db \<Rightarrow> (bool \<times> 'db) option" where
  "write_queued up [] s = Some (True, s)"
| "write_queued up ((h, ti) # r) s =
     (case up h ti s of None \<Rightarrow> None | Some (b, s') \<Rightarrow> if b then write_queued up r s' else Some (False, s'))"

locale tx_store =
  fixes rd :: "'db \<Rightarrow> uint256 \<Rightarrow> CTxIndex option"
    and up :: "uint256 \<Rightarrow> CTxIndex \<Rightarrow> 'db \<Rightarrow> (bool \<times> 'db) option"
    and er :: "uint256 \<Rightarrow> 'db \<Rightarrow> (bool \<times> 'db) option"
    and inv :: "'db \<Rightarrow> bool"
  assumes rd_ok: "rd s h = Some ti \<Longrightarrow> ok_CTxIndex ti"
    and up_rd: "inv s \<Longrightarrow> ok_CTxIndex ti \<Longrightarrow> \<exists>s'. up h ti s = Some (True, s') \<and> inv s' \<and> rd s' = (rd s)(h \<mapsto> ti)"
    and er_rd: "inv s \<Longrightarrow> \<exists>s'. er h s = Some (True, s') \<and> inv s' \<and> rd s' = (rd s)(h := None)"
begin

lemma write_queued_rd:
  "inv s \<Longrightarrow> list_all (ok_CTxIndex \<circ> snd) kvs \<Longrightarrow> distinct (map fst kvs) \<Longrightarrow>
   \<exists>s'. write_queued up kvs s = Some (True, s') \<and> inv s' \<and> rd s' = rd s ++ map_of kvs"
proof (induction kvs arbitrary: s)
  case (Cons x r)
  obtain h ti where x: "x = (h, ti)" by (cases x)
  from up_rd [OF Cons(2), of ti h] Cons(3) x obtain t where t: "up h ti s = Some (True, t)" "inv t" "rd t = (rd s)(h \<mapsto> ti)"
    by auto
  have eq: "(rd s)(h \<mapsto> ti) ++ map_of r = rd s ++ map_of (x # r)"
  proof -
    have "map_of r h = None" using Cons(4) x by (simp add: map_of_eq_None_iff)
    then show ?thesis using x by (auto simp: fun_eq_iff map_add_def split: option.splits)
  qed
  obtain s' where s': "write_queued up r t = Some (True, s')" "inv s'" "rd s' = rd t ++ map_of r"
    using Cons(1) [OF t(2)] Cons(3,4) by auto
  have "write_queued up (x # r) s = Some (True, s')" using t(1) s'(1) by (simp add: x)
  then show ?case using s'(2,3) unfolding t(3) eq by blast
qed simp

end

lemma tx_key_inject: "tx_key a = tx_key b \<longleftrightarrow> a = b"
  by (simp add: tx_key_def ser_pair_def u256.ser_inject)

lemma ReadTxIndex_kv:
  "db_inv s \<Longrightarrow> ReadTxIndex s h = do { v \<leftarrow> kv s (tx_key h); (ti, r) \<leftarrow> unser_CTxIndex v; Some ti }"
  by (simp add: ReadTxIndex_def db_Read_kv db_inv_def)

lemma ReadTxIndex_ok: "ReadTxIndex s h = Some ti \<Longrightarrow> ok_CTxIndex ti"
  by (auto simp: ReadTxIndex_def unser_CTxIndex_def ok_CTxIndex_def split: Option.bind_splits dest!: unser_vec_length [rotated 2])

interpretation txdb: tx_store ReadTxIndex UpdateTxIndex EraseTxIndex db_inv
proof
  show "ReadTxIndex s h = Some ti \<Longrightarrow> ok_CTxIndex ti" for s h ti by (rule ReadTxIndex_ok)
  show "\<exists>s'. UpdateTxIndex h ti s = Some (True, s') \<and> db_inv s' \<and> ReadTxIndex s' = (ReadTxIndex s)(h \<mapsto> ti)"
    if i: "db_inv s" "ok_CTxIndex ti" for s ti h
  proof -
    obtain s' where s': "UpdateTxIndex h ti s = Some (True, s')" "db_inv s'"
      "kv s' = (kv s)(tx_key h \<mapsto> ser_CTxIndex CLIENT_VERSION ti)"
      using db_Write_kv [OF i(1)] by (auto simp: UpdateTxIndex_def)
    then have "ReadTxIndex s' = (ReadTxIndex s)(h \<mapsto> ti)"
      using txindex.unser_ser [OF i(2), of _ "[]"] i(1) by (auto simp: fun_eq_iff ReadTxIndex_kv tx_key_inject)
    with s' show ?thesis by blast
  qed
  show "\<exists>s'. EraseTxIndex h s = Some (True, s') \<and> db_inv s' \<and> ReadTxIndex s' = (ReadTxIndex s)(h := None)"
    if i: "db_inv s" for s h
  proof -
    obtain s' where s': "EraseTxIndex h s = Some (True, s')" "db_inv s'" "kv s' = (kv s)(tx_key h := None)"
      using db_Erase_kv [OF i] by (auto simp: EraseTxIndex_def)
    then have "ReadTxIndex s' = (ReadTxIndex s)(h := None)"
      using i by (auto simp: fun_eq_iff ReadTxIndex_kv tx_key_inject)
    with s' show ?thesis by blast
  qed
qed


section \<open>Properties\<close>

definition sample_db :: CTxDB where
  "sample_db = \<lparr> pdb = [[1] \<mapsto> [2]], pdb_ok = True, activeBatch = None, fReadOnly = False \<rparr>"

text \<open>
  C11: a database transaction.  After \<open>TxnBegin\<close> any sequence of writes and erasures succeeds; every read then gives what the same
  sequence makes of the map that was readable before, so a key has the value written last and an erased key has none, while the stored
  database is untouched.  \<open>TxnCommit\<close> stores exactly this map and changes no read, and \<open>TxnAbort\<close> restores the state before \<open>TxnBegin\<close>.
  The database answers its calls (\<open>db_inv\<close>) and no transaction is open before.
\<close>

theorem CTxDB_transaction:
  assumes "db_inv s" "activeBatch s = None"
  shows "\<exists>s0 s1 s2. TxnBegin s = Some (True, s0) \<and> run_calls calls s0 = Some (True, s1)
    \<and> db_Read s1 = effect calls (db_Read s) \<and> pdb s1 = pdb s
    \<and> TxnCommit s1 = Some (True, s2) \<and> pdb s2 = effect calls (pdb s) \<and> activeBatch s2 = None \<and> db_Read s2 = db_Read s1
    \<and> TxnAbort s1 = (True, s)"
proof -
  let ?s0 = "s\<lparr> activeBatch := Some [] \<rparr>"
  have "db_inv ?s0" using assms(1) by (simp add: db_inv_def)
  from run_calls_batch [OF this, of "[]" calls] obtain bops where
    r: "run_calls calls ?s0 = Some (True, s\<lparr> activeBatch := Some bops \<rparr>)" "fold apply_op bops (pdb s) = effect calls (pdb s)" by auto
  let ?s1 = "s\<lparr> activeBatch := Some bops \<rparr>" and ?s2 = "s\<lparr> pdb := effect calls (pdb s) \<rparr>"
  have ok: "pdb_ok s" using assms(1) by (simp add: db_inv_def)
  then have rd: "db_Read s = pdb s" "db_Read ?s1 = effect calls (pdb s)" "db_Read ?s2 = effect calls (pdb s)"
    using assms(2) r(2) by (simp_all add: fun_eq_iff db_Read_kv kv_def)
  have "TxnCommit ?s1 = Some (True, ?s2)" using ok r(2) assms(2) by (simp add: TxnCommit_def)
  then show ?thesis using r(1) rd assms(2)
    by (intro exI [of _ ?s0] exI [of _ ?s1] exI [of _ ?s2]) (simp add: TxnBegin_def TxnAbort_def)
qed

theorem CTxDB_transaction_witness:
  "\<exists>s1 s2. run_calls [CallErase [1], CallWrite [4] [5], CallWrite [4] [6]] (sample_db\<lparr> activeBatch := Some [] \<rparr>) = Some (True, s1)
     \<and> db_Read s1 [1] = None \<and> db_Read s1 [4] = Some [6] \<and> pdb s1 [1] = Some [2] \<and> TxnCommit s1 = Some (True, s2) \<and> pdb s2 = [[4] \<mapsto> [6]]"
proof -
  have "db_inv sample_db" "activeBatch sample_db = None" by (simp_all add: db_inv_def sample_db_def)
  from CTxDB_transaction [OF this, of "[CallErase [1], CallWrite [4] [5], CallWrite [4] [6]]"] obtain s1 s2 where
    "run_calls [CallErase [1], CallWrite [4] [5], CallWrite [4] [6]] (sample_db\<lparr> activeBatch := Some [] \<rparr>) = Some (True, s1)"
    "db_Read s1 [1] = None" "db_Read s1 [4] = Some [6]" "pdb s1 = pdb sample_db" "TxnCommit s1 = Some (True, s2)"
    "pdb s2 = effect [CallErase [1], CallWrite [4] [5], CallWrite [4] [6]] (pdb sample_db)"
    by (auto simp: TxnBegin_def \<open>activeBatch sample_db = None\<close>)
  then show ?thesis by (intro exI [of _ s1] exI [of _ s2]) (auto simp: sample_db_def fun_eq_iff)
qed

text \<open>
  C38: \<open>Exists\<close> does not see a deletion that is pending in the batch: right after the stored key was erased,
  \<open>Read\<close> finds nothing and \<open>Exists\<close> still answers true.
\<close>

theorem CTxDB_Exists_pending_delete:
  assumes "pdb s key \<noteq> None" "activeBatch s \<noteq> None" "db_Erase key s = Some (b, s')"
  shows "db_Read s' key = None \<and> db_Exists key s'"
proof -
  obtain bops where bops: "activeBatch s = Some bops" using assms(2) by auto
  then have s': "s' = s\<lparr> activeBatch := Some (bops @ [BDelete key]) \<rparr>"
    using assms(3) by (simp add: db_Erase_def split: if_splits)
  obtain f d v where "ScanBatch key bops = (f, d, v)" by (cases "ScanBatch key bops")
  then have "ScanBatch key (bops @ [BDelete key]) = (True, True, v)" by (simp add: ScanBatch_snoc)
  then show ?thesis using assms(1) by (simp add: s' db_Read_def db_Exists_def)
qed

theorem CTxDB_Exists_pending_delete_witness:
  "db_Exists [1] (sample_db\<lparr> activeBatch := Some [BDelete [1]] \<rparr>)"
  using CTxDB_Exists_pending_delete [of "sample_db\<lparr> activeBatch := Some [] \<rparr>" "[1]" True "sample_db\<lparr> activeBatch := Some [BDelete [1]] \<rparr>"]
  by (simp add: sample_db_def db_Erase_def)

end
