(* ===== verification/TxConnect.thy ===== *)
theory TxConnect
  imports TxDB
begin

text \<open>
  Connecting a transaction to the outputs it spends (\<open>main.cpp\<close>): \<open>FetchInputs\<close>, \<open>GetOutputFor\<close>, \<open>GetValueIn\<close>,
  \<open>GetP2SHSigOpCount\<close>, \<open>AreInputsStandard\<close>, \<open>ConnectInputs\<close>, \<open>DisconnectInputs\<close> and \<open>ClientConnectInputs\<close>.
  The database is used through its operations \<open>rd\<close>, \<open>up\<close>, \<open>er\<close>; \<open>disk\<close> is \<open>ReadFromDisk\<close> of a
  transaction and \<open>pool\<close> the look-up in the memory pool.  A failed assertion or an exception is
  \<open>Throw\<close>.
\<close>

type_synonym MapPrevTx = "uint256 \<rightharpoonup> CTxIndex \<times> CTransaction"
type_synonym TestPool = "(uint256 \<times> CTxIndex) list"

section \<open>Fetching inputs\<close>

definition pos_111 :: CDiskTxPos where
  "pos_111 = \<lparr> pos_nFile = 1, pos_nBlockPos = 1, pos_nTxPos = 1 \<rparr>"

definition fetch_one ::
  "(uint256 \<Rightarrow> CTxIndex option) \<Rightarrow> (CDiskTxPos \<Rightarrow> CTransaction option) \<Rightarrow> (uint256 \<Rightarrow> CTransaction option) \<Rightarrow> TestPool
   \<Rightarrow> bool \<Rightarrow> bool \<Rightarrow> uint256 \<Rightarrow> MapPrevTx \<Rightarrow> MapPrevTx checked" where
  "fetch_one rd disk pool mapTestPool fBlock fMiner h inputs =
     (if inputs h \<noteq> None then Inr inputs
      else case (if (fBlock \<or> fMiner) \<and> map_of mapTestPool h \<noteq> None then map_of mapTestPool h else rd h) of
        None \<Rightarrow>
          if fBlock \<or> fMiner then Inl (DoS 0 ''index entry not found'')
          else (case pool h of None \<Rightarrow> Inl (DoS 0 ''mempool Tx prev not found'')
                | Some txPrev \<Rightarrow> Inr (inputs(h \<mapsto> (CTxIndex_of CDiskTxPos_null (length (vout txPrev)), txPrev))))
      | Some txindex \<Rightarrow>
          if ti_pos txindex = pos_111
          then (case pool h of None \<Rightarrow> Inl (DoS 0 ''mempool Tx prev not found'')
                | Some txPrev \<Rightarrow> Inr (inputs(h \<mapsto> (txindex, txPrev))))
          else (case disk (ti_pos txindex) of None \<Rightarrow> Inl (DoS 0 ''ReadFromDisk prev tx failed'')
                | Some txPrev \<Rightarrow> Inr (inputs(h \<mapsto> (txindex, txPrev)))))"

fun fetch_all ::
  "(uint256 \<Rightarrow> MapPrevTx \<Rightarrow> MapPrevTx checked) \<Rightarrow> CTxIn list \<Rightarrow> MapPrevTx \<Rightarrow> MapPrevTx checked" where
  "fetch_all f [] inputs = Inr inputs"
| "fetch_all f (txin # r) inputs = bindr (f (op_hash (prevout txin)) inputs) (fetch_all f r)"

definition in_range :: "MapPrevTx \<Rightarrow> CTxIn \<Rightarrow> bool" where
  "in_range inputs txin = (case inputs (op_hash (prevout txin)) of None \<Rightarrow> False
     | Some (txindex, txPrev) \<Rightarrow> unat (op_n (prevout txin)) < length (vout txPrev) \<and> unat (op_n (prevout txin)) < length (vSpent txindex))"

text \<open>The second component of an error is \<open>fInvalid\<close>.\<close>

definition FetchInputs ::
  "(uint256 \<Rightarrow> CTxIndex option) \<Rightarrow> (CDiskTxPos \<Rightarrow> CTransaction option) \<Rightarrow> (uint256 \<Rightarrow> CTransaction option) \<Rightarrow> TestPool
   \<Rightarrow> bool \<Rightarrow> bool \<Rightarrow> CTransaction \<Rightarrow> verdict \<times> bool + MapPrevTx" where
  "FetchInputs rd disk pool mapTestPool fBlock fMiner tx =
     (if IsCoinBase tx then Inr Map.empty
      else case fetch_all (fetch_one rd disk pool mapTestPool fBlock fMiner) (vin tx) Map.empty of
        Inl v \<Rightarrow> Inl (v, False)
      | Inr inputs \<Rightarrow>
          if list_all (in_range inputs) (vin tx) then Inr inputs
          else Inl (DoS 100 ''prevout.n out of range'', True))"

definition GetOutputFor :: "CTxIn \<Rightarrow> MapPrevTx \<Rightarrow> CTxOut checked" where
  "GetOutputFor input inputs = (case inputs (op_hash (prevout input)) of
     None \<Rightarrow> Inl (Throw ''prevout.hash not found'')
   | Some (_, txPrev) \<Rightarrow>
       if unat (op_n (prevout input)) \<ge> length (vout txPrev) then Inl (Throw ''prevout.n out of range'')
       else Inr (vout txPrev ! unat (op_n (prevout input))))"

fun GetValueIn_loop :: "MapPrevTx \<Rightarrow> CTxIn list \<Rightarrow> i64 \<Rightarrow> i64 checked" where
  "GetValueIn_loop inputs [] nResult = Inr nResult"
| "GetValueIn_loop inputs (txin # r) nResult =
     bindr (GetOutputFor txin inputs) (\<lambda>out. GetValueIn_loop inputs r (nResult + nValue out))"

definition GetValueIn :: "MapPrevTx \<Rightarrow> CTransaction \<Rightarrow> i64 checked" where
  "GetValueIn inputs tx = (if IsCoinBase tx then Inr 0 else GetValueIn_loop inputs (vin tx) 0)"

fun P2SHSigOps_loop :: "MapPrevTx \<Rightarrow> CTxIn list \<Rightarrow> nat \<Rightarrow> nat checked" where
  "P2SHSigOps_loop inputs [] nSigOps = Inr nSigOps"
| "P2SHSigOps_loop inputs (txin # r) nSigOps =
     bindr (GetOutputFor txin inputs)
       (\<lambda>out. P2SHSigOps_loop inputs r
          (if IsPayToScriptHash (scriptPubKey out) then nSigOps + GetSigOpCount_P2SH (scriptPubKey out) (scriptSig txin) else nSigOps))"

definition GetP2SHSigOpCount :: "MapPrevTx \<Rightarrow> CTransaction \<Rightarrow> nat checked" where
  "GetP2SHSigOpCount inputs tx = (if IsCoinBase tx then Inr 0 else P2SHSigOps_loop inputs (vin tx) 0)"

definition input_standard :: "script_lib \<Rightarrow> CTransaction \<Rightarrow> nat \<Rightarrow> CTxIn \<Rightarrow> CTxOut \<Rightarrow> bool" where
  "input_standard E tx i txin prev =
     (case Solver (scriptPubKey prev) of (ok, whichType, vSolutions) \<Rightarrow>
        if \<not> ok then False
        else let nArgsExpected = ScriptSigArgsExpected whichType vSolutions in
        if nArgsExpected < 0 then False
        else case EvalScript E (CheckSig E tx i 0) [] (scriptSig txin) of None \<Rightarrow> False
        | Some stack \<Rightarrow>
            if whichType = TX_SCRIPTHASH then
              (case stack of [] \<Rightarrow> False
               | subscript # _ \<Rightarrow>
                   (case Solver subscript of (ok2, whichType2, vSolutions2) \<Rightarrow>
                      if \<not> ok2 then False
                      else if whichType2 = TX_SCRIPTHASH then False
                      else let tmpExpected = ScriptSigArgsExpected whichType2 vSolutions2 in
                           if tmpExpected < 0 then False else int (length stack) = nArgsExpected + tmpExpected))
            else int (length stack) = nArgsExpected)"

fun AreInputsStandard_loop :: "script_lib \<Rightarrow> MapPrevTx \<Rightarrow> CTransaction \<Rightarrow> nat \<Rightarrow> CTxIn list \<Rightarrow> bool checked" where
  "AreInputsStandard_loop E inputs tx i [] = Inr True"
| "AreInputsStandard_loop E inputs tx i (txin # r) =
     bindr (GetOutputFor txin inputs)
       (\<lambda>prev. if input_standard E tx i txin prev then AreInputsStandard_loop E inputs tx (Suc i) r else Inr False)"

definition AreInputsStandard :: "script_lib \<Rightarrow> MapPrevTx \<Rightarrow> CTransaction \<Rightarrow> bool checked" where
  "AreInputsStandard E inputs tx = (if IsCoinBase tx then Inr True else AreInputsStandard_loop E inputs tx 0 (vin tx))"

section \<open>Connecting inputs\<close>

text \<open>
  \<open>nCoinbaseMaturity\<close> blocks back from \<open>pindexBlock\<close>, no block may be the one that contains a coinbase or
  coinstake that is spent.
\<close>

definition immature :: "int \<Rightarrow> chain \<Rightarrow> CTxIndex \<Rightarrow> bool" where
  "immature maturity pindexBlock txindex =
     list_ex (\<lambda>pindex. nBlockPos pindex = pos_nBlockPos (ti_pos txindex) \<and> nFile pindex = pos_nFile (ti_pos txindex))
       (takeWhile (\<lambda>pindex. nHeight (hd pindexBlock) - nHeight pindex < maturity) pindexBlock)"

fun connect_check :: "int \<Rightarrow> chain \<Rightarrow> CTransaction \<Rightarrow> MapPrevTx \<Rightarrow> CTxIn list \<Rightarrow> i64 \<Rightarrow> i64 checked" where
  "connect_check maturity pindexBlock tx inputs [] nValueIn = Inr nValueIn"
| "connect_check maturity pindexBlock tx inputs (txin # r) nValueIn =
     (case inputs (op_hash (prevout txin)) of None \<Rightarrow> Inl (Throw ''assert inputs.count'')
      | Some (txindex, txPrev) \<Rightarrow>
          let n = unat (op_n (prevout txin)) in
          if n \<ge> length (vout txPrev) \<or> n \<ge> length (vSpent txindex) then Inl (DoS 100 ''prevout.n out of range'')
          else if (IsCoinBase txPrev \<or> IsCoinStake txPrev) \<and> immature maturity pindexBlock txindex
            then Inl (DoS 0 ''tried to spend coinbase or coinstake'')
          else if tx_nTime txPrev > tx_nTime tx then Inl (DoS 100 ''timestamp earlier than input transaction'')
          else let value = nValue (vout txPrev ! n); nValueIn' = nValueIn + value in
            if \<not> MoneyRange value \<or> \<not> MoneyRange nValueIn' then Inl (DoS 100 ''txin values out of range'')
            else connect_check maturity pindexBlock tx inputs r nValueIn')"

text \<open>
  The second loop.  It indexes \<open>vSpent\<close> without a check of its own: the first loop has made it.
  \<open>fVerify\<close> is the condition under which signatures are verified.
\<close>

fun connect_spend ::
  "script_lib \<Rightarrow> bool \<Rightarrow> bool \<Rightarrow> CDiskTxPos \<Rightarrow> CTransaction \<Rightarrow> CTxIn list \<Rightarrow> nat \<Rightarrow> MapPrevTx \<Rightarrow> TestPool \<Rightarrow> TestPool checked" where
  "connect_spend E fVerify fWrite posThisTx tx [] i inputs mapTestPool = Inr mapTestPool"
| "connect_spend E fVerify fWrite posThisTx tx (txin # r) i inputs mapTestPool =
     (case inputs (op_hash (prevout txin)) of None \<Rightarrow> Inl (Throw ''assert inputs.count'')
      | Some (txindex, txPrev) \<Rightarrow>
          let n = unat (op_n (prevout txin)) in
          if \<not> CDiskTxPos_IsNull (vSpent txindex ! n) then Inl (DoS 0 ''prev tx already used'')
          else if fVerify \<and> VerifySignature E txPrev tx i 0 \<noteq> Some True then Inl (DoS 100 ''VerifySignature failed'')
          else let txindex' = txindex\<lparr> vSpent := (vSpent txindex)[n := posThisTx] \<rparr> in
            connect_spend E fVerify fWrite posThisTx tx r (Suc i)
              (inputs(op_hash (prevout txin) \<mapsto> (txindex', txPrev)))
              (if fWrite then map_put (op_hash (prevout txin)) txindex' mapTestPool else mapTestPool))"

definition connect_fee :: "(byte list \<Rightarrow> byte list \<Rightarrow> byte list option) \<Rightarrow> bool \<Rightarrow> CTransaction \<Rightarrow> i64 \<Rightarrow> unit checked" where
  "connect_fee GetOp_mixed fBlock tx nValueIn = (case GetValueOut tx of
     None \<Rightarrow> Inl (Throw ''CTransaction::GetValueOut() : value out of range'')
   | Some nValueOut \<Rightarrow>
       if sint nValueIn < sint nValueOut then Inl (DoS 100 ''value in < value out'')
       else let nTxFee = nValueIn - nValueOut in
         if sint nTxFee < 0 then Inl (DoS 100 ''nTxFee < 0'')
         else if sint nTxFee < sint (GetMinFee GetOp_mixed tx 1 GMF_BLOCK 0)
           then Inl (DoS (if fBlock then 100 else 0) ''not paying required fee'')
         else if \<not> MoneyRange nTxFee then Inl (DoS 100 ''nFees out of range'')
         else Inr ())"

record connect_env =
  ce_lib :: script_lib
  ce_mixed :: "byte list \<Rightarrow> byte list \<Rightarrow> byte list option"
  ce_maturity :: int
  ce_skip_sigs :: bool

text \<open>
  \<open>ce_skip_sigs\<close> is \<open>nBestHeight < Checkpoints::GetTotalBlocksEstimate()\<close>: signatures of old blocks are not
  verified again.
\<close>

definition ConnectInputs ::
  "connect_env \<Rightarrow> MapPrevTx \<Rightarrow> TestPool \<Rightarrow> CDiskTxPos \<Rightarrow> chain \<Rightarrow> bool \<Rightarrow> bool \<Rightarrow> CTransaction \<Rightarrow> TestPool checked" where
  "ConnectInputs ce inputs mapTestPool posThisTx pindexBlock fBlock fMiner tx =
     (if IsCoinBase tx then Inr mapTestPool
      else bindr (connect_check (ce_maturity ce) pindexBlock tx inputs (vin tx) 0) (\<lambda>nValueIn.
           bindr (connect_spend (ce_lib ce) (\<not> (fBlock \<and> ce_skip_sigs ce)) (fBlock \<or> fMiner) posThisTx tx (vin tx) 0 inputs mapTestPool)
             (\<lambda>mapTestPool'.
           if IsCoinStake tx then Inr mapTestPool'
           else bindr (connect_fee (ce_mixed ce) fBlock tx nValueIn) (\<lambda>_. Inr mapTestPool'))))"

section \<open>Disconnecting inputs\<close>

fun disconnect_loop ::
  "('db \<Rightarrow> uint256 \<Rightarrow> CTxIndex option) \<Rightarrow> (uint256 \<Rightarrow> CTxIndex \<Rightarrow> 'db \<Rightarrow> (bool \<times> 'db) option) \<Rightarrow> CTxIn list \<Rightarrow> 'db \<Rightarrow> 'db checked" where
  "disconnect_loop rd up [] db = Inr db"
| "disconnect_loop rd up (txin # r) db =
     (case rd db (op_hash (prevout txin)) of None \<Rightarrow> Inl (DoS 0 ''ReadTxIndex failed'')
      | Some txindex \<Rightarrow>
          let n = unat (op_n (prevout txin)) in
          if n \<ge> length (vSpent txindex) then Inl (DoS 0 ''prevout.n out of range'')
          else case up (op_hash (prevout txin)) (txindex\<lparr> vSpent := (vSpent txindex)[n := CDiskTxPos_null] \<rparr>) db of
            None \<Rightarrow> Inl (Throw ''assert'')
          | Some (b, db') \<Rightarrow> if b then disconnect_loop rd up r db' else Inl (DoS 0 ''UpdateTxIndex failed''))"

text \<open>The result of \<open>EraseTxIndex\<close> is ignored.\<close>

definition DisconnectInputs ::
  "hash_lib \<Rightarrow> ('db \<Rightarrow> uint256 \<Rightarrow> CTxIndex option) \<Rightarrow> (uint256 \<Rightarrow> CTxIndex \<Rightarrow> 'db \<Rightarrow> (bool \<times> 'db) option)
   \<Rightarrow> (uint256 \<Rightarrow> 'db \<Rightarrow> (bool \<times> 'db) option) \<Rightarrow> CTransaction \<Rightarrow> 'db \<Rightarrow> 'db checked" where
  "DisconnectInputs H rd up er tx db =
     bindr (if IsCoinBase tx then Inr db else disconnect_loop rd up (vin tx) db)
       (\<lambda>db'. case er (GetHash H tx) db' of None \<Rightarrow> Inl (Throw ''assert'') | Some (_, db'') \<Rightarrow> Inr db'')"

section \<open>Clients\<close>

fun client_loop :: "script_lib \<Rightarrow> (uint256 \<Rightarrow> CTransaction option) \<Rightarrow> CTransaction \<Rightarrow> nat \<Rightarrow> CTxIn list \<Rightarrow> i64 \<Rightarrow> i64 option" where
  "client_loop E pool tx i [] nValueIn = Some nValueIn"
| "client_loop E pool tx i (txin # r) nValueIn =
     (case pool (op_hash (prevout txin)) of None \<Rightarrow> None
      | Some txPrev \<Rightarrow>
          let n = unat (op_n (prevout txin)) in
          if n \<ge> length (vout txPrev) then None
          else if VerifySignature E txPrev tx i 0 \<noteq> Some True then None
          else let value = nValue (vout txPrev ! n); nValueIn' = nValueIn + value in
            if \<not> MoneyRange value \<or> \<not> MoneyRange nValueIn' then None
            else client_loop E pool tx (Suc i) r nValueIn')"

definition ClientConnectInputs :: "script_lib \<Rightarrow> (uint256 \<Rightarrow> CTransaction option) \<Rightarrow> CTransaction \<Rightarrow> bool checked" where
  "ClientConnectInputs E pool tx =
     (if IsCoinBase tx then Inr False
      else case client_loop E pool tx 0 (vin tx) 0 of None \<Rightarrow> Inr False
      | Some nValueIn \<Rightarrow> (case GetValueOut tx of
          None \<Rightarrow> Inl (Throw ''CTransaction::GetValueOut() : value out of range'')
        | Some nValueOut \<Rightarrow> Inr (\<not> sint nValueOut > sint nValueIn)))"



section \<open>The ledger\<close>

text \<open>
  Seen from outside, the index is a map from transactions to the marks on their outputs; connecting an
  input sets one mark and disconnecting it clears the mark.
\<close>

type_synonym ledger = "uint256 \<rightharpoonup> CTxIndex"

definition spend :: "CDiskTxPos \<Rightarrow> COutPoint \<Rightarrow> ledger \<Rightarrow> ledger" where
  "spend p out V = (case V (op_hash out) of None \<Rightarrow> V
     | Some ti \<Rightarrow> V(op_hash out \<mapsto> ti\<lparr> vSpent := (vSpent ti)[unat (op_n out) := p] \<rparr>))"

definition has_output :: "ledger \<Rightarrow> COutPoint \<Rightarrow> bool" where
  "has_output V out = (case V (op_hash out) of None \<Rightarrow> False | Some ti \<Rightarrow> unat (op_n out) < length (vSpent ti))"

definition mark :: "ledger \<Rightarrow> COutPoint \<Rightarrow> CDiskTxPos" where
  "mark V out = vSpent (the (V (op_hash out))) ! unat (op_n out)"

definition unspent :: "ledger \<Rightarrow> COutPoint \<Rightarrow> bool" where
  "unspent V out \<longleftrightarrow> has_output V out \<and> CDiskTxPos_IsNull (mark V out)"

lemma has_output_spend [simp]: "has_output (spend p a V) b = has_output V b"
  by (auto simp: has_output_def spend_def split: option.splits)

lemma outpoint_eqI: "op_hash a = op_hash b \<Longrightarrow> unat (op_n a) = unat (op_n b) \<Longrightarrow> a = (b :: COutPoint)"
  by (simp add: word_unat_eq_iff)

lemma mark_spend_same: "has_output V a \<Longrightarrow> mark (spend p a V) a = p"
  by (auto simp: mark_def has_output_def spend_def split: option.splits)

lemma mark_spend_other: "a \<noteq> b \<Longrightarrow> mark (spend p a V) b = mark V b"
proof (cases "op_hash a = op_hash b")
  case True
  moreover assume "a \<noteq> b"
  ultimately have "unat (op_n a) \<noteq> unat (op_n b)" using outpoint_eqI by blast
  then show ?thesis using True by (auto simp: mark_def spend_def split: option.splits)
qed (auto simp: mark_def spend_def split: option.splits)

lemma unspent_spend_other: "a \<noteq> b \<Longrightarrow> unspent (spend p a V) b = unspent V b"
  by (simp add: unspent_def mark_spend_other)

lemma list_unspent_spend: "a \<notin> set outs \<Longrightarrow> list_all (unspent (spend p a V)) outs = list_all (unspent V) outs"
  by (induction outs) (auto simp: unspent_spend_other)

lemma spend_commute: "a \<noteq> b \<Longrightarrow> spend p a (spend q b V) = spend q b (spend p a V)"
proof (cases "op_hash a = op_hash b")
  case True
  moreover assume "a \<noteq> b"
  ultimately have "unat (op_n a) \<noteq> unat (op_n b)" using outpoint_eqI by blast
  then show ?thesis using True by (auto simp: spend_def list_update_swap split: option.splits)
qed (auto simp: spend_def fun_upd_twist split: option.splits)

lemma spend_fold_commute: "a \<notin> set outs \<Longrightarrow> spend p a (fold (spend q) outs V) = fold (spend q) outs (spend p a V)"
  by (induction outs arbitrary: V) (auto simp: spend_commute)

lemma unspend_spend: "has_output V a \<Longrightarrow> spend (mark V a) a (spend p a V) = V"
  by (auto simp: spend_def has_output_def mark_def fun_eq_iff split: option.splits)

lemma mark_fold_other: "a \<notin> set outs \<Longrightarrow> mark (fold (spend p) outs V) a = mark V a"
  by (induction outs arbitrary: V) (auto simp: mark_spend_other)

lemma has_output_fold [simp]: "has_output (fold (spend p) outs V) a = has_output V a"
  by (induction outs arbitrary: V) auto

text \<open>Clearing the marks of distinct outputs whose marks were clear restores the ledger.\<close>

lemma unspend_fold:
  assumes "distinct outs" "\<And>a. a \<in> set outs \<Longrightarrow> has_output V a \<and> mark V a = q"
  shows "fold (spend q) outs (fold (spend p) outs V) = V"
  using assms
proof (induction outs arbitrary: V)
  case (Cons a outs)
  have "spend q a (fold (spend p) outs (spend p a V)) = fold (spend p) outs V"
    using Cons.prems unspend_spend [of V a p] by (simp add: spend_fold_commute)
  then show ?case using Cons by simp
qed simp

lemma spend_None: "op_hash a \<noteq> h \<Longrightarrow> spend p a V h = V h"
  by (auto simp: spend_def split: option.splits)

lemma fold_spend_other: "h \<notin> op_hash ` set outs \<Longrightarrow> fold (spend p) outs V h = V h"
  by (induction outs arbitrary: V) (auto simp: spend_None)

lemma spend_upd_other: "op_hash a \<noteq> h \<Longrightarrow> spend p a (V(h := x)) = (spend p a V)(h := x)"
  by (auto simp: spend_def fun_upd_twist split: option.splits)

lemma fold_spend_upd_other: "h \<notin> op_hash ` set outs \<Longrightarrow> fold (spend p) outs (V(h := x)) = (fold (spend p) outs V)(h := x)"
  by (induction outs arbitrary: V) (auto simp: spend_upd_other)

section \<open>Fetching and spending\<close>

lemma fetch_one_cases:
  assumes "fetch_one rd disk pool tp True fMiner h inputs = Inr inputs'"
  shows "inputs' = inputs \<or> (\<exists>ti tx. inputs' = inputs(h \<mapsto> (ti, tx)) \<and> (rd ++ map_of tp) h = Some ti)"
  using assms by (auto simp: fetch_one_def map_add_def split: if_splits option.splits)

lemma fetch_one_view:
  assumes "fetch_one rd disk pool tp True fMiner h inputs = Inr inputs'"
    "\<And>k ti tx. inputs k = Some (ti, tx) \<Longrightarrow> (rd ++ map_of tp) k = Some ti"
    "inputs' k = Some (ti, tx)"
  shows "(rd ++ map_of tp) k = Some ti"
  using fetch_one_cases [OF assms(1)]
proof (elim disjE exE conjE)
  fix t x
  assume "inputs' = inputs(h \<mapsto> (t, x))" "(rd ++ map_of tp) h = Some t"
  then show ?thesis using assms(2) [of k] assms(3) by (cases "k = h") simp_all
qed (use assms(2,3) in simp)

lemma fetch_all_view:
  assumes "fetch_all (fetch_one rd disk pool tp True fMiner) txins inputs = Inr inputs'"
    "\<And>k ti tx. inputs k = Some (ti, tx) \<Longrightarrow> (rd ++ map_of tp) k = Some ti"
    "inputs' k = Some (ti, tx)"
  shows "(rd ++ map_of tp) k = Some ti"
  using assms
proof (induction txins arbitrary: inputs)
  case (Cons txin r)
  then obtain i1 where i1: "fetch_one rd disk pool tp True fMiner (op_hash (prevout txin)) inputs = Inr i1"
    "fetch_all (fetch_one rd disk pool tp True fMiner) r i1 = Inr inputs'"
    by (auto simp: bindr_Inr)
  show ?case
  proof (rule Cons.IH [OF i1(2) _ Cons.prems(3)])
    show "(rd ++ map_of tp) k = Some ti" if "i1 k = Some (ti, tx)" for k ti tx
      by (rule fetch_one_view [OF i1(1) _ that]) (rule Cons.prems(2))
  qed
qed simp

lemma FetchInputs_view:
  assumes "FetchInputs rd disk pool tp True fMiner tx = Inr inputs" "\<not> IsCoinBase tx"
  shows "\<And>k ti txp. inputs k = Some (ti, txp) \<Longrightarrow> (rd ++ map_of tp) k = Some ti"
    and "list_all (in_range inputs) (vin tx)"
  using assms by (auto simp: FetchInputs_def split: sum.splits if_splits dest: fetch_all_view)

lemma in_range_upd:
  "in_range inputs txin \<Longrightarrow> inputs h = Some (ti, tp) \<Longrightarrow> in_range (inputs(h \<mapsto> (ti\<lparr> vSpent := (vSpent ti)[n := p] \<rparr>, tp))) txin"
  by (auto simp: in_range_def)

lemma connect_spend_view:
  assumes "connect_spend E fVerify True posThisTx tx txins i inputs tp = Inr tp'"
    "\<And>k ti txp. inputs k = Some (ti, txp) \<Longrightarrow> (rd ++ map_of tp) k = Some ti"
    "list_all (in_range inputs) txins" "\<not> CDiskTxPos_IsNull posThisTx"
  shows "distinct (map prevout txins) \<and> list_all (unspent (rd ++ map_of tp)) (map prevout txins)
    \<and> rd ++ map_of tp' = fold (spend posThisTx) (map prevout txins) (rd ++ map_of tp)"
  using assms
proof (induction txins arbitrary: i inputs tp)
  case (Cons txin r)
  let ?h = "op_hash (prevout txin)" and ?n = "unat (op_n (prevout txin))" and ?V = "rd ++ map_of tp"
  obtain ti txp where ti: "inputs ?h = Some (ti, txp)" using Cons.prems(1) by (auto split: option.splits)
  define ti' where "ti' = ti\<lparr> vSpent := (vSpent ti)[?n := posThisTx] \<rparr>"
  have V: "?V ?h = Some ti" "?n < length (vSpent ti)"
    using Cons.prems(2) [OF ti] Cons.prems(3) ti by (auto simp: in_range_def)
  have null: "CDiskTxPos_IsNull (vSpent ti ! ?n)"
    and rest: "connect_spend E fVerify True posThisTx tx r (Suc i) (inputs(?h \<mapsto> (ti', txp))) (map_put ?h ti' tp) = Inr tp'"
    using Cons.prems(1) ti by (auto simp: Let_def ti'_def split: if_splits)
  have V': "rd ++ map_of (map_put ?h ti' tp) = spend posThisTx (prevout txin) ?V"
    using V(1) by (simp add: spend_def ti'_def)
  have here: "unspent ?V (prevout txin)"
    using V null by (simp add: unspent_def has_output_def mark_def)
  have "distinct (map prevout r) \<and> list_all (unspent (spend posThisTx (prevout txin) ?V)) (map prevout r)
    \<and> rd ++ map_of tp' = fold (spend posThisTx) (map prevout r) (spend posThisTx (prevout txin) ?V)"
  proof (unfold V' [symmetric], rule Cons.IH [OF rest])
    show "(rd ++ map_of (map_put ?h ti' tp)) k = Some t" if "(inputs(?h \<mapsto> (ti', txp))) k = Some (t, x)" for k t x
      using that Cons.prems(2) by (auto simp: map_add_def split: if_splits)
    show "list_all (in_range (inputs(?h \<mapsto> (ti', txp)))) r"
      using Cons.prems(3) ti by (auto simp: list_all_iff ti'_def intro: in_range_upd)
  qed (rule Cons.prems(4))
  moreover have "\<not> unspent (spend posThisTx (prevout txin) ?V) (prevout txin)"
    using here Cons.prems(4) by (simp add: unspent_def mark_spend_same)
  moreover have "unspent ?V a" if "unspent (spend posThisTx (prevout txin) ?V) a" "a \<noteq> prevout txin" for a
    using that mark_spend_other [of "prevout txin" a] by (simp add: unspent_def)
  ultimately show ?case using here by (auto simp: list_all_iff) metis
qed simp



lemma ConnectInputs_block_view:
  assumes "FetchInputs rd disk pool tp True fMiner tx = Inr inputs"
    "ConnectInputs ce inputs tp posThisTx pindexBlock True fMiner tx = Inr tp'"
    "\<not> IsCoinBase tx" "\<not> CDiskTxPos_IsNull posThisTx"
  shows "distinct (map prevout (vin tx)) \<and> list_all (unspent (rd ++ map_of tp)) (map prevout (vin tx))
    \<and> rd ++ map_of tp' = fold (spend posThisTx) (map prevout (vin tx)) (rd ++ map_of tp)"
proof -
  obtain fVerify where "connect_spend (ce_lib ce) fVerify True posThisTx tx (vin tx) 0 inputs tp = Inr tp'"
    using assms(2,3) by (auto simp: ConnectInputs_def bindr_Inr split: if_splits)
  then show ?thesis
    by (rule connect_spend_view) (use FetchInputs_view [OF assms(1,3)] assms(4) in auto)
qed

section \<open>Values\<close>

definition input_value :: "MapPrevTx \<Rightarrow> CTxIn \<Rightarrow> int" where
  "input_value inputs txin = (case inputs (op_hash (prevout txin)) of None \<Rightarrow> 0
     | Some (ti, txPrev) \<Rightarrow> sint (nValue (vout txPrev ! unat (op_n (prevout txin)))))"

definition values_in :: "MapPrevTx \<Rightarrow> CTransaction \<Rightarrow> int" where
  "values_in inputs tx = sum_list (map (input_value inputs) (vin tx))"

lemma connect_check_sum:
  assumes "connect_check maturity pindexBlock tx inputs txins v0 = Inr v" "MoneyRange v0"
  shows "MoneyRange v \<and> sint v = sint v0 + sum_list (map (input_value inputs) txins)"
  using assms
proof (induction txins arbitrary: v0)
  case (Cons txin r)
  obtain ti txp where ti: "inputs (op_hash (prevout txin)) = Some (ti, txp)" using Cons.prems(1) by (auto split: option.splits)
  define amt where "amt = nValue (vout txp ! unat (op_n (prevout txin)))"
  have rest: "connect_check maturity pindexBlock tx inputs r (v0 + amt) = Inr v" "MoneyRange amt" "MoneyRange (v0 + amt)"
    using Cons.prems(1) ti by (auto simp: Let_def amt_def split: if_splits)
  have "sint (v0 + amt) = sint v0 + sint amt" using MoneyRange_add [OF Cons.prems(2) rest(2)] by simp
  then show ?case using Cons.IH [OF rest(1,3)] ti by (simp add: input_value_def amt_def)
qed simp

lemma connect_check_mature:
  assumes "connect_check maturity pindexBlock tx inputs txins v0 = Inr v" "txin \<in> set txins"
  obtains ti txp where "inputs (op_hash (prevout txin)) = Some (ti, txp)" "tx_nTime txp \<le> tx_nTime tx"
    "(IsCoinBase txp \<or> IsCoinStake txp) \<Longrightarrow> \<not> immature maturity pindexBlock ti"
proof -
  have "\<exists>ti txp. inputs (op_hash (prevout txin)) = Some (ti, txp) \<and> tx_nTime txp \<le> tx_nTime tx
    \<and> ((IsCoinBase txp \<or> IsCoinStake txp) \<longrightarrow> \<not> immature maturity pindexBlock ti)"
    using assms
  proof (induction txins arbitrary: v0)
    case (Cons t r)
    obtain ti txp where ti: "inputs (op_hash (prevout t)) = Some (ti, txp)" using Cons.prems(1) by (auto split: option.splits)
    then have "tx_nTime txp \<le> tx_nTime tx" "(IsCoinBase txp \<or> IsCoinStake txp) \<longrightarrow> \<not> immature maturity pindexBlock ti"
      "\<exists>v1. connect_check maturity pindexBlock tx inputs r v1 = Inr v"
      using Cons.prems(1) by (auto simp: Let_def not_less split: if_splits)
    then show ?case using Cons.IH Cons.prems(2) ti by auto
  qed simp
  then show thesis using that by blast
qed

lemma connect_fee_sum:
  assumes "connect_fee m fBlock tx nValueIn = Inr u" "MoneyRange nValueIn"
  shows "value_sum (vout tx) + sint (GetMinFee m tx 1 GMF_BLOCK 0) \<le> sint nValueIn"
proof -
  obtain v where v: "GetValueOut tx = Some v" "sint v \<le> sint nValueIn"
    "sint (GetMinFee m tx 1 GMF_BLOCK 0) \<le> sint (nValueIn - v)"
    using assms(1) by (auto simp: connect_fee_def Let_def split: option.splits if_splits)
  have sv: "sint v = value_sum (vout tx)" "0 \<le> value_sum (vout tx)"
    using v(1) value_sum_nonneg by (auto simp: GetValueOut_iff)
  have "sint (nValueIn - v) = sint nValueIn - sint v"
    by (rule sint_diff_in_range) (use sv v(2) assms(2) in \<open>auto simp: MoneyRange_def\<close>)
  then show ?thesis using v(3) sv(1) by simp
qed



section \<open>Disconnecting restores the ledger\<close>

context tx_store
begin

lemma disconnect_loop_view:
  "inv db \<Longrightarrow> list_all (has_output (rd db)) (map prevout txins) \<Longrightarrow>
   \<exists>db'. disconnect_loop rd up txins db = Inr db' \<and> inv db' \<and> rd db' = fold (spend CDiskTxPos_null) (map prevout txins) (rd db)"
proof (induction txins arbitrary: db)
  case (Cons txin r)
  let ?h = "op_hash (prevout txin)" and ?n = "unat (op_n (prevout txin))"
  obtain ti where ti: "rd db ?h = Some ti" "?n < length (vSpent ti)"
    using Cons.prems(2) by (auto simp: has_output_def split: option.splits)
  let ?ti = "ti\<lparr> vSpent := (vSpent ti)[?n := CDiskTxPos_null] \<rparr>"
  have "ok_CTxIndex ?ti" using rd_ok [OF ti(1)] by (simp add: ok_CTxIndex_def)
  from up_rd [OF Cons.prems(1) this, of ?h] obtain db1
    where db1: "up ?h ?ti db = Some (True, db1)" "inv db1" "rd db1 = (rd db)(?h \<mapsto> ?ti)" by blast
  have view: "rd db1 = spend CDiskTxPos_null (prevout txin) (rd db)" using ti db1(3) by (simp add: spend_def)
  obtain db' where db': "disconnect_loop rd up r db1 = Inr db'" "inv db'"
    "rd db' = fold (spend CDiskTxPos_null) (map prevout r) (rd db1)"
    using Cons.IH [OF db1(2)] Cons.prems(2) by (auto simp: view list_all_iff)
  have "disconnect_loop rd up (txin # r) db = Inr db'" using ti db1(1) db'(1) by (simp add: Let_def)
  then show ?case using db'(2,3) by (simp add: view)
qed simp

lemma DisconnectInputs_view:
  assumes "inv db" "\<not> IsCoinBase tx \<Longrightarrow> list_all (has_output (rd db)) (map prevout (vin tx))"
  shows "\<exists>db'. DisconnectInputs H rd up er tx db = Inr db' \<and> inv db'
    \<and> rd db' = (if IsCoinBase tx then rd db else fold (spend CDiskTxPos_null) (map prevout (vin tx)) (rd db))(GetHash H tx := None)"
proof -
  obtain db1 where db1: "(if IsCoinBase tx then Inr db else disconnect_loop rd up (vin tx) db) = Inr db1" "inv db1"
    "rd db1 = (if IsCoinBase tx then rd db else fold (spend CDiskTxPos_null) (map prevout (vin tx)) (rd db))"
    using disconnect_loop_view [OF assms(1), of "vin tx"] assms by (cases "IsCoinBase tx") auto
  from er_rd [OF db1(2)] obtain db' where "er (GetHash H tx) db1 = Some (True, db')" "inv db'" "rd db' = (rd db1)(GetHash H tx := None)"
    by blast
  then show ?thesis using db1 by (simp add: DisconnectInputs_def)
qed

end

section \<open>Properties\<close>

text \<open>
  C9: when \<open>FetchInputs\<close> and \<open>ConnectInputs\<close> accept a transaction of a block, its inputs are distinct outputs that
  were unspent in the index with the queued changes of the block, and the queued changes afterwards mark
  exactly these outputs as spent by it: no output is spent twice.
\<close>

theorem ConnectInputs_no_double_spend:
  assumes "FetchInputs rd disk pool tp True fMiner tx = Inr inputs"
    "ConnectInputs ce inputs tp posThisTx pindexBlock True fMiner tx = Inr tp'"
    "\<not> IsCoinBase tx" "\<not> CDiskTxPos_IsNull posThisTx"
  shows "distinct (map prevout (vin tx)) \<and> list_all (unspent (rd ++ map_of tp)) (map prevout (vin tx))
    \<and> list_all (\<lambda>out. \<not> unspent (rd ++ map_of tp') out) (map prevout (vin tx))
    \<and> rd ++ map_of tp' = fold (spend posThisTx) (map prevout (vin tx)) (rd ++ map_of tp)"
proof -
  note v = ConnectInputs_block_view [OF assms]
  have "\<not> unspent (fold (spend posThisTx) outs V) a"
    if "a \<in> set outs" "list_all (unspent V) outs" "distinct outs" for outs V a
    using that
  proof (induction outs arbitrary: V)
    case (Cons b outs)
    then show ?case
    proof (cases "a = b")
      case True
      then show ?thesis using Cons.prems assms(4) by (simp add: unspent_def mark_fold_other mark_spend_same)
    next
      case False
      have "list_all (unspent (spend posThisTx b V)) outs"
        using Cons.prems by (simp add: list_unspent_spend)
      then show ?thesis using False Cons by simp
    qed
  qed simp
  then have "list_all (\<lambda>out. \<not> unspent (rd ++ map_of tp') out) (map prevout (vin tx))"
    using v by (auto simp: list_all_iff)
  then show ?thesis using v by blast
qed

text \<open>
  C10: a transaction that \<open>ConnectInputs\<close> accepts and that mints nothing pays, out of inputs whose values are
  money, its outputs and at least the minimum fee, and spends no output younger than itself or an
  immature coinbase or coinstake.
\<close>

theorem ConnectInputs_value:
  assumes "ConnectInputs ce inputs tp posThisTx pindexBlock fBlock fMiner tx = Inr tp'"
    "\<not> IsCoinBase tx" "\<not> IsCoinStake tx"
  shows "value_sum (vout tx) + sint (GetMinFee (ce_mixed ce) tx 1 GMF_BLOCK 0) \<le> values_in inputs tx
    \<and> values_in inputs tx \<le> MAX_MONEY
    \<and> list_all (\<lambda>txin. \<exists>ti txp. inputs (op_hash (prevout txin)) = Some (ti, txp) \<and> tx_nTime txp \<le> tx_nTime tx
         \<and> \<not> ((IsCoinBase txp \<or> IsCoinStake txp) \<and> immature (ce_maturity ce) pindexBlock ti)) (vin tx)"
proof (intro conjI)
  obtain v where v: "connect_check (ce_maturity ce) pindexBlock tx inputs (vin tx) 0 = Inr v"
    "connect_fee (ce_mixed ce) fBlock tx v = Inr ()"
    using assms by (auto simp: ConnectInputs_def bindr_Inr)
  have sum: "MoneyRange v" "sint v = values_in inputs tx"
    using connect_check_sum [OF v(1)] MoneyRange_0 by (simp_all add: values_in_def)
  show "value_sum (vout tx) + sint (GetMinFee (ce_mixed ce) tx 1 GMF_BLOCK 0) \<le> values_in inputs tx"
    using connect_fee_sum [OF v(2) sum(1)] sum(2) by simp
  show "values_in inputs tx \<le> MAX_MONEY" using sum by (simp add: MoneyRange_def)
  show "list_all (\<lambda>txin. \<exists>ti txp. inputs (op_hash (prevout txin)) = Some (ti, txp) \<and> tx_nTime txp \<le> tx_nTime tx
         \<and> \<not> ((IsCoinBase txp \<or> IsCoinStake txp) \<and> immature (ce_maturity ce) pindexBlock ti)) (vin tx)"
    using connect_check_mature [OF v(1)] by (auto simp: list_all_iff) metis
qed


section \<open>Instances\<close>

definition sample_prev :: CTransaction where
  "sample_prev = sample_tx\<lparr> tx_nTime := 1442210000, vout := [\<lparr> nValue = 1, scriptPubKey = [0x51] \<rparr>, \<lparr> nValue = 100000, scriptPubKey = [0x51] \<rparr>] \<rparr>"

definition sample_env :: connect_env where
  "sample_env = \<lparr> ce_lib = sample_lib, ce_mixed = (\<lambda>_ _. None), ce_maturity = 120, ce_skip_sigs = True \<rparr>"

definition sample_ledger :: ledger where
  "sample_ledger = [7 \<mapsto> CTxIndex_of \<lparr> pos_nFile = 1, pos_nBlockPos = 5, pos_nTxPos = 9 \<rparr> 2]"

definition sample_pos :: CDiskTxPos where
  "sample_pos = \<lparr> pos_nFile = 1, pos_nBlockPos = 90, pos_nTxPos = 99 \<rparr>"

definition sample_fetch :: "verdict \<times> bool + MapPrevTx" where
  "sample_fetch = FetchInputs sample_ledger (\<lambda>_. Some sample_prev) (\<lambda>_. None) [] True False sample_tx"

lemma sample_tx_sel:
  "vin sample_tx = [\<lparr> prevout = \<lparr> op_hash = 7, op_n = 1 \<rparr>, scriptSig = [1, 5], nSequence = 0xffffffff \<rparr>]"
  "vout sample_tx = [\<lparr> nValue = 5000, scriptPubKey = [0x51] \<rparr>]" "tx_nTime sample_tx = 1442210400"
  by (simp_all add: sample_tx_def)

lemma sample_prev_sel:
  "vout sample_prev = [\<lparr> nValue = 1, scriptPubKey = [0x51] \<rparr>, \<lparr> nValue = 100000, scriptPubKey = [0x51] \<rparr>]"
  "vin sample_prev = vin sample_tx" "tx_nTime sample_prev = 1442210000"
  by (simp_all add: sample_prev_def)

lemma sample_plain:
  "\<not> IsCoinBase sample_tx" "\<not> IsCoinStake sample_tx" "\<not> IsCoinBase sample_prev" "\<not> IsCoinStake sample_prev"
  by (simp_all add: IsCoinBase_def IsCoinStake_def sample_tx_sel sample_prev_sel COutPoint_IsNull_def CTxOut_IsEmpty_def)

lemma replicate_2: "replicate 2 x = [x, x]"
  by (simp add: numeral_2_eq_2)

lemmas sample_simps = sample_tx_sel sample_prev_sel sample_plain CTxIndex_of_def replicate_2 MoneyRange_def
  CDiskTxPos_IsNull_def CDiskTxPos_null_def Let_def

lemma sample_values: "GetValueOut sample_tx = Some 5000" "GetMinFee (\<lambda>_ _. None) sample_tx 1 GMF_BLOCK 0 = 82500"
  by (simp add: GetValueOut_def sample_simps) code_simp

lemma sample_connects:
  "sample_fetch = Inr [7 \<mapsto> (CTxIndex_of \<lparr> pos_nFile = 1, pos_nBlockPos = 5, pos_nTxPos = 9 \<rparr> 2, sample_prev)]"
  "\<exists>tp. ConnectInputs sample_env (projr sample_fetch) [] sample_pos sample_chain True False sample_tx = Inr tp"
proof -
  show f: "sample_fetch = Inr [7 \<mapsto> (CTxIndex_of \<lparr> pos_nFile = 1, pos_nBlockPos = 5, pos_nTxPos = 9 \<rparr> 2, sample_prev)]"
    by (simp add: sample_fetch_def FetchInputs_def fetch_one_def sample_ledger_def in_range_def pos_111_def sample_simps)
  show "\<exists>tp. ConnectInputs sample_env (projr sample_fetch) [] sample_pos sample_chain True False sample_tx = Inr tp"
    by (simp add: ConnectInputs_def f sample_env_def connect_fee_def sample_values sample_simps)
qed

theorem ConnectInputs_no_double_spend_witness:
  "unspent (sample_ledger ++ map_of []) \<lparr> op_hash = 7, op_n = 1 \<rparr>"
proof -
  have "\<not> CDiskTxPos_IsNull sample_pos" by (simp add: CDiskTxPos_IsNull_def sample_pos_def)
  moreover have "sample_fetch = Inr (projr sample_fetch)" by (simp add: sample_connects(1))
  ultimately show ?thesis
    using ConnectInputs_no_double_spend [OF _ _ sample_plain(1), of sample_ledger "\<lambda>_. Some sample_prev" "\<lambda>_. None" "[]" False
        "projr sample_fetch" sample_env sample_pos sample_chain] sample_connects(2)
    by (auto simp: sample_fetch_def sample_tx_sel)
qed

theorem ConnectInputs_value_witness: "87500 \<le> values_in (projr sample_fetch) sample_tx"
  using ConnectInputs_value [OF _ sample_plain(1,2), of sample_env "projr sample_fetch" "[]" sample_pos sample_chain True False]
    sample_connects(2) sample_values(2)
  by (auto simp: sample_env_def value_sum_def sample_tx_sel)

end
