(* ===== verification/Base58.thy ===== *)
theory Base58
  imports Uint256 ScriptEval
begin

text \<open>
  Base-58 text (\<open>base58.h\<close>): \<open>EncodeBase58\<close>, \<open>DecodeBase58\<close>, the variants with a checksum, \<open>CBase58Data\<close>, and the
  addresses and secret keys built on it.  A C string is a list of characters without \<open>NUL\<close>; the digits of
  big numbers are those of \<open>BN_div\<close> on non-negative numbers.
\<close>

section \<open>Encoding and decoding\<close>

definition pszBase58 :: string where
  "pszBase58 = ''123456789ABCDEFGHJKLMNPQRSTUVWXYZabcdefghijkmnopqrstuvwxyz''"

function EncodeBase58_loop :: "int \<Rightarrow> string" where
  "EncodeBase58_loop bn = (if bn > 0 then pszBase58 ! nat (bn mod 58) # EncodeBase58_loop (bn div 58) else [])"
  by pat_completeness auto
termination
  by (relation "measure nat") auto

declare EncodeBase58_loop.simps [simp del]

definition EncodeBase58 :: "bn_lib \<Rightarrow> byte list \<Rightarrow> string" where
  "EncodeBase58 L vch =
     rev (EncodeBase58_loop (setvch L (rev vch @ [0])) @ replicate (length (takeWhile (\<lambda>b. b = 0) vch)) (pszBase58 ! 0))"

fun strchr :: "string \<Rightarrow> char \<Rightarrow> nat option" where
  "strchr [] c = None"
| "strchr (d # ds) c = (if c = d then Some 0 else map_option Suc (strchr ds c))"

fun DecodeBase58_loop :: "string \<Rightarrow> int \<Rightarrow> int option" where
  "DecodeBase58_loop [] bn = Some bn"
| "DecodeBase58_loop (c # p) bn = (case strchr pszBase58 c of
     None \<Rightarrow> (if dropWhile isspace (c # p) \<noteq> [] then None else Some bn)
   | Some i \<Rightarrow> DecodeBase58_loop p (bn * 58 + int i))"

definition trim_sign :: "byte list \<Rightarrow> byte list" where
  "trim_sign v = (if length v \<ge> 2 \<and> v ! (length v - 1) = 0 \<and> v ! (length v - 2) \<ge> 0x80 then butlast v else v)"

definition DecodeBase58 :: "bn_lib \<Rightarrow> string \<Rightarrow> byte list option" where
  "DecodeBase58 L str =
     (let psz = dropWhile isspace (takeWhile (\<lambda>c. c \<noteq> CHR 0x00) str) in
      case DecodeBase58_loop psz 0 of None \<Rightarrow> None
      | Some bn \<Rightarrow>
          let vchTmp = trim_sign (getvch L bn);
              nLeadingZeros = length (takeWhile (\<lambda>c. c = pszBase58 ! 0) psz)
          in Some (replicate nLeadingZeros 0 @ rev vchTmp))"

definition checksum :: "hash_lib \<Rightarrow> byte list \<Rightarrow> byte list" where
  "checksum H v = take 4 (word_to_le (Hash H v))"

definition EncodeBase58Check :: "hash_lib \<Rightarrow> bn_lib \<Rightarrow> byte list \<Rightarrow> string" where
  "EncodeBase58Check H L vchIn = EncodeBase58 L (vchIn @ checksum H vchIn)"

definition DecodeBase58Check :: "hash_lib \<Rightarrow> bn_lib \<Rightarrow> string \<Rightarrow> byte list option" where
  "DecodeBase58Check H L psz = (case DecodeBase58 L psz of None \<Rightarrow> None
     | Some vchRet \<Rightarrow>
         if length vchRet < 4 then None
         else if checksum H (take (length vchRet - 4) vchRet) \<noteq> drop (length vchRet - 4) vchRet then None
         else Some (take (length vchRet - 4) vchRet))"

section \<open>Versioned data\<close>

record CBase58Data =
  b58_nVersion :: byte
  vchData :: "byte list"

definition CBase58Data_init :: CBase58Data where
  "CBase58Data_init = \<lparr> b58_nVersion = 0, vchData = [] \<rparr>"

definition b58_SetString :: "hash_lib \<Rightarrow> bn_lib \<Rightarrow> string \<Rightarrow> bool \<times> CBase58Data" where
  "b58_SetString H L psz = (case DecodeBase58Check H L psz of
     Some (v # vs) \<Rightarrow> (True, \<lparr> b58_nVersion = v, vchData = vs \<rparr>)
   | _ \<Rightarrow> (False, CBase58Data_init))"

definition b58_ToString :: "hash_lib \<Rightarrow> bn_lib \<Rightarrow> CBase58Data \<Rightarrow> string" where
  "b58_ToString H L d = EncodeBase58Check H L (b58_nVersion d # vchData d)"

fun vch_less :: "byte list \<Rightarrow> byte list \<Rightarrow> bool" where
  "vch_less [] [] = False"
| "vch_less [] (b # bs) = True"
| "vch_less (a # as) [] = False"
| "vch_less (a # as) (b # bs) = (a < b \<or> (a = b \<and> vch_less as bs))"

definition b58_CompareTo :: "CBase58Data \<Rightarrow> CBase58Data \<Rightarrow> int" where
  "b58_CompareTo a b =
     (if b58_nVersion a < b58_nVersion b then -1
      else if b58_nVersion a > b58_nVersion b then 1
      else if vch_less (vchData a) (vchData b) then -1
      else if vch_less (vchData b) (vchData a) then 1
      else 0)"

section \<open>Addresses and secrets\<close>

abbreviation (input) PUBKEY_ADDRESS :: byte where "PUBKEY_ADDRESS \<equiv> 63"
abbreviation (input) SCRIPT_ADDRESS :: byte where "SCRIPT_ADDRESS \<equiv> 28"
abbreviation (input) PUBKEY_ADDRESS_TEST :: byte where "PUBKEY_ADDRESS_TEST \<equiv> 125"
abbreviation (input) SCRIPT_ADDRESS_TEST :: byte where "SCRIPT_ADDRESS_TEST \<equiv> 196"

type_synonym CBitcoinAddress = CBase58Data

definition CBitcoinAddress_Set :: "bool \<Rightarrow> CTxDestination \<Rightarrow> CBitcoinAddress \<Rightarrow> bool \<times> CBitcoinAddress" where
  "CBitcoinAddress_Set testnet dest addr = (case dest of
     CKeyID h \<Rightarrow> (True, \<lparr> b58_nVersion = (if testnet then PUBKEY_ADDRESS_TEST else PUBKEY_ADDRESS), vchData = word_to_le h \<rparr>)
   | CScriptID h \<Rightarrow> (True, \<lparr> b58_nVersion = (if testnet then SCRIPT_ADDRESS_TEST else SCRIPT_ADDRESS), vchData = word_to_le h \<rparr>)
   | CStealthAddress \<Rightarrow> (False, addr)
   | CNoDestination \<Rightarrow> (False, addr))"

definition CBitcoinAddress_of :: "bool \<Rightarrow> CTxDestination \<Rightarrow> CBitcoinAddress" where
  "CBitcoinAddress_of testnet dest = snd (CBitcoinAddress_Set testnet dest CBase58Data_init)"

definition CBitcoinAddress_IsValid :: "bool \<Rightarrow> CBitcoinAddress \<Rightarrow> bool" where
  "CBitcoinAddress_IsValid testnet addr =
     (if b58_nVersion addr = PUBKEY_ADDRESS \<or> b58_nVersion addr = SCRIPT_ADDRESS
      then \<not> testnet \<and> length (vchData addr) = 20
      else if b58_nVersion addr = PUBKEY_ADDRESS_TEST \<or> b58_nVersion addr = SCRIPT_ADDRESS_TEST
      then testnet \<and> length (vchData addr) = 20
      else False)"

definition CBitcoinAddress_Get :: "bool \<Rightarrow> CBitcoinAddress \<Rightarrow> CTxDestination" where
  "CBitcoinAddress_Get testnet addr =
     (if \<not> CBitcoinAddress_IsValid testnet addr then CNoDestination
      else if b58_nVersion addr = PUBKEY_ADDRESS \<or> b58_nVersion addr = PUBKEY_ADDRESS_TEST
      then CKeyID (word_of_le (take 20 (vchData addr)))
      else if b58_nVersion addr = SCRIPT_ADDRESS \<or> b58_nVersion addr = SCRIPT_ADDRESS_TEST
      then CScriptID (word_of_le (take 20 (vchData addr)))
      else CNoDestination)"

definition CBitcoinAddress_GetKeyID :: "bool \<Rightarrow> CBitcoinAddress \<Rightarrow> uint160 option" where
  "CBitcoinAddress_GetKeyID testnet addr =
     (if \<not> CBitcoinAddress_IsValid testnet addr then None
      else if b58_nVersion addr = PUBKEY_ADDRESS \<or> b58_nVersion addr = PUBKEY_ADDRESS_TEST
      then Some (word_of_le (take 20 (vchData addr))) else None)"

definition CBitcoinAddress_IsScript :: "bool \<Rightarrow> CBitcoinAddress \<Rightarrow> bool" where
  "CBitcoinAddress_IsScript testnet addr =
     (if \<not> CBitcoinAddress_IsValid testnet addr then False
      else b58_nVersion addr = SCRIPT_ADDRESS \<or> b58_nVersion addr = SCRIPT_ADDRESS_TEST)"

text \<open>\<open>None\<close>: the secret does not have 32 bytes and the assertion fails.\<close>

definition CBitcoinSecret_SetSecret :: "bool \<Rightarrow> byte list \<Rightarrow> bool \<Rightarrow> CBase58Data option" where
  "CBitcoinSecret_SetSecret testnet vchSecret fCompressed =
     (if length vchSecret \<noteq> 32 then None
      else Some \<lparr> b58_nVersion = 128 + (if testnet then PUBKEY_ADDRESS_TEST else PUBKEY_ADDRESS),
                  vchData = vchSecret @ (if fCompressed then [1] else []) \<rparr>)"

definition CBitcoinSecret_GetSecret :: "CBase58Data \<Rightarrow> byte list \<times> bool" where
  "CBitcoinSecret_GetSecret d = (take 32 (vchData d), length (vchData d) = 33)"

definition CBitcoinSecret_IsValid :: "bool \<Rightarrow> CBase58Data \<Rightarrow> bool" where
  "CBitcoinSecret_IsValid testnet d =
     (if b58_nVersion d = 128 + PUBKEY_ADDRESS \<or> b58_nVersion d = 128 + PUBKEY_ADDRESS_TEST
      then (b58_nVersion d = 128 + PUBKEY_ADDRESS_TEST) = testnet
           \<and> (length (vchData d) = 32 \<or> (length (vchData d) = 33 \<and> vchData d ! 32 = 1))
      else False)"

definition CBitcoinSecret_SetString :: "hash_lib \<Rightarrow> bn_lib \<Rightarrow> bool \<Rightarrow> string \<Rightarrow> bool \<times> CBase58Data" where
  "CBitcoinSecret_SetString H L testnet psz =
     (case b58_SetString H L psz of (b, d) \<Rightarrow> (b \<and> CBitcoinSecret_IsValid testnet d, d))"



section \<open>Decoding inverts encoding\<close>

lemma pszBase58_facts: "length pszBase58 = 58" "distinct pszBase58" "list_all (\<lambda>c. \<not> isspace c \<and> c \<noteq> CHR 0x00) pszBase58"
  by code_simp+

lemma strchr_nth: "distinct ds \<Longrightarrow> i < length ds \<Longrightarrow> strchr ds (ds ! i) = Some i"
  by (induction ds arbitrary: i) (auto simp: nth_Cons split: nat.splits)

lemma strchr_digit: "i < 58 \<Longrightarrow> strchr pszBase58 (pszBase58 ! i) = Some i"
  by (simp add: strchr_nth pszBase58_facts)

lemma Decode_digit: "0 \<le> d \<Longrightarrow> d < 58 \<Longrightarrow> DecodeBase58_loop (pszBase58 ! nat d # r) m = DecodeBase58_loop r (m * 58 + d)"
  by (simp add: strchr_digit nat_less_iff)

declare DecodeBase58_loop.simps(2) [simp del]

lemma Decode_Encode:
  "0 \<le> n \<Longrightarrow> DecodeBase58_loop (rev (EncodeBase58_loop n) @ r) m
     = DecodeBase58_loop r (m * 58 ^ length (EncodeBase58_loop n) + n)"
proof (induction n arbitrary: r m rule: EncodeBase58_loop.induct)
  case (1 bn)
  show ?case
  proof (cases "bn > 0")
    case True
    let ?E = "EncodeBase58_loop (bn div 58)"
    have E: "EncodeBase58_loop bn = pszBase58 ! nat (bn mod 58) # ?E"
      using True by (subst EncodeBase58_loop.simps) simp
    show ?thesis using 1(1) [OF True] 1(2) by (simp add: E Decode_digit algebra_simps)
  next
    case False
    then show ?thesis using 1(2) by (subst (1 2) EncodeBase58_loop.simps) simp
  qed
qed

lemma Encode_last:
  "0 < n \<Longrightarrow> EncodeBase58_loop n \<noteq> [] \<and> last (EncodeBase58_loop n) \<noteq> pszBase58 ! 0"
proof (induction n rule: EncodeBase58_loop.induct)
  case (1 bn)
  have E: "EncodeBase58_loop bn = pszBase58 ! nat (bn mod 58) # EncodeBase58_loop (bn div 58)"
    using 1(2) by (subst EncodeBase58_loop.simps) simp
  show ?case
  proof (cases "0 < bn div 58")
    case True
    then show ?thesis using 1 by (simp add: E)
  next
    case False
    then have "EncodeBase58_loop (bn div 58) = []" by (subst EncodeBase58_loop.simps) simp
    moreover have "nat (bn mod 58) < 58" "nat (bn mod 58) \<noteq> 0" using False 1(2) by (auto simp: nat_less_iff pos_imp_zdiv_pos_iff)
    ultimately show ?thesis using nth_eq_iff_index_eq [OF pszBase58_facts(2)] pszBase58_facts(1) by (simp add: E)
  qed
qed

lemma Encode_chars: "set (EncodeBase58_loop n) \<subseteq> set pszBase58"
proof (induction n rule: EncodeBase58_loop.induct)
  case (1 bn)
  show ?case
  proof (cases "bn > 0")
    case True
    have "nat (bn mod 58) < 58" by (simp add: nat_less_iff)
    then show ?thesis using 1 True pszBase58_facts(1) by (subst EncodeBase58_loop.simps) auto
  qed (subst EncodeBase58_loop.simps, simp)
qed

lemma trim_sign_body: "trim_sign (rev (mpi_body (int n))) = nat_le n"
proof (cases "n = 0")
  case True
  then show ?thesis by (simp add: mpi_body_def nat_le_simps trim_sign_def)
next
  case False
  then have l: "nat_le n \<noteq> []" "last (nat_le n) \<noteq> 0" using nat_le_last by auto
  obtain c cs where c: "rev (nat_le n) = c # cs" using l(1) by (cases "rev (nat_le n)") auto
  then have "c \<noteq> 0" using l by (metis last_rev rev_rev_ident list.sel(1) hd_rev)
  have n: "nat_le n = rev cs @ [c]" using c by (metis rev.simps(2) rev_rev_ident)
  have "mpi_body (int n) = (if c AND 0x80 \<noteq> 0 then 0 # c # cs else c # cs)"
    using c \<open>c \<noteq> 0\<close> by (simp add: mpi_body_def put_be_False)
  moreover have "0x80 \<le> c \<longleftrightarrow> c AND 0x80 \<noteq> 0" by (simp add: byte_sign word_le_nat_alt)
  ultimately show ?thesis using \<open>c \<noteq> 0\<close> by (auto simp: trim_sign_def n nth_append)
qed

lemma leading_zeros: "replicate (length (takeWhile (\<lambda>b. b = 0) v)) 0 @ rev (nat_le (be_nat v)) = (v :: byte list)"
proof -
  let ?z = "length (takeWhile (\<lambda>b. b = 0) v)" and ?w = "dropWhile (\<lambda>b. b = 0) v"
  have "takeWhile (\<lambda>b. b = 0) v = replicate ?z 0"
    by (rule replicate_eqI) (auto dest: set_takeWhileD)
  then have v: "v = replicate ?z 0 @ ?w" by (metis takeWhile_dropWhile_id)
  then have "be_nat v = be_nat ?w" using be_nat_append [of "replicate ?z 0" ?w] by simp
  moreover have "nat_le (be_nat ?w) = rev ?w"
  proof (cases "?w = []")
    case False
    then have "last (rev ?w) \<noteq> 0" using hd_dropWhile [OF False] by (simp add: last_rev)
    then show ?thesis using False nat_le_of_le_nat [of "rev ?w"] by (simp add: be_nat_def)
  next
    case True
    show ?thesis unfolding True by (simp add: nat_le_simps)
  qed
  ultimately show ?thesis using v by simp
qed



lemma takeWhile_ones: "takeWhile P (replicate z x @ xs) = (if P x then replicate z x @ takeWhile P xs else if z = 0 then takeWhile P xs else [])"
  by (induction z) auto

lemma Decode_ones: "DecodeBase58_loop (replicate z (pszBase58 ! 0) @ s) 0 = DecodeBase58_loop s 0"
  using Decode_digit [of 0] by (induction z) simp_all

context mpi_lib
begin

lemma DecodeBase58_Encode:
  assumes "length v < 2 ^ 32 - 1"
  shows "DecodeBase58 L (EncodeBase58 L v) = Some v"
proof -
  let ?z = "length (takeWhile (\<lambda>b. b = 0) v)" and ?E = "EncodeBase58_loop (int (be_nat v))"
  have n: "setvch L (rev v @ [0]) = int (be_nat v)"
    using setvch_value [of "rev v @ [0]"] assms by (simp add: mpi_value_def)
  have str: "EncodeBase58 L v = replicate ?z (pszBase58 ! 0) @ rev ?E" by (simp add: EncodeBase58_def n)
  have "set (EncodeBase58 L v) \<subseteq> set pszBase58"
    using Encode_chars [of "int (be_nat v)"] pszBase58_facts(1) by (auto simp: str)
  then have plain: "\<not> isspace c" "c \<noteq> CHR 0x00" if "c \<in> set (EncodeBase58 L v)" for c
    using that pszBase58_facts(3) by (auto simp: list_all_iff)
  then have psz: "dropWhile isspace (takeWhile (\<lambda>c. c \<noteq> CHR 0x00) (EncodeBase58 L v)) = EncodeBase58 L v"
    by (cases "EncodeBase58 L v") (simp_all add: takeWhile_eq_all_conv [THEN iffD2])
  have "takeWhile (\<lambda>c. c = pszBase58 ! 0) (rev ?E) = []"
  proof (cases "be_nat v = 0")
    case True
    then show ?thesis by (subst EncodeBase58_loop.simps) simp
  next
    case False
    then have "?E \<noteq> []" "hd (rev ?E) \<noteq> pszBase58 ! 0" using Encode_last [of "int (be_nat v)"] by (auto simp: hd_rev)
    then show ?thesis by (cases "rev ?E") auto
  qed
  then have z: "length (takeWhile (\<lambda>c. c = pszBase58 ! 0) (EncodeBase58 L v)) = ?z"
    by (simp add: str takeWhile_ones)
  have "DecodeBase58_loop (EncodeBase58 L v) 0 = Some (int (be_nat v))"
    using Decode_Encode [of "int (be_nat v)" "[]" 0] by (simp add: str Decode_ones)
  then show ?thesis
    unfolding DecodeBase58_def Let_def psz z
    by (simp add: getvch_body trim_sign_body leading_zeros)
qed

lemma DecodeBase58Check_Encode:
  assumes "length v < 2 ^ 32 - 5"
  shows "DecodeBase58Check H L (EncodeBase58Check H L v) = Some v"
proof -
  have c: "length (checksum H v) = 4" by (simp add: checksum_def)
  have "DecodeBase58 L (EncodeBase58 L (v @ checksum H v)) = Some (v @ checksum H v)"
    by (rule DecodeBase58_Encode) (use assms c in simp)
  then show ?thesis by (simp add: DecodeBase58Check_def EncodeBase58Check_def c)
qed

lemma SetString_ToString: "length (vchData d) < 2 ^ 32 - 6 \<Longrightarrow> b58_SetString H L (b58_ToString H L d) = (True, d)"
  by (simp add: b58_SetString_def b58_ToString_def DecodeBase58Check_Encode)

end

lemma vch_less_irrefl: "\<not> vch_less a a"
  by (induction a) auto

lemma vch_less_total: "vch_less a b \<or> a = b \<or> vch_less b a"
  by (induction a b rule: vch_less.induct) auto

lemma b58_CompareTo_eq: "b58_CompareTo a b = 0 \<longleftrightarrow> a = b"
  using vch_less_total [of "vchData a" "vchData b"] vch_less_irrefl [of "vchData a"]
  by (cases a; cases b) (auto simp: b58_CompareTo_def)

section \<open>Properties\<close>

text \<open>
  C35: with OpenSSL's number format, an address printed with \<open>ToString\<close> is read back by \<open>SetString\<close>, and the
  destination it was made from is recovered by \<open>Get\<close> on the same network; two addresses compare equal exactly when
  they are the same.
\<close>

theorem CBitcoinAddress_roundtrip:
  assumes "mpi_lib L" "dest = CKeyID h \<or> dest = CScriptID h"
  shows "b58_SetString H L (b58_ToString H L (CBitcoinAddress_of testnet dest)) = (True, CBitcoinAddress_of testnet dest)
    \<and> CBitcoinAddress_Get testnet (CBitcoinAddress_of testnet dest) = dest
    \<and> CBitcoinAddress_Get (\<not> testnet) (CBitcoinAddress_of testnet dest) = CNoDestination
    \<and> (b58_CompareTo (CBitcoinAddress_of testnet dest) addr = 0 \<longleftrightarrow> addr = CBitcoinAddress_of testnet dest)"
proof -
  have "length (vchData (CBitcoinAddress_of testnet dest)) = 20"
    using assms(2) by (auto simp: CBitcoinAddress_of_def CBitcoinAddress_Set_def)
  then show ?thesis
    using assms(2) mpi_lib.SetString_ToString [OF assms(1), of "CBitcoinAddress_of testnet dest" H]
    by (auto simp: CBitcoinAddress_Get_def CBitcoinAddress_IsValid_def CBitcoinAddress_of_def CBitcoinAddress_Set_def
        b58_CompareTo_eq word_of_le_to_le)
qed

theorem CBitcoinAddress_roundtrip_witness:
  "CBitcoinAddress_Get False (snd (b58_SetString (s_hash sample_lib) mpi_ref
     (b58_ToString (s_hash sample_lib) mpi_ref (CBitcoinAddress_of False (CKeyID 5))))) = CKeyID 5"
  using CBitcoinAddress_roundtrip [OF mref.mpi_lib_axioms, of "CKeyID 5" 5] by simp

text \<open>
  a 32-byte secret key survives export and import with its compression flag, and \<open>SetString\<close> accepts it
  on the network it was exported for.
\<close>

theorem CBitcoinSecret_roundtrip:
  assumes "mpi_lib L" "CBitcoinSecret_SetSecret testnet key c = Some d"
  shows "CBitcoinSecret_SetString H L testnet (b58_ToString H L d) = (True, d) \<and> CBitcoinSecret_GetSecret d = (key, c)"
proof -
  have "length (vchData d) < 2 ^ 32 - 6" "CBitcoinSecret_IsValid testnet d" "CBitcoinSecret_GetSecret d = (key, c)"
    using assms(2)
    by (auto simp: CBitcoinSecret_SetSecret_def CBitcoinSecret_IsValid_def CBitcoinSecret_GetSecret_def nth_append split: if_splits)
  then show ?thesis using mpi_lib.SetString_ToString [OF assms(1), of d H] by (simp add: CBitcoinSecret_SetString_def)
qed

theorem CBitcoinSecret_roundtrip_witness:
  "\<exists>d. CBitcoinSecret_SetSecret False (replicate 32 7) True = Some d
     \<and> fst (CBitcoinSecret_SetString (s_hash sample_lib) mpi_ref False (b58_ToString (s_hash sample_lib) mpi_ref d))"
  using CBitcoinSecret_roundtrip [OF mref.mpi_lib_axioms, of False "replicate 32 7" True _ "s_hash sample_lib"]
  by (auto simp: CBitcoinSecret_SetSecret_def)

end
