(* ===== verification/Subsidy.thy ===== *)
theory Subsidy
  imports Complex_Main Block
begin

text \<open>
  The proof-of-work reward (\<open>main.cpp\<close>): \<open>GetPoWSubsidy\<close> and \<open>GetProofOfWorkReward\<close>.

  \<open>GetPoWSubsidy\<close> rounds \<open>4500 * (1.0 / sqrt(nHeight + 45)) - 65.228\<close> down.  Here the floor is computed exactly, by
  an integer square root; for the heights 0 to 4320 that have a subsidy the exact value is never closer than
  0.0002 to an integer, so the \<open>double\<close> computation has the same floor.
\<close>

section \<open>Proof of work\<close>

function isqrt :: "nat \<Rightarrow> nat" where
  "isqrt n = (if n = 0 then 0 else let r = 2 * isqrt (n div 4) in if (r + 1) * (r + 1) \<le> n then r + 1 else r)"
  by pat_completeness auto
termination
  by (relation "measure id") auto

declare isqrt.simps [simp del]

definition subsidy_units :: "nat \<Rightarrow> int" where
  "subsidy_units n = (int (isqrt (4500000\<^sup>2 div n)) - 65228) div 1000"

definition GetPoWSubsidy :: "int \<Rightarrow> int" where
  "GetPoWSubsidy height = (if height \<le> LAST_POW_BLOCK then COIN * subsidy_units (nat (height + 45)) else 0)"

definition GetProofOfWorkReward :: "int \<Rightarrow> i64 \<Rightarrow> i64" where
  "GetProofOfWorkReward height nFees = word_of_int (GetPoWSubsidy height) + nFees"

section \<open>The subsidy is the rounded formula\<close>

lemma isqrt_bounds: "isqrt n * isqrt n \<le> n \<and> n < (isqrt n + 1) * (isqrt n + 1)"
proof (induction n rule: isqrt.induct)
  case (1 n)
  show ?case
  proof (cases "n = 0")
    case True
    then show ?thesis by (simp add: isqrt.simps)
  next
    case False
    define s where "s = isqrt (n div 4)"
    have IH: "s * s \<le> n div 4" "n div 4 < (s + 1) * (s + 1)" using 1 [OF False] by (auto simp: s_def)
    have lo: "(2 * s) * (2 * s) \<le> n" using IH(1) by linarith
    have hi: "n < (2 * s + 2) * (2 * s + 2)"
    proof -
      have "n < 4 * ((s + 1) * (s + 1))" using IH(2) by linarith
      then show ?thesis by (simp add: algebra_simps)
    qed
    have e: "isqrt n = (if (2 * s + 1) * (2 * s + 1) \<le> n then 2 * s + 1 else 2 * s)"
      using False by (subst isqrt.simps) (simp add: s_def Let_def)
    show ?thesis unfolding e using lo hi by auto
  qed
qed

lemma isqrt_ge: "m \<le> isqrt n \<longleftrightarrow> m * m \<le> n"
proof
  assume "m \<le> isqrt n"
  then have "m * m \<le> isqrt n * isqrt n" by (rule mult_le_mono) fact
  then show "m * m \<le> n" using isqrt_bounds [of n] by linarith
next
  assume m: "m * m \<le> n"
  show "m \<le> isqrt n"
  proof (rule ccontr)
    assume "\<not> m \<le> isqrt n"
    then have le: "isqrt n + 1 \<le> m" by simp
    have "(isqrt n + 1) * (isqrt n + 1) \<le> m * m" by (rule mult_le_mono [OF le le])
    then show False using m isqrt_bounds [of n] by linarith
  qed
qed

lemma le_div_1000: "z \<le> x div 1000 \<longleftrightarrow> z * 1000 \<le> x" for x z :: int
  by (rule iffI) linarith+

lemma subsidy_units_ge:
  assumes "0 < n"
  shows "int k \<le> subsidy_units n \<longleftrightarrow> (1000 * k + 65228)\<^sup>2 * n \<le> 4500000\<^sup>2"
proof -
  have "int k \<le> subsidy_units n \<longleftrightarrow> int k * 1000 \<le> int (isqrt (4500000\<^sup>2 div n)) - 65228"
    unfolding subsidy_units_def by (rule le_div_1000)
  also have "\<dots> \<longleftrightarrow> 1000 * k + 65228 \<le> isqrt (4500000\<^sup>2 div n)" by linarith
  also have "\<dots> \<longleftrightarrow> (1000 * k + 65228) * (1000 * k + 65228) \<le> 4500000\<^sup>2 div n" by (rule isqrt_ge)
  also have "\<dots> \<longleftrightarrow> (1000 * k + 65228)\<^sup>2 * n \<le> 4500000\<^sup>2"
    using assms by (simp only: power2_eq_square less_eq_div_iff_mult_less_eq)
  finally show ?thesis .
qed

lemma subsidy_units_pos: "45 \<le> n \<Longrightarrow> n \<le> 4365 \<Longrightarrow> 2 \<le> subsidy_units n \<and> subsidy_units n \<le> 605"
proof -
  assume n: "45 \<le> n" "n \<le> 4365"
  then have n0: "0 < n" by simp
  have "(1000 * 2 + 65228)\<^sup>2 * n \<le> (1000 * 2 + 65228)\<^sup>2 * 4365" using n(2) by (intro mult_le_mono) auto
  then have "int 2 \<le> subsidy_units n" unfolding subsidy_units_ge [OF n0] by simp
  moreover have "\<not> int 606 \<le> subsidy_units n"
    unfolding subsidy_units_ge [OF n0] using mult_le_mono2 [OF n(1), of "(1000 * 606 + 65228)\<^sup>2"] by simp
  ultimately show ?thesis by simp
qed

lemma scale_1000: "1000 * x + 65228 \<le> 4500000 * y \<longleftrightarrow> x \<le> 4500 * y - 65.228" for x y :: real
  by (simp add: field_simps) linarith

lemma subsidy_real:
  assumes "0 < n"
  shows "(1000 * k + 65228)\<^sup>2 * n \<le> 4500000\<^sup>2 \<longleftrightarrow> real k \<le> 4500 * (1 / sqrt (real n)) - 65.228"
proof -
  have s: "0 < sqrt (real n)" using assms by simp
  have "(1000 * k + 65228)\<^sup>2 * n \<le> 4500000\<^sup>2 \<longleftrightarrow> real ((1000 * k + 65228)\<^sup>2 * n) \<le> real (4500000\<^sup>2)"
    by (rule of_nat_le_iff [symmetric])
  also have "\<dots> \<longleftrightarrow> ((1000 * real k + 65228) * sqrt (real n))\<^sup>2 \<le> 4500000\<^sup>2" by (simp add: power_mult_distrib)
  also have "\<dots> \<longleftrightarrow> (1000 * real k + 65228) * sqrt (real n) \<le> 4500000" by (rule power_mono_iff) auto
  also have "\<dots> \<longleftrightarrow> 1000 * real k + 65228 \<le> 4500000 / sqrt (real n)" using s by (simp only: pos_le_divide_eq)
  also have "4500000 / sqrt (real n) = 4500000 * (1 / sqrt (real n))" by simp
  also have "1000 * real k + 65228 \<le> 4500000 * (1 / sqrt (real n)) \<longleftrightarrow> real k \<le> 4500 * (1 / sqrt (real n)) - 65.228"
    by (rule scale_1000)
  finally show ?thesis .
qed

lemma subsidy_floor:
  assumes "45 \<le> n" "n \<le> 4365"
  shows "subsidy_units n = \<lfloor>4500 * (1 / sqrt (real n)) - 65.228\<rfloor>"
proof -
  have n0: "0 < n" using assms(1) by simp
  obtain k where k: "subsidy_units n = int k"
    using subsidy_units_pos [OF assms] zero_le_imp_eq_int [of "subsidy_units n"] by auto
  have "int k \<le> subsidy_units n" "\<not> int (Suc k) \<le> subsidy_units n" using k by auto
  then have "real k \<le> 4500 * (1 / sqrt (real n)) - 65.228" "\<not> real (Suc k) \<le> 4500 * (1 / sqrt (real n)) - 65.228"
    unfolding subsidy_units_ge [OF n0] subsidy_real [OF n0] by auto
  then show ?thesis unfolding k by (intro floor_unique [symmetric]) auto
qed

section \<open>The total of the proof-of-work subsidies\<close>

lemma layer_count:
  "45 \<le> n \<Longrightarrow> n \<le> 4365 \<Longrightarrow> subsidy_units n = (\<Sum>k = 1..605. of_bool ((1000 * k + 65228 :: nat)\<^sup>2 * n \<le> 4500000\<^sup>2))"
proof -
  assume n: "45 \<le> n" "n \<le> 4365"
  then have n0: "0 < n" by simp
  have "(\<Sum>k = 1..605. of_bool ((1000 * k + 65228 :: nat)\<^sup>2 * n \<le> 4500000\<^sup>2) :: int) = (\<Sum>k = 1..605. of_bool (k \<le> nat (subsidy_units n)))"
    unfolding subsidy_units_ge [OF n0, symmetric]
    using subsidy_units_pos [OF n] by (intro sum.cong refl) (auto simp: le_nat_iff)
  also have "\<dots> = int (card {k \<in> {1..605}. k \<le> nat (subsidy_units n)})" by (subst of_bool_def) (simp add: sum.If_cases Int_def)
  also have "{k \<in> {1..605}. k \<le> nat (subsidy_units n)} = {1..nat (subsidy_units n)}" using subsidy_units_pos [OF n] by auto
  finally show ?thesis using subsidy_units_pos [OF n] by simp
qed

lemma layer_card:
  "card {h \<in> {1..4320}. c * (h + 45) \<le> (N::nat)} = min 4320 (N div c - 45)" if "0 < c" for c :: nat
proof -
  have "{h \<in> {1..4320}. c * (h + 45) \<le> N} = {1..min 4320 (N div c - 45)}"
  proof (rule Set.set_eqI)
    fix h
    have "c * (h + 45) \<le> N \<longleftrightarrow> h + 45 \<le> N div c"
      using that by (simp only: less_eq_div_iff_mult_less_eq mult.commute)
    then show "h \<in> {h \<in> {1..4320}. c * (h + 45) \<le> N} \<longleftrightarrow> h \<in> {1..min 4320 (N div c - 45)}" by auto
  qed
  then show ?thesis by simp
qed

function layers :: "nat \<Rightarrow> nat \<Rightarrow> nat" where
  "layers k acc = (if 605 < k then acc else layers (k + 1) (acc + min 4320 (4500000\<^sup>2 div (1000 * k + 65228)\<^sup>2 - 45)))"
  by pat_completeness auto
termination
  by (relation "measure (\<lambda>(k, _). 606 - k)") auto

lemma layers_sum: "layers k acc = acc + (\<Sum>i = k..605. min 4320 (4500000\<^sup>2 div (1000 * i + 65228)\<^sup>2 - 45))"
proof (induction k acc rule: layers.induct)
  case (1 k acc)
  then show ?case by (subst layers.simps) (simp add: sum.atLeast_Suc_atMost)
qed

lemma layers_total: "layers 1 0 = 250001"
  by (simp del: One_nat_def)

lemma units_total: "(\<Sum>h = 1..4320. subsidy_units (h + 45)) = 250001"
proof -
  have "(\<Sum>h = 1..4320. subsidy_units (h + 45)) =
    (\<Sum>h = 1..4320. \<Sum>k = 1..605. of_bool ((1000 * k + 65228 :: nat)\<^sup>2 * (h + 45) \<le> 4500000\<^sup>2))"
    by (intro sum.cong refl layer_count) auto
  also have "\<dots> = (\<Sum>k = 1..605. \<Sum>h = 1..4320. of_bool ((1000 * k + 65228 :: nat)\<^sup>2 * (h + 45) \<le> 4500000\<^sup>2))"
    by (rule sum.swap)
  also have "\<dots> = (\<Sum>k = 1..605. int (card {h \<in> {1..4320}. (1000 * k + 65228 :: nat)\<^sup>2 * (h + 45) \<le> 4500000\<^sup>2}))"
    by (intro sum.cong refl) (simp add: of_bool_def sum.If_cases Int_def)
  also have "\<dots> = int (\<Sum>k = 1..605. min 4320 (4500000\<^sup>2 div (1000 * k + 65228)\<^sup>2 - 45))"
    unfolding of_nat_sum by (intro sum.cong refl arg_cong [where f = int] layer_card) auto
  also have "\<dots> = int (layers 1 0)" by (simp only: layers_sum add_0)
  finally show ?thesis unfolding layers_total by simp
qed

declare layers.simps [simp del]

text \<open>
  the subsidy of a proof-of-work block is the whole-coin floor of the published formula at every height with
  a subsidy.
\<close>

theorem GetPoWSubsidy_floor:
  assumes "0 \<le> height" "height \<le> LAST_POW_BLOCK"
  shows "GetPoWSubsidy height = COIN * \<lfloor>4500 * (1 / sqrt (real_of_int (height + 45))) - 65.228\<rfloor>"
proof -
  have "real_of_int (height + 45) = real (nat (height + 45))" using assms(1) by simp
  moreover have "45 \<le> nat (height + 45)" "nat (height + 45) \<le> 4365" using assms by auto
  ultimately show ?thesis using assms(2) by (simp only: GetPoWSubsidy_def subsidy_floor if_True)
qed

theorem GetPoWSubsidy_floor_witness:
  "GetPoWSubsidy 4276 = COIN * \<lfloor>4500 * (1 / sqrt (real_of_int 4321)) - 65.228\<rfloor> \<and> GetPoWSubsidy 4276 = 3 * COIN"
  using GetPoWSubsidy_floor [of 4276] by (simp add: GetPoWSubsidy_def subsidy_units_def isqrt.simps Let_def)

text \<open>
  C34: the subsidies of the proof-of-work phase (heights 1 to \<open>LAST_POW_BLOCK\<close>) add up to 250001 coins, the number in
  the comment of the source; each is between 2 and 605 coins, so that neither it nor the total leaves the range of
  money, and there is none afterwards.
\<close>

theorem GetPoWSubsidy_total:
  "(\<Sum>height = 1..LAST_POW_BLOCK. GetPoWSubsidy height) = 250001 * COIN \<and>
   (\<forall>height \<in> {0..LAST_POW_BLOCK}. 2 * COIN \<le> GetPoWSubsidy height \<and> GetPoWSubsidy height \<le> 605 * COIN) \<and>
   (\<forall>height. LAST_POW_BLOCK < height \<longrightarrow> GetPoWSubsidy height = 0)"
proof (intro conjI ballI allI impI)
  have "(\<Sum>height = 1..4320. GetPoWSubsidy height) = (\<Sum>h = 1..4320. GetPoWSubsidy (int h))"
    by (rule sum.reindex_bij_witness [of _ int nat]) auto
  also have "\<dots> = (\<Sum>h = 1..4320. COIN * subsidy_units (h + 45))"
    by (intro sum.cong refl) (auto simp: GetPoWSubsidy_def nat_add_distrib)
  also have "\<dots> = COIN * (\<Sum>h = 1..4320. subsidy_units (h + 45))" by (rule sum_distrib_left [symmetric])
  finally show "(\<Sum>height = 1..LAST_POW_BLOCK. GetPoWSubsidy height) = 250001 * COIN" unfolding units_total by simp
qed (use subsidy_units_pos in \<open>auto simp: GetPoWSubsidy_def\<close>)

theorem GetPoWSubsidy_total_witness:
  "2 * COIN \<le> GetPoWSubsidy 7 \<and> GetPoWSubsidy 4321 = 0"
  using GetPoWSubsidy_total by auto

end
