(* ===== verification/Rewards.thy ===== *)
theory Rewards
  imports Base58 TxConnect
begin

text \<open>
  The proof-of-stake reward (\<open>main.cpp\<close>): \<open>GetTurboStakeMultiplier\<close> with its cache of signing addresses,
  \<open>GetProofOfStakeReward\<close>, \<open>FillMapTurboAddress\<close>, and the coin age of a transaction and of a block.
\<close>

section \<open>Turbo stake\<close>

abbreviation (input) nTurboLookback :: int where "nTurboLookback \<equiv> 2 * 24 * 60 * 60"
abbreviation (input) nTurboDuration :: int where "nTurboDuration \<equiv> 30 * 24 * 60 * 60"
abbreviation (input) nTurboEndTime :: int where "nTurboEndTime \<equiv> 1432620187 + nTurboDuration"
abbreviation (input) nTurbo2_TIME :: int where "nTurbo2_TIME \<equiv> 1433113200"
abbreviation (input) MAX_TURBO_MULTIPLIER :: int where "MAX_TURBO_MULTIPLIER \<equiv> 288"
abbreviation (input) MAX_TURBO_FRACTION_INV :: int where "MAX_TURBO_FRACTION_INV \<equiv> 5"
abbreviation (input) MAX_MINT_PROOF_OF_STAKE :: int where "MAX_MINT_PROOF_OF_STAKE \<equiv> 10 * CENT"
abbreviation (input) nPoSFixedRewardTime :: int where "nPoSFixedRewardTime \<equiv> 1437804000"
abbreviation (input) nPoSBigRewardTime :: int where "nPoSBigRewardTime \<equiv> 1442210400"
abbreviation (input) nPoSTrueInflationSupply :: int where "nPoSTrueInflationSupply \<equiv> 9060000 * COIN"
abbreviation (input) nPoSTrueInflationShift :: nat where "nPoSTrueInflationShift \<equiv> 24"

type_synonym turbo_cache = "uint256 \<rightharpoonup> CBitcoinAddress"

text \<open>
  \<open>te_block\<close> is the block that \<open>ReadFromDisk\<close> finds for an index entry.  The signing address of a
  proof-of-stake block is the destination of the second output of its second transaction; a stored block that is
  proof of stake has both (\<open>IsCoinStake\<close>).
\<close>

record turbo_env =
  te_hash :: hash_lib
  te_testnet :: bool
  te_block :: "CBlockIndex \<Rightarrow> CBlock"

definition stake_address :: "turbo_env \<Rightarrow> CBlockIndex \<Rightarrow> CBitcoinAddress option" where
  "stake_address T p = map_option (CBitcoinAddress_of (te_testnet T))
     (ExtractDestination (te_hash T) (scriptPubKey (vout (vtx (te_block T p) ! 1) ! 1)))"

definition cached_address :: "turbo_env \<Rightarrow> turbo_cache \<Rightarrow> CBlockIndex \<Rightarrow> (CBitcoinAddress \<times> turbo_cache) option" where
  "cached_address T mapTurboAddress p = (case mapTurboAddress (phashBlock p) of
     Some a \<Rightarrow> Some (a, mapTurboAddress)
   | None \<Rightarrow> (case stake_address T p of None \<Rightarrow> None
             | Some a \<Rightarrow> Some (a, mapTurboAddress(phashBlock p \<mapsto> a))))"

text \<open>The loop gives the final counts, or the value returned from inside it.\<close>

fun turbo_loop ::
  "turbo_env \<Rightarrow> CBitcoinAddress \<Rightarrow> int \<Rightarrow> int \<Rightarrow> turbo_cache \<Rightarrow> chain \<Rightarrow> nat \<Rightarrow> nat \<Rightarrow> int \<Rightarrow> (int + nat \<times> nat) \<times> turbo_cache" where
  "turbo_loop T address lookbackTime allowedSpacing cache (p # q # r) turbo_count block_count time_last =
     (if bi_GetBlockTime p < lookbackTime then (Inr (turbo_count, block_count), cache)
      else if bi_IsProofOfStake p then
        (case cached_address T cache p of None \<Rightarrow> (Inl (-5), cache)
         | Some (blockAddress, cache') \<Rightarrow>
             if b58_CompareTo blockAddress address = 0 then
               (if time_last - bi_GetBlockTime p < allowedSpacing then (Inl 0, cache')
                else turbo_loop T address lookbackTime allowedSpacing cache' (q # r) (Suc turbo_count) (Suc block_count) (bi_GetBlockTime p))
             else turbo_loop T address lookbackTime allowedSpacing cache' (q # r) turbo_count (Suc block_count) time_last)
      else turbo_loop T address lookbackTime allowedSpacing cache (q # r) turbo_count (Suc block_count) time_last)"
| "turbo_loop T address lookbackTime allowedSpacing cache c turbo_count block_count time_last =
     (Inr (turbo_count, block_count), cache)"

definition turbo_result :: "int \<Rightarrow> nat \<Rightarrow> nat \<Rightarrow> int" where
  "turbo_result txTime turbo_count block_count =
     (if int block_count div int turbo_count < MAX_TURBO_FRACTION_INV then MAX_TURBO_MULTIPLIER
      else let multiplier = int turbo_count * MAX_TURBO_MULTIPLIER * MAX_TURBO_FRACTION_INV div int block_count
           in if txTime \<ge> nTurbo2_TIME \<and> turbo_count > 0 \<and> multiplier = 0 then 1 else multiplier)"

text \<open>The argument \<open>pindex\<close> is not \<open>NULL\<close>; its first element is the previous block.\<close>

definition GetTurboStakeMultiplier :: "turbo_env \<Rightarrow> CBitcoinAddress \<Rightarrow> int \<Rightarrow> chain \<Rightarrow> turbo_cache \<Rightarrow> int \<times> turbo_cache" where
  "GetTurboStakeMultiplier T address txTime pindex cache =
     (if txTime > nTurboEndTime then (1, cache)
      else
        let spacing = (if bi_GetBlockTime (hd pindex) < nSpacing2Time then nTargetSpacing else nTargetSpacing2) in
        if tl pindex = [] then (-4, cache)
        else case turbo_loop T address (txTime - nTurboLookback) (spacing - 2) cache pindex 1 1 txTime of
          (Inl v, cache') \<Rightarrow> (v, cache')
        | (Inr (turbo_count, block_count), cache') \<Rightarrow> (turbo_result txTime turbo_count block_count, cache'))"

definition base_subsidy :: "int \<Rightarrow> CBlockIndex \<Rightarrow> int" where
  "base_subsidy nCoinAge pindexPrev =
     (if bi_GetBlockTime pindexPrev < nPoSFixedRewardTime
        then sgn nCoinAge * (\<bar>nCoinAge\<bar> div COIN) * (MAX_MINT_PROOF_OF_STAKE div 365)
      else if bi_GetBlockTime pindexPrev < nPoSBigRewardTime then 1 * COIN
      else if sint (nMoneySupply pindexPrev) < nPoSTrueInflationSupply then 10 * COIN
      else sint (nMoneySupply pindexPrev) div 2 ^ nPoSTrueInflationShift)"

definition GetProofOfStakeReward ::
  "turbo_env \<Rightarrow> i64 \<Rightarrow> CBitcoinAddress \<Rightarrow> int \<Rightarrow> chain \<Rightarrow> turbo_cache \<Rightarrow> i64 \<times> turbo_cache" where
  "GetProofOfStakeReward T nCoinAge address nTime pindexPrev cache =
     (let nSubsidy = word_of_int (base_subsidy (sint nCoinAge) (hd pindexPrev)) in
      case GetTurboStakeMultiplier T address nTime pindexPrev cache of (nMultiplier, cache') \<Rightarrow>
        (if nMultiplier < 1 then 0 else if nMultiplier > 1 then nSubsidy * word_of_int nMultiplier else nSubsidy, cache'))"

section \<open>Filling the cache\<close>

definition turbo_block :: "CBlockIndex \<Rightarrow> bool" where
  "turbo_block p \<longleftrightarrow> bi_GetBlockTime p \<le> nTurboEndTime \<and> bi_IsProofOfStake p"

fun find_turbo :: "chain \<Rightarrow> chain" where
  "find_turbo (p # q # r) = (if turbo_block p then p # q # r else find_turbo (q # r))"
| "find_turbo c = c"

fun fill_loop :: "turbo_env \<Rightarrow> chain \<Rightarrow> turbo_cache \<Rightarrow> nat \<times> turbo_cache" where
  "fill_loop T (p # q # r) cache =
     (if bi_IsProofOfStake p \<and> cache (phashBlock p) = None then
        (case stake_address T p of None \<Rightarrow> (4, cache) | Some a \<Rightarrow> fill_loop T (q # r) (cache(phashBlock p \<mapsto> a)))
      else fill_loop T (q # r) cache)"
| "fill_loop T c cache = (0, cache)"

definition FillMapTurboAddress :: "turbo_env \<Rightarrow> chain \<Rightarrow> chain \<Rightarrow> turbo_cache \<Rightarrow> nat \<times> turbo_cache" where
  "FillMapTurboAddress T pindexLastTurbo pindexBest cache =
     (let pindex = (if pindexLastTurbo \<noteq> [] then pindexLastTurbo else pindexBest) in
      if pindex = [] then (1, cache)
      else if tl pindex = [] then (2, cache)
      else let pindex' = (if bi_GetBlockTime (hd pindex) > nTurboEndTime \<or> \<not> bi_IsProofOfStake (hd pindex)
                          then find_turbo pindex else pindex)
           in if tl pindex' = [] then (3, cache) else fill_loop T pindex' cache)"

section \<open>Coin age\<close>

abbreviation (input) MAX_COIN_SECONDS :: int where "MAX_COIN_SECONDS \<equiv> 8 * 24 * 60 * 60"

text \<open>\<open>CTransaction::ReadFromDisk(txdb, prevout, txindexRet)\<close>.\<close>

definition ReadTxFromDisk ::
  "(uint256 \<Rightarrow> CTxIndex option) \<Rightarrow> (CDiskTxPos \<Rightarrow> CTransaction option) \<Rightarrow> COutPoint \<Rightarrow> (CTransaction \<times> CTxIndex) option" where
  "ReadTxFromDisk rd disk out = do {
     txindex \<leftarrow> rd (op_hash out); tx \<leftarrow> disk (ti_pos txindex);
     if unat (op_n out) \<ge> length (vout tx) then None else Some (tx, txindex) }"

fun coin_age_loop ::
  "(uint256 \<Rightarrow> CTxIndex option) \<Rightarrow> (CDiskTxPos \<Rightarrow> CTransaction option) \<Rightarrow> (u32 \<Rightarrow> u32 \<Rightarrow> CBlock option) \<Rightarrow> int \<Rightarrow> u32 \<Rightarrow> CTxIn list \<Rightarrow> int \<Rightarrow> int option" where
  "coin_age_loop rd disk blk minAge t [] bnCentSecond = Some bnCentSecond"
| "coin_age_loop rd disk blk minAge t (txin # r) bnCentSecond =
     (case ReadTxFromDisk rd disk (prevout txin) of None \<Rightarrow> coin_age_loop rd disk blk minAge t r bnCentSecond
      | Some (txPrev, txindex) \<Rightarrow>
          if t < tx_nTime txPrev then None
          else case blk (pos_nFile (ti_pos txindex)) (pos_nBlockPos (ti_pos txindex)) of None \<Rightarrow> None
          | Some block \<Rightarrow>
              if uint (blk_nTime block) + minAge > uint t then coin_age_loop rd disk blk minAge t r bnCentSecond
              else let bnSeconds = min (uint (t - tx_nTime txPrev)) MAX_COIN_SECONDS;
                       v = sint (nValue (vout txPrev ! unat (op_n (prevout txin))))
                   in coin_age_loop rd disk blk minAge t r (bnCentSecond + the (bn_div (v * bnSeconds) CENT)))"

definition GetCoinAge ::
  "bn_lib \<Rightarrow> (uint256 \<Rightarrow> CTxIndex option) \<Rightarrow> (CDiskTxPos \<Rightarrow> CTransaction option) \<Rightarrow> (u32 \<Rightarrow> u32 \<Rightarrow> CBlock option) \<Rightarrow> int \<Rightarrow> CTransaction \<Rightarrow> u64 option" where
  "GetCoinAge L rd disk blk minAge tx =
     (if IsCoinBase tx then Some 0
      else map_option (\<lambda>bnCentSecond. getuint64 L (the (bn_div (bnCentSecond * CENT) (24 * 60 * 60))))
             (coin_age_loop rd disk blk minAge (tx_nTime tx) (vin tx) 0))"

fun block_age_loop :: "(CTransaction \<Rightarrow> u64 option) \<Rightarrow> CTransaction list \<Rightarrow> u64 \<Rightarrow> u64 option" where
  "block_age_loop age [] nCoinAge = Some nCoinAge"
| "block_age_loop age (tx # r) nCoinAge =
     (case age tx of None \<Rightarrow> None | Some nTxCoinAge \<Rightarrow> block_age_loop age r (nCoinAge + nTxCoinAge))"

definition CBlock_GetCoinAge :: "(CTransaction \<Rightarrow> u64 option) \<Rightarrow> CBlock \<Rightarrow> u64 option" where
  "CBlock_GetCoinAge age b = map_option (\<lambda>n. if n = 0 then 1 else n) (block_age_loop age (vtx b) 0)"


section \<open>The multiplier is bounded and its counters stay small\<close>

lemma turbo_loop_counts:
  "fst (turbo_loop T a lookback spacing cache c t b tlast) = Inr (t', b') \<Longrightarrow> 0 < spacing \<Longrightarrow> lookback \<le> tlast \<Longrightarrow>
   t \<le> t' \<and> int (t' - t) * spacing \<le> tlast - lookback \<and> b \<le> b' \<and> b' - b \<le> length c \<and> t' - t \<le> b' - b"
proof (induction T a lookback spacing cache c t b tlast rule: turbo_loop.induct)
  case (1 T a lookback spacing cache p q r t b tlast)
  consider (stop) "bi_GetBlockTime p < lookback"
    | (pow) "\<not> bi_GetBlockTime p < lookback" "\<not> bi_IsProofOfStake p"
    | (pos) "\<not> bi_GetBlockTime p < lookback" "bi_IsProofOfStake p" by blast
  then show ?case
  proof cases
    case stop
    then show ?thesis using "1.prems" by auto
  next
    case pow
    then have "fst (turbo_loop T a lookback spacing cache (q # r) t (Suc b) tlast) = Inr (t', b')" using "1.prems"(1) by simp
    from "1.IH"(3) [OF pow this "1.prems"(2,3)] show ?thesis by auto
  next
    case pos
    from "1.prems"(1) pos obtain x cache' where x: "cached_address T cache p = Some (x, cache')"
      by (auto split: option.splits)
    show ?thesis
    proof (cases "b58_CompareTo x a = 0")
      case True
      then have s: "\<not> tlast - bi_GetBlockTime p < spacing" using "1.prems"(1) pos x by auto
      have "fst (turbo_loop T a lookback spacing cache' (q # r) (Suc t) (Suc b) (bi_GetBlockTime p)) = Inr (t', b')"
        using "1.prems"(1) pos x True s by simp
      from "1.IH"(1) [OF pos x refl True s this "1.prems"(2)] pos(1)
      have IH: "Suc t \<le> t'" "int (t' - Suc t) * spacing \<le> bi_GetBlockTime p - lookback" "Suc b \<le> b'"
        "b' - Suc b \<le> length (q # r)" "t' - Suc t \<le> b' - Suc b" by auto
      have "int (t' - t) * spacing = int (t' - Suc t) * spacing + spacing"
        using IH(1) by (simp add: of_nat_diff algebra_simps)
      then show ?thesis using IH s by auto
    next
      case False
      then have "fst (turbo_loop T a lookback spacing cache' (q # r) t (Suc b) tlast) = Inr (t', b')"
        using "1.prems"(1) pos x by simp
      from "1.IH"(2) [OF pos x refl False this "1.prems"(2,3)] show ?thesis by auto
    qed
  qed
qed auto

lemma turbo_loop_values:
  "fst (turbo_loop T a lookback spacing cache c t b tlast) = Inl v \<Longrightarrow> v = 0 \<or> v = -5"
  by (induction T a lookback spacing cache c t b tlast rule: turbo_loop.induct) (auto split: if_splits option.splits)

lemma turbo_result_range:
  assumes "0 < t" "t \<le> b"
  shows "0 \<le> turbo_result txTime t b \<and> turbo_result txTime t b \<le> MAX_TURBO_MULTIPLIER"
proof (cases "int b div int t < MAX_TURBO_FRACTION_INV")
  case False
  then have "5 \<le> b div t" by (simp flip: of_nat_div)
  then have "5 * int t \<le> int b" using assms(1) by (simp add: less_eq_div_iff_mult_less_eq)
  then have "int t * MAX_TURBO_MULTIPLIER * MAX_TURBO_FRACTION_INV div int b \<le> 288 * int b div int b"
    using assms by (intro zdiv_mono1) auto
  then show ?thesis using False assms by (auto simp: turbo_result_def Let_def div_int_pos_iff)
qed (simp add: turbo_result_def)


lemma fst_multiplier:
  "fst (GetTurboStakeMultiplier T address txTime pindex cache) =
    (if txTime > nTurboEndTime then 1 else if tl pindex = [] then -4
     else case fst (turbo_loop T address (txTime - nTurboLookback)
         ((if bi_GetBlockTime (hd pindex) < nSpacing2Time then nTargetSpacing else nTargetSpacing2) - 2) cache pindex 1 1 txTime) of
       Inl v \<Rightarrow> v | Inr (t, b) \<Rightarrow> turbo_result txTime t b)"
  by (simp add: GetTurboStakeMultiplier_def Let_def split: sum.splits prod.splits)

lemma snd_multiplier:
  "snd (GetTurboStakeMultiplier T address txTime pindex cache) =
    (if txTime > nTurboEndTime \<or> tl pindex = [] then cache
     else snd (turbo_loop T address (txTime - nTurboLookback)
         ((if bi_GetBlockTime (hd pindex) < nSpacing2Time then nTargetSpacing else nTargetSpacing2) - 2) cache pindex 1 1 txTime))"
  by (simp add: GetTurboStakeMultiplier_def Let_def split: sum.splits prod.splits)

lemma turbo_counts:
  assumes "fst (turbo_loop T address (txTime - nTurboLookback) spacing cache pindex 1 1 txTime) = Inr (t, b)" "118 \<le> spacing"
  shows "0 < t \<and> t \<le> b \<and> b \<le> length pindex + 1 \<and> int t * MAX_TURBO_MULTIPLIER * MAX_TURBO_FRACTION_INV < 2 ^ 31"
proof -
  from turbo_loop_counts [OF assms(1)] assms(2)
  have c: "1 \<le> t" "int (t - 1) * spacing \<le> nTurboLookback" "b - 1 \<le> length pindex" "t - 1 \<le> b - 1" "1 \<le> b" by auto
  have "int (t - 1) * 118 \<le> int (t - 1) * spacing" using assms(2) by (intro mult_left_mono) auto
  then show ?thesis using c by auto
qed

lemma multiplier_range:
  "fst (GetTurboStakeMultiplier T address txTime pindex cache) \<in> {-5, -4} \<union> {0..MAX_TURBO_MULTIPLIER}"
proof -
  define spacing where "spacing = (if bi_GetBlockTime (hd pindex) < nSpacing2Time then nTargetSpacing else nTargetSpacing2) - 2"
  have sp: "118 \<le> spacing" by (simp add: spacing_def)
  show ?thesis
  proof (cases "fst (turbo_loop T address (txTime - nTurboLookback) spacing cache pindex 1 1 txTime)")
    case (Inl v)
    then show ?thesis unfolding fst_multiplier spacing_def [symmetric] using turbo_loop_values [OF Inl] by auto
  next
    case (Inr tb)
    obtain t b where tb: "tb = (t, b)" by (cases tb)
    note Inr = Inr [unfolded tb]
    from turbo_counts [OF Inr sp] turbo_result_range [of t b txTime] Inr
    show ?thesis unfolding fst_multiplier spacing_def [symmetric] by auto
  qed
qed

section \<open>The cache of signing addresses is transparent\<close>

definition cache_ok :: "turbo_env \<Rightarrow> CBlockIndex set \<Rightarrow> turbo_cache \<Rightarrow> bool" where
  "cache_ok T S cache \<longleftrightarrow> (\<forall>p \<in> S. \<forall>a. cache (phashBlock p) = Some a \<longrightarrow> stake_address T p = Some a)"

lemma cache_ok_empty: "cache_ok T S Map.empty"
  by (simp add: cache_ok_def)

lemma cache_ok_upd:
  "cache_ok T S cache \<Longrightarrow> inj_on phashBlock S \<Longrightarrow> p \<in> S \<Longrightarrow> stake_address T p = Some a \<Longrightarrow>
   cache_ok T S (cache(phashBlock p \<mapsto> a))"
  by (auto simp: cache_ok_def dest: inj_onD)

lemma cached_address_ok:
  assumes "cache_ok T S cache" "p \<in> S"
  shows "cached_address T cache p = map_option (\<lambda>a. (a, cache(phashBlock p \<mapsto> a))) (stake_address T p)"
  using assms by (auto simp: cached_address_def cache_ok_def fun_upd_idem split: option.splits)

lemma turbo_loop_cache:
  "cache_ok T S cache \<Longrightarrow> cache_ok T S cache2 \<Longrightarrow> inj_on phashBlock S \<Longrightarrow> set c \<subseteq> S \<Longrightarrow>
   fst (turbo_loop T a lookback spacing cache c t b tlast) = fst (turbo_loop T a lookback spacing cache2 c t b tlast) \<and>
   cache_ok T S (snd (turbo_loop T a lookback spacing cache c t b tlast))"
proof (induction T a lookback spacing cache c t b tlast arbitrary: cache2 rule: turbo_loop.induct)
  case (1 T a lookback spacing cache p q r t b tlast)
  have p: "p \<in> S" "set (q # r) \<subseteq> S" using "1.prems"(4) by auto
  note ca = cached_address_ok [OF "1.prems"(1) p(1)] cached_address_ok [OF "1.prems"(2) p(1)]
  show ?case
  proof (cases "bi_GetBlockTime p < lookback")
    case True
    then show ?thesis using "1.prems"(1) by simp
  next
    case late: False
    show ?thesis
    proof (cases "bi_IsProofOfStake p")
      case False
      from "1.IH"(3) [OF late False "1.prems"(1,2,3) p(2)] show ?thesis using late False by simp
    next
      case True
      show ?thesis
      proof (cases "stake_address T p")
        case None
        then show ?thesis using late True ca "1.prems"(1) by simp
      next
        case (Some x)
        obtain C where c1: "cached_address T cache p = Some (x, C)" and C: "cache_ok T S C"
          using ca(1) Some cache_ok_upd [OF "1.prems"(1,3) p(1) Some] by auto
        obtain C2 where c2: "cached_address T cache2 p = Some (x, C2)" and C2: "cache_ok T S C2"
          using ca(2) Some cache_ok_upd [OF "1.prems"(2,3) p(1) Some] by auto
        note ok = C C2
        consider (other) "b58_CompareTo x a \<noteq> 0"
          | (close) "b58_CompareTo x a = 0" "tlast - bi_GetBlockTime p < spacing"
          | (counted) "b58_CompareTo x a = 0" "\<not> tlast - bi_GetBlockTime p < spacing" by blast
        then show ?thesis
        proof cases
          case other
          from "1.IH"(2) [OF late True c1 refl other ok "1.prems"(3) p(2)] show ?thesis using late True c1 c2 other by simp
        next
          case close
          then show ?thesis using late True c1 c2 ok(1) by simp
        next
          case counted
          from "1.IH"(1) [OF late True c1 refl counted ok "1.prems"(3) p(2)] show ?thesis using late True c1 c2 counted by simp
        qed
      qed
    qed
  qed
qed auto

lemma fill_loop_cache:
  "cache_ok T S cache \<Longrightarrow> inj_on phashBlock S \<Longrightarrow> set c \<subseteq> S \<Longrightarrow> cache_ok T S (snd (fill_loop T c cache))"
  by (induction T c cache rule: fill_loop.induct) (auto split: option.splits simp: cache_ok_upd)

lemma find_turbo_set: "set (find_turbo c) \<subseteq> set c"
  by (induction c rule: find_turbo.induct) auto

section \<open>Main results\<close>

text \<open>
  the turbo multiplier is between 0 and 288 or one of the two error codes.  The spacing check keeps the number of
  counted stakes of one address within two days so small that the product in 32-bit arithmetic never overflows.
\<close>

theorem GetTurboStakeMultiplier_bounds:
  "fst (GetTurboStakeMultiplier T address txTime pindex cache) \<in> {-5, -4} \<union> {0..MAX_TURBO_MULTIPLIER} \<and>
   (case fst (turbo_loop T address (txTime - nTurboLookback)
       ((if bi_GetBlockTime (hd pindex) < nSpacing2Time then nTargetSpacing else nTargetSpacing2) - 2) cache pindex 1 1 txTime) of
      Inl v \<Rightarrow> v = 0 \<or> v = -5
    | Inr (turbo_count, block_count) \<Rightarrow>
        0 < turbo_count \<and> turbo_count \<le> block_count \<and> block_count \<le> length pindex + 1
        \<and> int turbo_count * MAX_TURBO_MULTIPLIER * MAX_TURBO_FRACTION_INV < 2 ^ 31)"
proof (rule conjI [OF multiplier_range], goal_cases)
  case 1
  define spacing where "spacing = (if bi_GetBlockTime (hd pindex) < nSpacing2Time then nTargetSpacing else nTargetSpacing2) - 2"
  have "118 \<le> spacing" by (simp add: spacing_def)
  from turbo_counts [OF _ this] show ?case
    unfolding spacing_def [symmetric]
    using turbo_loop_values by (auto split: sum.splits prod.splits)
qed

lemma base_subsidy_range:
  assumes "0 \<le> age" "age < 2 ^ 63" "0 \<le> sint (nMoneySupply p)"
  shows "0 \<le> base_subsidy age p \<and> base_subsidy age p \<le> 2 ^ 52"
proof -
  have "sgn age * (\<bar>age\<bar> div COIN) = age div COIN" using assms(1) by (cases "age = 0") auto
  moreover have "age div COIN \<le> 2 ^ 63 div COIN" using assms(2) by (intro zdiv_mono1) auto
  moreover have "sint (nMoneySupply p) div 2 ^ 24 \<le> 2 ^ 63 div 2 ^ 24"
    using sint64_bounds(2) [of "nMoneySupply p"] by (intro zdiv_mono1) auto
  ultimately show ?thesis using assms(1,3) by (auto simp: base_subsidy_def)
qed

text \<open>
  C26: for a non-negative coin age and money supply the stake reward is exactly the base subsidy times the
  multiplier (nothing when the multiplier is below one): no 64-bit overflow occurs.
\<close>

theorem GetProofOfStakeReward_exact:
  assumes "0 \<le> sint nCoinAge" "0 \<le> sint (nMoneySupply (hd pindexPrev))"
  shows "sint (fst (GetProofOfStakeReward T nCoinAge address nTime pindexPrev cache)) =
    base_subsidy (sint nCoinAge) (hd pindexPrev) * max 0 (fst (GetTurboStakeMultiplier T address nTime pindexPrev cache))"
proof -
  define s where "s = base_subsidy (sint nCoinAge) (hd pindexPrev)"
  obtain m cache' where m: "GetTurboStakeMultiplier T address nTime pindexPrev cache = (m, cache')" by (metis surj_pair)
  have s: "0 \<le> s" "s \<le> 2 ^ 52" using base_subsidy_range [OF assms(1) sint64_bounds(2) assms(2)] by (auto simp: s_def)
  have mr: "m \<le> 288" using multiplier_range [of T address nTime pindexPrev cache] m by auto
  have "s * m \<le> 2 ^ 52 * 288" if "1 < m" using s mr that by (intro mult_mono) auto
  moreover have "0 \<le> s * m" if "1 < m" using s that by auto
  ultimately have e: "sint (word_of_int (s * m) :: i64) = s * m" if "1 < m" using that by (intro sint_word_of_int) auto
  have "sint (word_of_int s :: i64) = s" using s by (intro sint_word_of_int) auto
  moreover have "word_of_int s * word_of_int m = (word_of_int (s * m) :: i64)" by simp
  ultimately show ?thesis
    unfolding GetProofOfStakeReward_def m s_def [symmetric] using e by (auto simp: Let_def max_def)
qed

text \<open>
  C27: the cache of signing addresses never changes the multiplier, and both its users keep it consistent with the
  blocks, provided that different blocks have different hashes.
\<close>

theorem turbo_cache_transparent:
  assumes "inj_on phashBlock S" "cache_ok T S cache" "set pindex \<subseteq> S" "set lastTurbo \<subseteq> S" "set best \<subseteq> S"
  shows "fst (GetTurboStakeMultiplier T address txTime pindex cache) = fst (GetTurboStakeMultiplier T address txTime pindex Map.empty)
    \<and> cache_ok T S (snd (GetTurboStakeMultiplier T address txTime pindex cache))
    \<and> cache_ok T S (snd (FillMapTurboAddress T lastTurbo best cache))"
proof (intro conjI)
  note loop = turbo_loop_cache [OF assms(2) cache_ok_empty assms(1,3)]
  show "fst (GetTurboStakeMultiplier T address txTime pindex cache) = fst (GetTurboStakeMultiplier T address txTime pindex Map.empty)"
    unfolding fst_multiplier conjunct1 [OF loop] ..
  show "cache_ok T S (snd (GetTurboStakeMultiplier T address txTime pindex cache))"
    using loop assms(2) unfolding snd_multiplier by auto
  have "set (find_turbo c) \<subseteq> S" if "set c \<subseteq> S" for c using find_turbo_set that by blast
  then show "cache_ok T S (snd (FillMapTurboAddress T lastTurbo best cache))"
    using assms fill_loop_cache [OF assms(2,1)] by (auto simp: FillMapTurboAddress_def Let_def)
qed

section \<open>Instances\<close>

definition sample_stake :: "nat \<Rightarrow> u32 \<Rightarrow> CBlockIndex" where
  "sample_stake h t = (sample_index h t 0)\<lparr> nFlags := 1 \<rparr>"

definition sample_turbo :: turbo_env where
  "sample_turbo = \<lparr> te_hash = s_hash sample_lib, te_testnet = False,
     te_block = (\<lambda>_. sample_block\<lparr> vtx := [sample_tx, sample_tx\<lparr> vout :=
       [\<lparr> nValue = 0, scriptPubKey = [] \<rparr>, \<lparr> nValue = 5000, scriptPubKey = p2pkh 5 \<rparr>] \<rparr>] \<rparr>) \<rparr>"

definition turbo_chain :: chain where
  "turbo_chain = [sample_stake 2 1432630000, sample_stake 1 1432620500, sample_index 0 1432620000 0]"

lemma sample_stake_address: "stake_address sample_turbo p = Some (CBitcoinAddress_of False (CKeyID 5))"
  by (simp add: stake_address_def sample_turbo_def ExtractDestination_def Solver_p2pkh word_of_le_160)

lemma turbo_chain_inj: "inj_on phashBlock (set turbo_chain)"
  by (simp add: turbo_chain_def sample_stake_def sample_index_def)

lemma sample_multiplier:
  "GetTurboStakeMultiplier sample_turbo (CBitcoinAddress_of False (CKeyID 5)) 1432640000 turbo_chain Map.empty =
    (288, [2 \<mapsto> CBitcoinAddress_of False (CKeyID 5), 1 \<mapsto> CBitcoinAddress_of False (CKeyID 5)])"
  by (simp add: GetTurboStakeMultiplier_def turbo_chain_def sample_stake_def sample_index_def bi_GetBlockTime_def
      bi_IsProofOfStake_def cached_address_def sample_stake_address b58_CompareTo_eq turbo_result_def Let_def)

theorem GetProofOfStakeReward_exact_witness:
  "sint (fst (GetProofOfStakeReward sample_turbo 36500000000 (CBitcoinAddress_of False (CKeyID 5)) 1432640000 turbo_chain Map.empty))
    = 365 * 27397 * 288"
proof -
  have "base_subsidy (sint (36500000000 :: i64)) (hd turbo_chain) = 365 * 27397"
    by (simp add: base_subsidy_def turbo_chain_def sample_stake_def sample_index_def bi_GetBlockTime_def)
  moreover have "0 \<le> sint (nMoneySupply (hd turbo_chain))"
    by (simp add: turbo_chain_def sample_stake_def sample_index_def)
  ultimately show ?thesis
    using GetProofOfStakeReward_exact [of 36500000000 turbo_chain sample_turbo "CBitcoinAddress_of False (CKeyID 5)" 1432640000 Map.empty]
    by (simp add: sample_multiplier)
qed

theorem turbo_cache_transparent_witness:
  "fst (GetTurboStakeMultiplier sample_turbo (CBitcoinAddress_of False (CKeyID 5)) 1432640000 turbo_chain
     [1 \<mapsto> CBitcoinAddress_of False (CKeyID 5)]) = 288"
proof -
  have "cache_ok sample_turbo (set turbo_chain) [1 \<mapsto> CBitcoinAddress_of False (CKeyID 5)]"
    by (simp add: cache_ok_def sample_stake_address)
  from turbo_cache_transparent [OF turbo_chain_inj this subset_refl subset_refl subset_refl]
  show ?thesis by (simp add: sample_multiplier)
qed

end
