(* ===== verification/Kernel.thy ===== *)
theory Kernel
  imports TxConnect Rewards "HOL-Library.Product_Lexorder"
begin

text \<open>
  The stake kernel (\<open>kernel.cpp\<close>): the stake modifier assembled from the entropy bits of 64 selected blocks, the
  kernel hash of a coin stake and its target, and the checksum of the modifiers.

  \<open>mapBlockIndex\<close> is the function from block hashes to index entries.  A block index pointer that is followed
  through \<open>pprev\<close> is a \<open>chain\<close>; one that is followed through \<open>pnext\<close> is the list of the block and its
  successors on the main chain.
\<close>

section \<open>Definitions\<close>

abbreviation (input) nStakeMaxAge :: int where "nStakeMaxAge \<equiv> 60 * 60 * 24 * 6"
abbreviation (input) MODIFIER_INTERVAL_RATIO :: int where "MODIFIER_INTERVAL_RATIO \<equiv> 3"

definition GetWeight :: "params \<Rightarrow> int \<Rightarrow> int \<Rightarrow> int" where
  "GetWeight P nIntervalBeginning nIntervalEnd = min (nIntervalEnd - nIntervalBeginning - nStakeMinAge P) nStakeMaxAge"

fun back_to_modifier :: "chain \<Rightarrow> chain" where
  "back_to_modifier (p # q # r) = (if GeneratedStakeModifier p then p # q # r else back_to_modifier (q # r))"
| "back_to_modifier c = c"

definition GetLastStakeModifier :: "chain \<Rightarrow> (u64 \<times> int) option" where
  "GetLastStakeModifier pindex = (case back_to_modifier pindex of [] \<Rightarrow> None
     | p # _ \<Rightarrow> if GeneratedStakeModifier p then Some (nStakeModifier p, bi_GetBlockTime p) else None)"

definition GetStakeModifierSelectionIntervalSection :: "params \<Rightarrow> nat \<Rightarrow> int" where
  "GetStakeModifierSelectionIntervalSection P nSection =
     nModifierInterval P * 63 div (63 + (63 - int nSection) * (MODIFIER_INTERVAL_RATIO - 1))"

definition GetStakeModifierSelectionInterval :: "params \<Rightarrow> int" where
  "GetStakeModifierSelectionInterval P = sum_list (map (GetStakeModifierSelectionIntervalSection P) [0..<64])"

type_synonym candidates = "(int \<times> uint256) list"

definition selection_hash :: "hash_lib \<Rightarrow> u64 \<Rightarrow> CBlockIndex \<Rightarrow> uint256" where
  "selection_hash H nStakeModifierPrev pindex =
     (let hashSelection = Hash H (ser_word (hashProof pindex) @ ser_word nStakeModifierPrev)
      in if bi_IsProofOfStake pindex then drop_bit 32 hashSelection else hashSelection)"

text \<open>The last argument is \<open>hashBest\<close> and \<open>*pindexSelected\<close> once \<open>fSelected\<close>; \<open>None\<close> is the return value false.\<close>

fun select_loop ::
  "hash_lib \<Rightarrow> (uint256 \<Rightarrow> CBlockIndex option) \<Rightarrow> uint256 set \<Rightarrow> int \<Rightarrow> u64 \<Rightarrow> candidates \<Rightarrow> (uint256 \<times> CBlockIndex) option \<Rightarrow> CBlockIndex option" where
  "select_loop H mapBlockIndex selected stop prev [] best = map_option snd best"
| "select_loop H mapBlockIndex selected stop prev (item # r) best =
     (case mapBlockIndex (snd item) of None \<Rightarrow> None
      | Some pindex \<Rightarrow>
          if best \<noteq> None \<and> bi_GetBlockTime pindex > stop then map_option snd best
          else if phashBlock pindex \<in> selected then select_loop H mapBlockIndex selected stop prev r best
          else let hashSelection = selection_hash H prev pindex in
            select_loop H mapBlockIndex selected stop prev r
              (case best of None \<Rightarrow> Some (hashSelection, pindex)
               | Some (hashBest, _) \<Rightarrow> if hashSelection < hashBest then Some (hashSelection, pindex) else best))"

definition SelectBlockFromCandidates ::
  "hash_lib \<Rightarrow> (uint256 \<Rightarrow> CBlockIndex option) \<Rightarrow> candidates \<Rightarrow> uint256 set \<Rightarrow> int \<Rightarrow> u64 \<Rightarrow> CBlockIndex option" where
  "SelectBlockFromCandidates H mapBlockIndex vSortedByTimestamp selected nSelectionIntervalStop nStakeModifierPrev =
     select_loop H mapBlockIndex selected nSelectionIntervalStop nStakeModifierPrev vSortedByTimestamp None"

fun modifier_rounds ::
  "hash_lib \<Rightarrow> (uint256 \<Rightarrow> CBlockIndex option) \<Rightarrow> params \<Rightarrow> candidates \<Rightarrow> u64 \<Rightarrow> nat list \<Rightarrow> uint256 set \<Rightarrow> int \<Rightarrow> u64 \<Rightarrow> u64 option" where
  "modifier_rounds H mapBlockIndex P cands prev [] selected stop new = Some new"
| "modifier_rounds H mapBlockIndex P cands prev (nRound # rounds) selected stop new =
     (let stop' = stop + GetStakeModifierSelectionIntervalSection P nRound in
      case SelectBlockFromCandidates H mapBlockIndex cands selected stop' prev of None \<Rightarrow> None
      | Some pindex \<Rightarrow>
          modifier_rounds H mapBlockIndex P cands prev rounds (insert (phashBlock pindex) selected) stop'
            (new OR push_bit nRound (ucast (bi_GetStakeEntropyBit pindex))))"

definition candidates_of :: "int \<Rightarrow> chain \<Rightarrow> candidates" where
  "candidates_of nSelectionIntervalStart pindexPrev =
     sort (rev (map (\<lambda>p. (bi_GetBlockTime p, phashBlock p)) (takeWhile (\<lambda>p. bi_GetBlockTime p \<ge> nSelectionIntervalStart) pindexPrev)))"

definition ComputeNextStakeModifier ::
  "hash_lib \<Rightarrow> (uint256 \<Rightarrow> CBlockIndex option) \<Rightarrow> params \<Rightarrow> chain \<Rightarrow> (u64 \<times> bool) option" where
  "ComputeNextStakeModifier H mapBlockIndex P pindexPrev = (case pindexPrev of [] \<Rightarrow> Some (0, True)
     | tip # _ \<Rightarrow>
        (case GetLastStakeModifier pindexPrev of None \<Rightarrow> None
         | Some (modifier, nModifierTime) \<Rightarrow>
            if nModifierTime div nModifierInterval P \<ge> bi_GetBlockTime tip div nModifierInterval P
            then Some (modifier, False)
            else
              let start = bi_GetBlockTime tip div nModifierInterval P * nModifierInterval P - GetStakeModifierSelectionInterval P;
                  vSortedByTimestamp = candidates_of start pindexPrev
              in map_option (\<lambda>m. (m, True))
                   (modifier_rounds H mapBlockIndex P vSortedByTimestamp modifier
                      [0..<min 64 (length vSortedByTimestamp)] {} start 0)))"

fun kernel_loop :: "int \<Rightarrow> chain \<Rightarrow> int \<Rightarrow> (CBlockIndex \<times> int) option" where
  "kernel_loop until [] t = None"
| "kernel_loop until (p # next) t =
     (if t < until then
        (case next of [] \<Rightarrow> None
         | q # _ \<Rightarrow> kernel_loop until next (if GeneratedStakeModifier q then bi_GetBlockTime q else t))
      else Some (p, t))"

text \<open>\<open>pnext_of\<close> is the block indexed under a hash, followed by the blocks that \<open>pnext\<close> leads to.\<close>

definition GetKernelStakeModifier :: "params \<Rightarrow> (uint256 \<Rightarrow> chain option) \<Rightarrow> uint256 \<Rightarrow> u64 option" where
  "GetKernelStakeModifier P pnext_of hashBlockFrom = (case pnext_of hashBlockFrom of None \<Rightarrow> None
     | Some next \<Rightarrow>
         map_option (\<lambda>(p, _). nStakeModifier p)
           (kernel_loop (bi_GetBlockTime (hd next) + GetStakeModifierSelectionInterval P) next (bi_GetBlockTime (hd next))))"

record kernel_env =
  ke_lib :: script_lib
  ke_bn :: bn_lib
  ke_hash9 :: "byte list \<Rightarrow> uint256"
  ke_params :: params
  ke_pnext :: "uint256 \<Rightarrow> chain option"

definition coin_day_weight :: "params \<Rightarrow> CTransaction \<Rightarrow> COutPoint \<Rightarrow> u32 \<Rightarrow> int" where
  "coin_day_weight P txPrev out nTimeTx =
     the (bn_div (the (bn_div (sint (nValue (vout txPrev ! unat (op_n out))) * GetWeight P (uint (tx_nTime txPrev)) (uint nTimeTx)) COIN))
       (24 * 60 * 60))"

definition kernel_hash :: "hash_lib \<Rightarrow> u64 \<Rightarrow> u32 \<Rightarrow> u32 \<Rightarrow> CTransaction \<Rightarrow> COutPoint \<Rightarrow> u32 \<Rightarrow> uint256" where
  "kernel_hash H modifier nTimeBlockFrom nTxPrevOffset txPrev out nTimeTx =
     Hash H (ser_word modifier @ ser_word nTimeBlockFrom @ ser_word nTxPrevOffset @ ser_word (tx_nTime txPrev)
       @ ser_word (op_n out) @ ser_word nTimeTx)"

text \<open>The result is \<open>hashProofOfStake\<close> and \<open>targetProofOfStake\<close>; \<open>None\<close> is the return value false.\<close>

definition CheckStakeKernelHash ::
  "kernel_env \<Rightarrow> u32 \<Rightarrow> CBlock \<Rightarrow> u32 \<Rightarrow> CTransaction \<Rightarrow> COutPoint \<Rightarrow> u32 \<Rightarrow> (uint256 \<times> uint256) option" where
  "CheckStakeKernelHash K nBits blockFrom nTxPrevOffset txPrev out nTimeTx =
     (if nTimeTx < tx_nTime txPrev then None
      else let nTimeBlockFrom = blk_nTime blockFrom in
      if nTimeBlockFrom + word_of_int (nStakeMinAge (ke_params K)) > nTimeTx then None
      else
        let bnTarget = coin_day_weight (ke_params K) txPrev out nTimeTx * SetCompact (ke_bn K) nBits in
        case GetKernelStakeModifier (ke_params K) (ke_pnext K) (CBlock_GetHash (s_hash (ke_lib K)) (ke_hash9 K) blockFrom) of
          None \<Rightarrow> None
        | Some modifier \<Rightarrow>
            let hashProofOfStake = kernel_hash (s_hash (ke_lib K)) modifier nTimeBlockFrom nTxPrevOffset txPrev out nTimeTx in
            if uint hashProofOfStake > bnTarget then None else Some (hashProofOfStake, getuint256 (ke_bn K) bnTarget))"

definition CheckProofOfStake ::
  "kernel_env \<Rightarrow> (uint256 \<Rightarrow> CTxIndex option) \<Rightarrow> (CDiskTxPos \<Rightarrow> CTransaction option) \<Rightarrow> (u32 \<Rightarrow> u32 \<Rightarrow> CBlock option)
   \<Rightarrow> CTransaction \<Rightarrow> u32 \<Rightarrow> (uint256 \<times> uint256) checked" where
  "CheckProofOfStake K rd disk blk tx nBits =
     (if \<not> IsCoinStake tx then Inl (DoS 0 ''called on non-coinstake'')
      else let txin = vin tx ! 0 in
      case ReadTxFromDisk rd disk (prevout txin) of None \<Rightarrow> Inl (DoS 1 ''read txPrev failed'')
      | Some (txPrev, txindex) \<Rightarrow>
          if VerifySignature (ke_lib K) txPrev tx 0 0 \<noteq> Some True then Inl (DoS 100 ''VerifySignature failed on coinstake'')
          else case blk (pos_nFile (ti_pos txindex)) (pos_nBlockPos (ti_pos txindex)) of
            None \<Rightarrow> Inl (DoS 0 ''read block failed'')
          | Some block \<Rightarrow>
              (case CheckStakeKernelHash K nBits block (pos_nTxPos (ti_pos txindex) - pos_nBlockPos (ti_pos txindex))
                      txPrev (prevout txin) (tx_nTime tx) of
                 None \<Rightarrow> Inl (DoS 1 ''check kernel failed on coinstake'')
               | Some proof \<Rightarrow> Inr proof))"

definition CheckCoinStakeTimestamp :: "int \<Rightarrow> int \<Rightarrow> bool" where
  "CheckCoinStakeTimestamp nTimeBlock nTimeTx \<longleftrightarrow> nTimeBlock = nTimeTx"

text \<open>\<open>genesis\<close> is \<open>hashGenesisBlock\<close> or \<open>hashGenesisBlockTestNet\<close>; a violated assertion is \<open>None\<close>.\<close>

definition GetStakeModifierChecksum :: "hash_lib \<Rightarrow> uint256 \<Rightarrow> chain \<Rightarrow> u32 option" where
  "GetStakeModifierChecksum H genesis pindex = (case pindex of [] \<Rightarrow> None
     | p # pprev \<Rightarrow>
        if pprev = [] \<and> phashBlock p \<noteq> genesis then None
        else Some (ucast (drop_bit (256 - 32)
          (Hash H ((case pprev of [] \<Rightarrow> [] | q # _ \<Rightarrow> ser_word (nStakeModifierChecksum q))
             @ ser_word (nFlags p) @ ser_word (if bi_IsProofOfStake p then hashProof p else 0) @ ser_word (nStakeModifier p)))))
   )"

definition mapStakeModifierCheckpoints :: "bool \<Rightarrow> int \<Rightarrow> u32 option" where
  "mapStakeModifierCheckpoints testnet =
     (if testnet then [0 \<mapsto> 0xfd11f4e7] else [0 \<mapsto> 0x0e00670b, 87500 \<mapsto> 0x52296ad7])"

definition CheckStakeModifierCheckpoints :: "params \<Rightarrow> int \<Rightarrow> u32 \<Rightarrow> bool" where
  "CheckStakeModifierCheckpoints P height modsum = (case mapStakeModifierCheckpoints (fTestNet P) height of
     None \<Rightarrow> True | Some c \<Rightarrow> modsum = c)"


section \<open>Selection of one block\<close>

text \<open>The candidates are indexed under their hash and listed with their time.\<close>

definition indexed :: "(uint256 \<Rightarrow> CBlockIndex option) \<Rightarrow> candidates \<Rightarrow> bool" where
  "indexed mapBlockIndex cands \<longleftrightarrow>
     (\<forall>(t, h) \<in> set cands. \<exists>p. mapBlockIndex h = Some p \<and> phashBlock p = h \<and> bi_GetBlockTime p = t)"

abbreviation (input) block_of :: "(uint256 \<Rightarrow> CBlockIndex option) \<Rightarrow> int \<times> uint256 \<Rightarrow> CBlockIndex" where
  "block_of mapBlockIndex item \<equiv> the (mapBlockIndex (snd item))"

text \<open>
  The reference: of the candidates not yet selected, those up to the end of the interval, or else the earliest one;
  among these the first with the smallest selection hash.
\<close>

definition selection_pool :: "uint256 set \<Rightarrow> int \<Rightarrow> candidates \<Rightarrow> candidates" where
  "selection_pool selected stop cands =
     (let E = filter (\<lambda>(_, h). h \<notin> selected) cands; I = filter (\<lambda>(t, _). t \<le> stop) E in if I = [] then take 1 E else I)"

lemma arg_min_list_merge:
  "arg_min_list f (x # y # zs) = arg_min_list f ((if f y < f x then y else x) # zs)" for f :: "'a \<Rightarrow> 'b::linorder"
proof (cases zs)
  case (Cons a list)
  then show ?thesis by (auto simp: Let_def)
qed (auto simp: Let_def)

lemma select_loop_best:
  "indexed idx cands \<Longrightarrow> sorted (map fst cands) \<Longrightarrow> h = selection_hash H prev b \<Longrightarrow>
   select_loop H idx selected stop prev cands (Some (h, b)) =
     Some (arg_min_list (selection_hash H prev)
       (b # map (block_of idx) (filter (\<lambda>(t, h). h \<notin> selected \<and> t \<le> stop) cands)))"
proof (induction cands arbitrary: h b)
  case (Cons item r)
  obtain t k where item: "item = (t, k)" by (cases item)
  from Cons.prems(1) obtain p where p: "idx k = Some p" "phashBlock p = k" "bi_GetBlockTime p = t"
    by (auto simp: indexed_def item)
  have r: "indexed idx r" "sorted (map fst r)" using Cons.prems(1,2) by (auto simp: indexed_def)
  consider (late) "t > stop" | (taken) "\<not> t > stop" "k \<in> selected" | (new) "\<not> t > stop" "k \<notin> selected" by blast
  then show ?case
  proof cases
    case late
    then have "filter (\<lambda>(t, h). h \<notin> selected \<and> t \<le> stop) (item # r) = []"
      using Cons.prems(2) by (auto simp: item filter_empty_conv)
    then show ?thesis using late p by (simp add: item)
  next
    case taken
    then show ?thesis using Cons.IH [OF r Cons.prems(3)] p by (simp add: item)
  next
    case new
    then show ?thesis
      using Cons.IH [OF r refl, of p] Cons.IH [OF r refl, of b] Cons.prems(3) p
      by (simp add: item Let_def arg_min_list_merge del: arg_min_list.simps)
  qed
qed simp

lemma select_loop_none:
  "indexed idx cands \<Longrightarrow> sorted (map fst cands) \<Longrightarrow>
   select_loop H idx selected stop prev cands None =
     (case selection_pool selected stop cands of [] \<Rightarrow> None
      | pool \<Rightarrow> Some (arg_min_list (selection_hash H prev) (map (block_of idx) pool)))"
proof (induction cands)
  case (Cons item r)
  obtain t k where item: "item = (t, k)" by (cases item)
  from Cons.prems(1) obtain p where p: "idx k = Some p" "phashBlock p = k" "bi_GetBlockTime p = t"
    by (auto simp: indexed_def item)
  have r: "indexed idx r" "sorted (map fst r)" using Cons.prems(1,2) by (auto simp: indexed_def)
  show ?case
  proof (cases "k \<in> selected")
    case True
    then show ?thesis using Cons.IH [OF r] p by (simp add: item selection_pool_def)
  next
    case False
    have late: "filter (\<lambda>(t, h). h \<notin> selected \<and> t \<le> stop) r = []" if "t > stop"
      using that Cons.prems(2) by (auto simp: item filter_empty_conv)
    have "selection_pool selected stop (item # r) =
        item # filter (\<lambda>(t, h). h \<notin> selected \<and> t \<le> stop) r"
      using False late by (cases "t > stop") (auto simp: item selection_pool_def Let_def case_prod_unfold conj_commute)
    then show ?thesis
      using select_loop_best [OF r refl] False p by (simp add: item Let_def del: arg_min_list.simps)
  qed
qed (simp add: selection_pool_def)

text \<open>The block selected is one that was not selected before; there is one as long as not all are.\<close>

lemma selection_pool_subset: "set (selection_pool selected stop cands) \<subseteq> {(t, h). (t, h) \<in> set cands \<and> h \<notin> selected}"
  by (auto simp: selection_pool_def Let_def dest: in_set_takeD)

lemma selection_pool_empty: "selection_pool selected stop cands = [] \<longleftrightarrow> snd ` set cands \<subseteq> selected"
  by (auto simp: selection_pool_def Let_def filter_empty_conv)

lemma SelectBlock_some:
  assumes "indexed idx cands" "sorted (map fst cands)" "\<not> snd ` set cands \<subseteq> selected"
  shows "\<exists>p. SelectBlockFromCandidates H idx cands selected stop prev = Some p \<and> phashBlock p \<notin> selected
    \<and> phashBlock p \<in> snd ` set cands \<and> idx (phashBlock p) = Some p"
proof -
  define pool where "pool = selection_pool selected stop cands"
  define p where "p = arg_min_list (selection_hash H prev) (map (block_of idx) pool)"
  have ne: "pool \<noteq> []" using assms(3) by (simp add: pool_def selection_pool_empty)
  then have "p \<in> block_of idx ` set pool" using arg_min_list_in [of "map (block_of idx) pool"] by (auto simp: p_def)
  then obtain t k where k: "(t, k) \<in> set pool" "p = the (idx k)" by auto
  then have "(t, k) \<in> set cands" "k \<notin> selected" using selection_pool_subset by (auto simp: pool_def)
  with assms(1) k(2) have "idx k = Some p" "phashBlock p = k" by (auto simp: indexed_def)
  moreover have "SelectBlockFromCandidates H idx cands selected stop prev = Some p"
    using select_loop_none [OF assms(1,2)] ne
    by (simp add: SelectBlockFromCandidates_def pool_def [symmetric] p_def split: list.split)
  ultimately show ?thesis using \<open>(t, k) \<in> set cands\<close> \<open>k \<notin> selected\<close> by force
qed

section \<open>The modifier\<close>

lemma entropy_bit: "bi_GetStakeEntropyBit p = of_bool (bit (nFlags p) 1)"
  by (rule bit_word_eqI) (auto simp: bi_GetStakeEntropyBit_def bit_simps bit_1_iff of_bool_def intro: gr0I)

lemma bit_round:
  "bit (new OR push_bit n (ucast (bi_GetStakeEntropyBit p)) :: u64) i \<longleftrightarrow> bit new i \<or> i = n \<and> n < 64 \<and> bi_GetStakeEntropyBit p = 1"
  by (cases "bit (nFlags p) 1") (auto simp: entropy_bit bit_simps dest: bit_imp_le_length)

text \<open>The blocks chosen in consecutive rounds, one per bit.\<close>

definition contributes :: "u64 \<Rightarrow> CBlockIndex list \<Rightarrow> bool" where
  "contributes m bs \<longleftrightarrow> (\<forall>i < 64. bit m i \<longleftrightarrow> i < length bs \<and> bi_GetStakeEntropyBit (bs ! i) = 1)"

lemma contributes_snoc:
  assumes "contributes m bs" "length bs < 64"
  shows "contributes (m OR push_bit (length bs) (ucast (bi_GetStakeEntropyBit p))) (bs @ [p])"
  using assms unfolding contributes_def bit_round by (auto simp: nth_append less_Suc_eq)

text \<open>The blocks \<open>bs\<close> are those that the rounds before the current one selected, each among the candidates not selected before it.\<close>

definition selected_by :: "hash_lib \<Rightarrow> (uint256 \<Rightarrow> CBlockIndex option) \<Rightarrow> params \<Rightarrow> candidates \<Rightarrow> u64 \<Rightarrow> int \<Rightarrow> CBlockIndex list \<Rightarrow> bool" where
  "selected_by H idx P cands prev start bs \<longleftrightarrow>
     (\<forall>i < length bs. SelectBlockFromCandidates H idx cands (phashBlock ` set (take i bs))
        (start + (\<Sum>j \<leftarrow> [0..<Suc i]. GetStakeModifierSelectionIntervalSection P j)) prev = Some (bs ! i))"

lemma selected_by_snoc:
  assumes "selected_by H idx P cands prev start bs"
    "SelectBlockFromCandidates H idx cands (phashBlock ` set bs)
       (start + (\<Sum>j \<leftarrow> [0..<Suc (length bs)]. GetStakeModifierSelectionIntervalSection P j)) prev = Some p"
  shows "selected_by H idx P cands prev start (bs @ [p])"
  unfolding selected_by_def
proof (intro allI impI)
  fix i assume "i < length (bs @ [p])"
  then consider "i < length bs" | "i = length bs" by fastforce
  then show "SelectBlockFromCandidates H idx cands (phashBlock ` set (take i (bs @ [p])))
      (start + (\<Sum>j \<leftarrow> [0..<Suc i]. GetStakeModifierSelectionIntervalSection P j)) prev = Some ((bs @ [p]) ! i)"
    using assms by cases (auto simp: selected_by_def nth_append)
qed

lemma modifier_rounds_total:
  assumes "indexed idx cands" "sorted (map fst cands)" "n \<le> 64" "n \<le> card (snd ` set cands)"
  shows "length bs \<le> n \<Longrightarrow> distinct (map phashBlock bs) \<Longrightarrow> phashBlock ` set bs \<subseteq> snd ` set cands \<Longrightarrow>
    \<forall>p \<in> set bs. idx (phashBlock p) = Some p \<Longrightarrow> contributes new bs \<Longrightarrow> selected_by H idx P cands prev start bs \<Longrightarrow>
    stop = start + (\<Sum>j \<leftarrow> [0..<length bs]. GetStakeModifierSelectionIntervalSection P j) \<Longrightarrow>
    \<exists>m bs'. modifier_rounds H idx P cands prev [length bs..<n] (phashBlock ` set bs) stop new = Some m
      \<and> length bs' = n \<and> distinct (map phashBlock bs') \<and> phashBlock ` set bs' \<subseteq> snd ` set cands
      \<and> (\<forall>p \<in> set bs'. idx (phashBlock p) = Some p) \<and> contributes m bs' \<and> selected_by H idx P cands prev start bs'"
proof (induction "n - length bs" arbitrary: bs stop new)
  case 0
  then show ?case by (intro exI [of _ new] exI [of _ bs]) auto
next
  case (Suc k)
  have lt: "length bs < n" using Suc.hyps(2) by simp
  have "card (phashBlock ` set bs) < card (snd ` set cands)"
    using lt assms(4) card_length [of "map phashBlock bs"] by simp
  then have "\<not> snd ` set cands \<subseteq> phashBlock ` set bs" by (meson List.finite_set card_mono finite_imageI leD)
  from SelectBlock_some [OF assms(1,2) this]
  obtain p where p: "SelectBlockFromCandidates H idx cands (phashBlock ` set bs)
        (stop + GetStakeModifierSelectionIntervalSection P (length bs)) prev = Some p"
      "phashBlock p \<notin> phashBlock ` set bs" "phashBlock p \<in> snd ` set cands" "idx (phashBlock p) = Some p" by blast
  have c: "contributes (new OR push_bit (length bs) (ucast (bi_GetStakeEntropyBit p))) (bs @ [p])"
    using contributes_snoc Suc.prems(5) lt assms(3) by simp
  have stop: "stop + GetStakeModifierSelectionIntervalSection P (length bs)
      = start + (\<Sum>j \<leftarrow> [0..<length (bs @ [p])]. GetStakeModifierSelectionIntervalSection P j)"
    using Suc.prems(7) by simp
  then have sel: "selected_by H idx P cands prev start (bs @ [p])" using selected_by_snoc [OF Suc.prems(6)] p(1) by (simp add: add.assoc)
  have "[length bs..<n] = length bs # [length (bs @ [p])..<n]" using lt by (simp add: upt_conv_Cons)
  moreover have "insert (phashBlock p) (phashBlock ` set bs) = phashBlock ` set (bs @ [p])" by simp
  ultimately show ?case
    using Suc.hyps(1) [of "bs @ [p]", OF _ _ _ _ _ c sel stop] Suc.hyps(2) Suc.prems(2-4) p lt by (auto simp: Let_def)
qed

lemma candidates_of_props:
  assumes "\<forall>p \<in> set c. idx (phashBlock p) = Some p" "distinct (map phashBlock c)"
  shows "indexed idx (candidates_of start c)" "sorted (map fst (candidates_of start c))"
    "card (snd ` set (candidates_of start c)) = length (candidates_of start c)"
    "snd ` set (candidates_of start c) \<subseteq> phashBlock ` set c"
proof -
  define w where "w = takeWhile (\<lambda>p. bi_GetBlockTime p \<ge> start) c"
  have w: "set w \<subseteq> set c" "distinct (map phashBlock w)"
    using assms(2) by (auto simp: w_def distinct_map intro: inj_on_subset dest: set_takeWhileD)
  have s: "set (candidates_of start c) = (\<lambda>p. (bi_GetBlockTime p, phashBlock p)) ` set w"
    by (simp add: candidates_of_def w_def)
  show "indexed idx (candidates_of start c)" unfolding indexed_def s using assms(1) w(1) by auto
  show "snd ` set (candidates_of start c) \<subseteq> phashBlock ` set c" unfolding s using w(1) by auto
  have "snd ` set (candidates_of start c) = set (map phashBlock w)" unfolding s by (auto simp: image_image)
  then show "card (snd ` set (candidates_of start c)) = length (candidates_of start c)"
    using w(2) by (simp only: distinct_card) (simp add: candidates_of_def w_def)
  have "sorted (map fst (sort xs))" for xs :: candidates
    using sorted_sort [of xs] by (auto simp: sorted_iff_nth_mono less_eq_prod_def order_le_less)
  then show "sorted (map fst (candidates_of start c))" by (simp add: candidates_of_def)
qed

lemma GetLastStakeModifier_some:
  "c \<noteq> [] \<Longrightarrow> GeneratedStakeModifier (last c) \<Longrightarrow> \<exists>m t. GetLastStakeModifier c = Some (m, t)"
  unfolding GetLastStakeModifier_def by (induction c rule: back_to_modifier.induct) auto


section \<open>Main results\<close>



text \<open>
  C22: computing the next stake modifier never fails on a chain whose blocks are indexed under distinct hashes and
  whose genesis block has a modifier.  Within one modifier interval the last modifier is kept.  Otherwise one block per bit is
  selected, 64 or as many as there are candidates, each by \<open>SelectBlockFromCandidates\<close> among the candidates not selected in an earlier
  round; they are different blocks of the chain, and bit \<open>i\<close> of the new modifier is the entropy bit of the block of round \<open>i\<close>.
\<close>

theorem ComputeNextStakeModifier_total:
  assumes "\<forall>p \<in> set pindexPrev. mapBlockIndex (phashBlock p) = Some p" "distinct (map phashBlock pindexPrev)"
    "pindexPrev \<noteq> []" "GeneratedStakeModifier (last pindexPrev)"
    "start = bi_GetBlockTime (hd pindexPrev) div nModifierInterval P * nModifierInterval P - GetStakeModifierSelectionInterval P"
    "cands = candidates_of start pindexPrev"
  shows "\<exists>m t. GetLastStakeModifier pindexPrev = Some (m, t)
    \<and> (if t div nModifierInterval P \<ge> bi_GetBlockTime (hd pindexPrev) div nModifierInterval P
       then ComputeNextStakeModifier H mapBlockIndex P pindexPrev = Some (m, False)
       else (\<exists>m' bs. ComputeNextStakeModifier H mapBlockIndex P pindexPrev = Some (m', True)
         \<and> length bs = min 64 (length cands) \<and> set bs \<subseteq> set pindexPrev \<and> distinct bs
         \<and> (\<forall>i < length bs. SelectBlockFromCandidates H mapBlockIndex cands (phashBlock ` set (take i bs))
              (start + (\<Sum>j \<leftarrow> [0..<Suc i]. GetStakeModifierSelectionIntervalSection P j)) m = Some (bs ! i))
         \<and> (\<forall>i < 64. bit m' i \<longleftrightarrow> i < length bs \<and> bi_GetStakeEntropyBit (bs ! i) = 1)))"
proof -
  obtain tip r where c: "pindexPrev = tip # r" using assms(3) by (cases pindexPrev) auto
  obtain m0 t0 where l: "GetLastStakeModifier pindexPrev = Some (m0, t0)" using GetLastStakeModifier_some [OF assms(3,4)] by blast
  define n where "n = min 64 (length cands)"
  note cs = candidates_of_props [OF assms(1,2), of start, folded assms(6)]
  have "n \<le> 64" "n \<le> card (snd ` set cands)" by (simp_all add: n_def cs(3))
  from modifier_rounds_total [OF cs(1,2) this, of "[]" 0 H P m0 start start]
  obtain m bs where m: "modifier_rounds H mapBlockIndex P cands m0 [0..<n] {} start 0 = Some m"
      "length bs = n" "distinct (map phashBlock bs)" "phashBlock ` set bs \<subseteq> snd ` set cands"
      "\<forall>p \<in> set bs. mapBlockIndex (phashBlock p) = Some p" "contributes m bs" "selected_by H mapBlockIndex P cands m0 start bs"
    by (auto simp: contributes_def selected_by_def)
  have "set bs \<subseteq> set pindexPrev"
  proof
    fix p assume p: "p \<in> set bs"
    then have "phashBlock p \<in> phashBlock ` set pindexPrev" using m(4) cs(4) by blast
    then obtain q where "q \<in> set pindexPrev" "phashBlock q = phashBlock p" by (metis imageE)
    then show "p \<in> set pindexPrev" using assms(1) m(5) p by (metis option.inject)
  qed
  moreover have "distinct bs" using m(3) by (simp add: distinct_map)
  moreover have "ComputeNextStakeModifier H mapBlockIndex P pindexPrev =
      (if t0 div nModifierInterval P \<ge> bi_GetBlockTime tip div nModifierInterval P then Some (m0, False) else Some (m, True))"
    using m(1) l assms(5,6) by (simp add: ComputeNextStakeModifier_def c n_def Let_def)
  ultimately show ?thesis using l m(2,6,7) c unfolding contributes_def selected_by_def n_def
    by (intro exI [of _ m0] exI [of _ t0]) auto
qed


section \<open>Instances\<close>

definition kernel_chain :: chain where
  "kernel_chain = [(sample_index 1 1432640000 0)\<lparr> nFlags := 2 \<rparr>, (sample_index 0 1432620000 0)\<lparr> nFlags := 4 \<rparr>]"

definition kernel_index :: "uint256 \<Rightarrow> CBlockIndex option" where
  "kernel_index h = find (\<lambda>p. phashBlock p = h) kernel_chain"

lemmas kernel_simps = kernel_chain_def kernel_index_def sample_index_def bi_GetBlockTime_def


theorem ComputeNextStakeModifier_total_witness:
  "\<exists>m fGenerated. ComputeNextStakeModifier (s_hash sample_lib) kernel_index main_params kernel_chain = Some (m, fGenerated)"
proof -
  have "\<forall>p \<in> set kernel_chain. kernel_index (phashBlock p) = Some p" "distinct (map phashBlock kernel_chain)"
    "kernel_chain \<noteq> []" "GeneratedStakeModifier (last kernel_chain)"
    by (simp_all add: kernel_simps GeneratedStakeModifier_def)
  from ComputeNextStakeModifier_total [OF this refl refl, of main_params "s_hash sample_lib"] show ?thesis by (auto split: if_splits)
qed






end
