(* ===== verification/CheckBlock.thy ===== *)
theory CheckBlock
  imports Kernel
begin

text \<open>
  The checks of a block that need no context (\<open>main.cpp\<close>): \<open>CBlock::CheckBlockSignature\<close> and \<open>CBlock::CheckBlock\<close>.
  \<open>GetAdjustedTime()\<close> is an argument.
\<close>

section \<open>Definitions\<close>

definition PastDrift :: "int \<Rightarrow> int" where
  "PastDrift t = t - 10 * 60"

definition FutureDrift :: "int \<Rightarrow> int" where
  "FutureDrift t = t + 10 * 60"

abbreviation (input) blk_hash :: "kernel_env \<Rightarrow> CBlock \<Rightarrow> uint256" where
  "blk_hash K b \<equiv> CBlock_GetHash (s_hash (ke_lib K)) (ke_hash9 K) b"

abbreviation (input) blk_GetBlockTime :: "CBlock \<Rightarrow> int" where
  "blk_GetBlockTime b \<equiv> uint (blk_nTime b)"

definition CheckBlockSignature :: "kernel_env \<Rightarrow> CBlock \<Rightarrow> bool" where
  "CheckBlockSignature K b =
     (if IsProofOfWork b then vchBlockSig b = []
      else case Solver (scriptPubKey (vout (vtx b ! 1) ! 1)) of (ok, whichType, vSolutions) \<Rightarrow>
        if \<not> ok then False
        else if whichType = TX_PUBKEY then
          (if vchBlockSig b = [] then False else s_verify (ke_lib K) (vSolutions ! 0) (blk_hash K b) (vchBlockSig b))
        else False)"

definition check_stake_block :: "kernel_env \<Rightarrow> bool \<Rightarrow> CBlock \<Rightarrow> unit checked" where
  "check_stake_block K fCheckSig b =
     (if length (vout (vtx b ! 0)) \<noteq> 1 \<or> \<not> CTxOut_IsEmpty (vout (vtx b ! 0) ! 0)
        then Inl (DoS 100 ''coinbase output not empty for proof-of-stake block'')
      else if vtx b = [] \<or> \<not> IsCoinStake (vtx b ! 1) then Inl (DoS 100 ''second tx is not coinstake'')
      else if list_ex IsCoinStake (drop 2 (vtx b)) then Inl (DoS 100 ''more than one coinstake'')
      else if \<not> CheckCoinStakeTimestamp (blk_GetBlockTime b) (uint (tx_nTime (vtx b ! 1)))
        then Inl (DoS 50 ''coinstake timestamp violation'')
      else if fCheckSig \<and> \<not> CheckBlockSignature K b then Inl (DoS 100 ''bad proof-of-stake block signature'')
      else Inr ())"

fun check_block_txs :: "int \<Rightarrow> CTransaction list \<Rightarrow> unit checked" where
  "check_block_txs t [] = Inr ()"
| "check_block_txs t (tx # r) =
     (case CheckTransaction tx of Inl (DoS n _) \<Rightarrow> Inl (DoS n ''CheckTransaction failed'')
      | Inl (Throw m) \<Rightarrow> Inl (Throw m)
      | Inr _ \<Rightarrow> if t < uint (tx_nTime tx) then Inl (DoS 50 ''block timestamp earlier than transaction timestamp'')
                 else check_block_txs t r)"

definition CheckBlock :: "kernel_env \<Rightarrow> int \<Rightarrow> CBlock \<Rightarrow> bool \<Rightarrow> bool \<Rightarrow> bool \<Rightarrow> unit checked" where
  "CheckBlock K adjustedTime b fCheckPOW fCheckMerkleRoot fCheckSig =
     (if vtx b = [] \<or> length (vtx b) > MAX_BLOCK_SIZE \<or> size_CBlock b > MAX_BLOCK_SIZE
        then Inl (DoS 100 ''size limits failed'')
      else if fCheckPOW \<and> IsProofOfWork b \<and> \<not> CheckProofOfWork (ke_bn K) (ke_params K) (blk_hash K b) (blk_nBits b)
        then Inl (DoS 50 ''proof of work failed'')
      else if blk_GetBlockTime b > FutureDrift adjustedTime then Inl (DoS 0 ''block timestamp too far in the future'')
      else if vtx b = [] \<or> \<not> IsCoinBase (vtx b ! 0) then Inl (DoS 100 ''first tx is not coinbase'')
      else if list_ex IsCoinBase (drop 1 (vtx b)) then Inl (DoS 100 ''more than one coinbase'')
      else if blk_GetBlockTime b > FutureDrift (uint (tx_nTime (vtx b ! 0))) then Inl (DoS 50 ''coinbase timestamp is too early'')
      else andthen (if IsProofOfStake b then check_stake_block K fCheckSig b else Inr ())
       (andthen (check_block_txs (blk_GetBlockTime b) (vtx b))
       (if card (set (map (GetHash (s_hash (ke_lib K))) (vtx b))) \<noteq> length (vtx b) then Inl (DoS 100 ''duplicate transaction'')
        else if sum_list (map GetLegacySigOpCount (vtx b)) > MAX_BLOCK_SIGOPS then Inl (DoS 100 ''out-of-bounds SigOpCount'')
        else if fCheckMerkleRoot \<and> hashMerkleRoot b \<noteq> BuildMerkleTree (s_hash (ke_lib K)) b
          then Inl (DoS 100 ''hashMerkleRoot mismatch'')
        else Inr ())))"

section \<open>What an accepted block satisfies\<close>

lemma check_block_txs_ok:
  "check_block_txs t txs = Inr () \<longleftrightarrow> list_all (\<lambda>tx. CheckTransaction tx = Inr () \<and> uint (tx_nTime tx) \<le> t) txs"
  by (induction t txs rule: check_block_txs.induct) (auto split: sum.splits verdict.splits simp: not_less)

lemma list_ex_not: "\<not> list_ex P xs \<longleftrightarrow> list_all (\<lambda>x. \<not> P x) xs"
  by (simp add: list_ex_iff list_all_iff)

lemma if_Inl: "(if c then Inl e else r) = Inr u \<longleftrightarrow> \<not> c \<and> r = Inr u"
  by simp

lemma card_set_distinct: "card (set xs) = length xs \<longleftrightarrow> distinct xs"
  using card_distinct distinct_card by blast

definition well_staked :: "kernel_env \<Rightarrow> bool \<Rightarrow> CBlock \<Rightarrow> bool" where
  "well_staked K fCheckSig b \<longleftrightarrow>
     (\<exists>e. vout (vtx b ! 0) = [e] \<and> CTxOut_IsEmpty e) \<and> list_all (\<lambda>tx. \<not> IsCoinStake tx) (drop 2 (vtx b))
     \<and> blk_nTime b = tx_nTime (vtx b ! 1) \<and> (fCheckSig \<longrightarrow> CheckBlockSignature K b)"

lemma check_stake_block_ok:
  assumes "IsProofOfStake b"
  shows "check_stake_block K fCheckSig b = Inr () \<longleftrightarrow> well_staked K fCheckSig b"
proof -
  have "length v = 1 \<and> CTxOut_IsEmpty (v ! 0) \<longleftrightarrow> (\<exists>e. v = [e] \<and> CTxOut_IsEmpty e)" for v
    by (auto simp: length_Suc_conv)
  moreover have "IsCoinStake (vtx b ! 1)" "vtx b \<noteq> []" using assms by (auto simp: IsProofOfStake_def)
  ultimately show ?thesis
    by (auto simp: check_stake_block_def well_staked_def list_ex_not [symmetric] CheckCoinStakeTimestamp_def word_uint_eq_iff)
qed

text \<open>
  C4: \<open>CheckBlock\<close> accepts exactly the blocks that satisfy the consensus rules without context: size, proof of
  work, times, a coinbase in the first place and only there, the rules of a proof-of-stake block, valid and distinct
  transactions, few signature operations and the right Merkle root.
\<close>

theorem CheckBlock_iff:
  "CheckBlock K adjustedTime b fCheckPOW fCheckMerkleRoot fCheckSig = Inr () \<longleftrightarrow>
     size_CBlock b \<le> MAX_BLOCK_SIZE \<and> length (vtx b) \<le> MAX_BLOCK_SIZE
     \<and> (fCheckPOW \<and> IsProofOfWork b \<longrightarrow> CheckProofOfWork (ke_bn K) (ke_params K) (CBlock_GetHash (s_hash (ke_lib K)) (ke_hash9 K) b) (blk_nBits b))
     \<and> uint (blk_nTime b) \<le> adjustedTime + 600
     \<and> (\<exists>coinbase rest. vtx b = coinbase # rest \<and> IsCoinBase coinbase \<and> list_all (\<lambda>tx. \<not> IsCoinBase tx) rest
          \<and> uint (blk_nTime b) \<le> uint (tx_nTime coinbase) + 600)
     \<and> (IsProofOfStake b \<longrightarrow> well_staked K fCheckSig b)
     \<and> list_all (\<lambda>tx. CheckTransaction tx = Inr () \<and> uint (tx_nTime tx) \<le> uint (blk_nTime b)) (vtx b)
     \<and> distinct (map (GetHash (s_hash (ke_lib K))) (vtx b))
     \<and> sum_list (map GetLegacySigOpCount (vtx b)) \<le> MAX_BLOCK_SIGOPS
     \<and> (fCheckMerkleRoot \<longrightarrow> hashMerkleRoot b = BuildMerkleTree (s_hash (ke_lib K)) b)"
proof (cases "vtx b")
  case Nil
  then show ?thesis by (simp add: CheckBlock_def)
next
  case (Cons coinbase rest)
  have "(if IsProofOfStake b then check_stake_block K fCheckSig b else Inr ()) = Inr () \<longleftrightarrow> (IsProofOfStake b \<longrightarrow> well_staked K fCheckSig b)"
    using check_stake_block_ok by auto
  moreover have "card (set (map (GetHash (s_hash (ke_lib K))) (vtx b))) = length (vtx b) \<longleftrightarrow> distinct (map (GetHash (s_hash (ke_lib K))) (vtx b))"
    using card_set_distinct [of "map (GetHash (s_hash (ke_lib K))) (vtx b)"] by simp
  ultimately show ?thesis
    unfolding CheckBlock_def FutureDrift_def if_Inl andthen_Inr check_block_txs_ok
    using Cons by (simp add: list_ex_not not_less) argo
qed

section \<open>Instances\<close>

definition sample_coinbase :: CTransaction where
  "sample_coinbase = sample_tx\<lparr> vin := [\<lparr> prevout = null_outpoint, scriptSig = [1, 7, 8], nSequence = 0xffffffff \<rparr>] \<rparr>"

definition sample_coinstake :: CTransaction where
  "sample_coinstake = sample_tx\<lparr> vin := [\<lparr> prevout = \<lparr> op_hash = 9, op_n = 0 \<rparr>, scriptSig = [1, 5], nSequence = 0xffffffff \<rparr>],
     vout := [\<lparr> nValue = 0, scriptPubKey = [] \<rparr>, \<lparr> nValue = 20000000000000, scriptPubKey = [0x51] \<rparr>] \<rparr>"

text \<open>A proof-of-work block with a coin stake in the third place.\<close>

definition sample_pow_block :: CBlock where
  "sample_pow_block = sample_block\<lparr> vtx := [sample_coinbase, sample_tx, sample_coinstake] \<rparr>"

definition check_lib :: script_lib where
  "check_lib = sample_lib\<lparr> s_hash := \<lparr> SHA256 = (\<lambda>v. if length v = 32 then v else word_of_nat (length v) # replicate 31 0),
     SHA1 = (\<lambda>_. []), RIPEMD160 = (\<lambda>_. []) \<rparr> \<rparr>"

definition check_sample :: kernel_env where
  "check_sample = \<lparr> ke_lib = check_lib, ke_bn = mpi_ref, ke_hash9 = (\<lambda>_. 0), ke_params = main_params, ke_pnext = (\<lambda>_. None) \<rparr>"

lemmas sample_size = size_CTransaction_def size_CTxIn_def size_CTxOut_def size_vec_def size_string_def GetSizeOfCompactSize_def

lemma sample_tx_sel2: "strTxComment sample_tx = [104, 105]" "tx_nVersion sample_tx = 2"
  by (simp_all add: sample_tx_def)

lemma sample_kinds:
  "IsCoinBase sample_coinbase" "\<not> IsCoinStake sample_coinbase" "\<not> IsCoinBase sample_coinstake" "IsCoinStake sample_coinstake"
  by (simp_all add: sample_coinbase_def sample_coinstake_def sample_tx_sel IsCoinBase_def IsCoinStake_def
      COutPoint_IsNull_def CTxOut_IsEmpty_def null_outpoint_def)

lemma sample_sizes: "size_CTransaction sample_coinbase = 75" "size_CTransaction sample_tx = 74" "size_CTransaction sample_coinstake = 83"
  by (simp_all add: sample_coinbase_def sample_coinstake_def sample_tx_sel sample_tx_sel2 sample_size)

lemma sample_txs_ok:
  "CheckTransaction sample_coinbase = Inr ()" "CheckTransaction sample_tx = Inr ()" "CheckTransaction sample_coinstake = Inr ()"
  by (simp_all add: CheckTransaction_def sample_sizes sample_kinds sample_plain)
    (simp_all add: sample_coinbase_def sample_coinstake_def sample_tx_sel sample_tx_sel2 MoneyRange_def CTxOut_IsEmpty_def
      sample_kinds [unfolded sample_coinbase_def sample_coinstake_def] COutPoint_IsNull_def)

lemma sample_hashes: "GetHash (s_hash check_lib) tx = word_of_nat (size_CTransaction tx)" if "size_CTransaction tx < 256" "size_CTransaction tx \<noteq> 32"
  using that by (simp add: GetHash_def Hash_def check_lib_def word_of_le_def length_ser_CTransaction unat_byte_of_nat)

theorem CheckBlock_iff_witness:
  "CheckBlock check_sample 1442210400 sample_pow_block False False True = Inr () \<and> IsProofOfWork sample_pow_block
   \<and> IsCoinStake (vtx sample_pow_block ! 2)"
proof -
  have v: "vtx sample_pow_block = [sample_coinbase, sample_tx, sample_coinstake]" "vchBlockSig sample_pow_block = vchBlockSig sample_block"
      "blk_nTime sample_pow_block = blk_nTime sample_block"
    by (simp_all add: sample_pow_block_def)
  have sig: "sum_list (map GetLegacySigOpCount (vtx sample_pow_block)) \<le> MAX_BLOCK_SIGOPS" by code_simp
  have pow: "IsProofOfWork sample_pow_block" by (simp add: IsProofOfWork_def IsProofOfStake_def v sample_plain)
  have t: "tx_nTime sample_coinbase = 1442210400" "tx_nTime sample_coinstake = 1442210400"
    by (simp_all add: sample_coinbase_def sample_coinstake_def sample_tx_sel)
  have "CheckBlock check_sample 1442210400 sample_pow_block False False True = Inr ()"
    unfolding CheckBlock_iff using pow sig
    by (simp add: v sample_txs_ok sample_kinds sample_plain sample_hashes sample_sizes t size_CBlock_def sample_size(4-6) sample_block_def
        sample_tx_sel check_sample_def IsProofOfWork_def)
  then show ?thesis using pow by (simp add: v sample_kinds)
qed

end
