(* ===== verification/BlockDB.thy ===== *)
theory BlockDB
  imports TxDB CheckBlock
begin

text \<open>
  The block index on disk: \<open>CDiskBlockIndex\<close> (\<open>main.h\<close>) with its serialization, and the functions of \<open>CTxDB\<close> that store
  it and the hash of the best chain (\<open>txdb-leveldb.cpp\<close>).  The locale \<open>chain_store\<close> is the interface that connecting
  blocks needs: the store of the transaction index, on which these writes have no effect.
\<close>

section \<open>Definitions\<close>

record CDiskBlockIndex =
  di_index :: CBlockIndex
  di_blockHash :: uint256
  di_hashPrev :: uint256
  di_hashNext :: uint256

text \<open>The argument is the entry with its \<open>pprev\<close> chain, and the hash of \<open>pnext\<close> or 0.\<close>

definition CDiskBlockIndex_of :: "chain \<Rightarrow> uint256 \<Rightarrow> CDiskBlockIndex" where
  "CDiskBlockIndex_of pindex hashNext =
     \<lparr> di_index = hd pindex, di_blockHash = 0,
       di_hashPrev = (case tl pindex of [] \<Rightarrow> 0 | p # _ \<Rightarrow> phashBlock p), di_hashNext = hashNext \<rparr>"

definition ser_stake :: "CBlockIndex \<Rightarrow> byte list" where
  "ser_stake p = (if bi_IsProofOfStake p then ser_COutPoint (prevoutStake p) @ ser_word (nStakeTime p) else [])"

definition ser_CDiskBlockIndex :: "u32 \<Rightarrow> CDiskBlockIndex \<Rightarrow> byte list" where
  "ser_CDiskBlockIndex ver d = (let p = di_index d in
     ser_word ver @ ser_word (di_hashNext d) @ ser_word (nFile p) @ ser_word (nBlockPos p)
     @ ser_word (word_of_int (nHeight p) :: i32) @ ser_word (nMint p) @ ser_word (nMoneySupply p)
     @ ser_word (nFlags p) @ ser_word (nStakeModifier p)
     @ ser_stake p
     @ ser_word (hashProof p) @ ser_word (bi_nVersion p) @ ser_word (di_hashPrev d) @ ser_word (bi_hashMerkleRoot p)
     @ ser_word (bi_nTime p) @ ser_word (bi_nBits p) @ ser_word (bi_nNonce p) @ ser_word (di_blockHash d))"

definition unser_stake :: "u32 \<Rightarrow> byte list \<Rightarrow> ((COutPoint \<times> u32) \<times> byte list) option" where
  "unser_stake flags s =
     (if flags AND BLOCK_PROOF_OF_STAKE \<noteq> 0
      then do { (out, s) \<leftarrow> unser_COutPoint s; (t, s) \<leftarrow> unser_word s; Some ((out, t), s) }
      else Some ((null_outpoint, 0), s))"

text \<open>Entries that are read start as \<open>CBlockIndex()\<close>: the fields that are not stored are 0.\<close>

definition unser_CDiskBlockIndex :: "byte list \<Rightarrow> (CDiskBlockIndex \<times> byte list) option" where
  "unser_CDiskBlockIndex s = do {
     (ver :: u32, s) \<leftarrow> unser_word s; (hnext, s) \<leftarrow> unser_word s; (file, s) \<leftarrow> unser_word s; (bpos, s) \<leftarrow> unser_word s;
     (height :: i32, s) \<leftarrow> unser_word s; (mint, s) \<leftarrow> unser_word s; (supply, s) \<leftarrow> unser_word s;
     (flags, s) \<leftarrow> unser_word s; (modifier, s) \<leftarrow> unser_word s;
     ((out, stime), s) \<leftarrow> unser_stake flags s;
     (hproof, s) \<leftarrow> unser_word s; (version, s) \<leftarrow> unser_word s; (hprev, s) \<leftarrow> unser_word s; (root, s) \<leftarrow> unser_word s;
     (time, s) \<leftarrow> unser_word s; (bits, s) \<leftarrow> unser_word s; (nonce, s) \<leftarrow> unser_word s; (bhash, s) \<leftarrow> unser_word s;
     Some (\<lparr> di_index = \<lparr> phashBlock = 0, nFile = file, nBlockPos = bpos, nChainTrust = 0, nHeight = sint height, nMint = mint,
               nMoneySupply = supply, nFlags = flags, nStakeModifier = modifier, nStakeModifierChecksum = 0,
               prevoutStake = out, nStakeTime = stime, hashProof = hproof, bi_nVersion = version, bi_hashMerkleRoot = root,
               bi_nTime = time, bi_nBits = bits, bi_nNonce = nonce \<rparr>,
             di_blockHash = bhash, di_hashPrev = hprev, di_hashNext = hnext \<rparr>, s) }"

definition disk_header :: "CDiskBlockIndex \<Rightarrow> CBlock" where
  "disk_header d = (let p = di_index d in
     \<lparr> blk_nVersion = bi_nVersion p, hashPrevBlock = di_hashPrev d, hashMerkleRoot = bi_hashMerkleRoot p,
       blk_nTime = bi_nTime p, blk_nBits = bi_nBits p, blk_nNonce = bi_nNonce p, vtx = [], vchBlockSig = [] \<rparr>)"

text \<open>The result is the hash and the object, whose cached \<open>blockHash\<close> the function assigns.\<close>

definition CDiskBlockIndex_GetBlockHash ::
  "hash_lib \<Rightarrow> (byte list \<Rightarrow> uint256) \<Rightarrow> bool \<Rightarrow> int \<Rightarrow> CDiskBlockIndex \<Rightarrow> uint256 \<times> CDiskBlockIndex" where
  "CDiskBlockIndex_GetBlockHash H Hash9 fUseFastIndex adjustedTime d =
     (if fUseFastIndex \<and> uint (bi_nTime (di_index d)) < adjustedTime - 24 * 60 * 60 \<and> di_blockHash d \<noteq> 0
      then (di_blockHash d, d)
      else let h = CBlock_GetHash H Hash9 (disk_header d) in (h, d\<lparr> di_blockHash := h \<rparr>))"

definition str_bytes :: "string \<Rightarrow> byte list" where
  "str_bytes s = map (of_char :: char \<Rightarrow> byte) s"

definition index_key :: "uint256 \<Rightarrow> byte list" where
  "index_key hash = ser_pair ser_string ser_word (str_bytes ''blockindex'', hash)"

definition WriteBlockIndex ::
  "hash_lib \<Rightarrow> (byte list \<Rightarrow> uint256) \<Rightarrow> bool \<Rightarrow> int \<Rightarrow> CDiskBlockIndex \<Rightarrow> CTxDB \<Rightarrow> (bool \<times> CTxDB) option" where
  "WriteBlockIndex H Hash9 fUseFastIndex adjustedTime d s =
     (case CDiskBlockIndex_GetBlockHash H Hash9 fUseFastIndex adjustedTime d of
        (h, d') \<Rightarrow> db_Write (index_key h) (ser_CDiskBlockIndex CLIENT_VERSION d') s)"

definition best_key :: "byte list" where
  "best_key = ser_string (str_bytes ''hashBestChain'')"

definition ReadHashBestChain :: "CTxDB \<Rightarrow> uint256 option" where
  "ReadHashBestChain s = do { v \<leftarrow> db_Read s best_key; (h, r) \<leftarrow> unser_word v; Some h }"

definition WriteHashBestChain :: "uint256 \<Rightarrow> CTxDB \<Rightarrow> (bool \<times> CTxDB) option" where
  "WriteHashBestChain hash s = db_Write best_key (ser_word hash) s"

section \<open>Stored entries are read back\<close>

definition ok_CDiskBlockIndex :: "CDiskBlockIndex \<Rightarrow> bool" where
  "ok_CDiskBlockIndex d \<longleftrightarrow> (let p = di_index d in
     - (2 ^ 31) \<le> nHeight p \<and> nHeight p < 2 ^ 31 \<and> phashBlock p = 0 \<and> nChainTrust p = 0 \<and> nStakeModifierChecksum p = 0
     \<and> (\<not> bi_IsProofOfStake p \<longrightarrow> prevoutStake p = null_outpoint \<and> nStakeTime p = 0))"

lemma sint32_of_int: "- (2 ^ 31) \<le> z \<Longrightarrow> z < 2 ^ 31 \<Longrightarrow> sint (word_of_int z :: i32) = z"
  by (simp add: signed_take_bit_int_eq_self_iff sint_sbintrunc')

lemma unser_ser_CDiskBlockIndex:
  assumes "ok_CDiskBlockIndex d"
  shows "unser_CDiskBlockIndex (ser_CDiskBlockIndex v d @ r) = Some (d, r)"
proof -
  obtain p bh hp hn where d: "d = \<lparr> di_index = p, di_blockHash = bh, di_hashPrev = hp, di_hashNext = hn \<rparr>" by (cases d)
  have p: "sint (word_of_int (nHeight p) :: i32) = nHeight p" "phashBlock p = 0" "nChainTrust p = 0" "nStakeModifierChecksum p = 0"
    "\<not> bi_IsProofOfStake p \<Longrightarrow> prevoutStake p = null_outpoint \<and> nStakeTime p = 0"
    using assms sint32_of_int by (auto simp: ok_CDiskBlockIndex_def d)
  have st: "unser_stake (nFlags p) (ser_stake p @ s) = Some ((prevoutStake p, nStakeTime p), s)" for s
    using p(5) by (cases "bi_IsProofOfStake p")
      (simp_all add: unser_stake_def ser_stake_def bi_IsProofOfStake_def coder_simps outpoint.unser_ser)
  show ?thesis
    unfolding ser_CDiskBlockIndex_def unser_CDiskBlockIndex_def d Let_def
    by (simp add: coder_simps st p)
qed


text \<open>
  an entry of the block index with a 32-bit height is read back from the disk as it was written, except for
  the fields that are recomputed when the index is loaded.
\<close>

theorem CDiskBlockIndex_roundtrip:
  assumes "- (2 ^ 31) \<le> nHeight p" "nHeight p < 2 ^ 31"
    "\<not> bi_IsProofOfStake p \<Longrightarrow> prevoutStake p = null_outpoint \<and> nStakeTime p = 0"
  shows "unser_CDiskBlockIndex (ser_CDiskBlockIndex v \<lparr> di_index = p, di_blockHash = bh, di_hashPrev = hp, di_hashNext = hn \<rparr> @ r)
    = Some (\<lparr> di_index = p\<lparr> phashBlock := 0, nChainTrust := 0, nStakeModifierChecksum := 0 \<rparr>,
              di_blockHash = bh, di_hashPrev = hp, di_hashNext = hn \<rparr>, r)"
proof -
  let ?p = "p\<lparr> phashBlock := 0, nChainTrust := 0, nStakeModifierChecksum := 0 \<rparr>"
  let ?d = "\<lparr> di_index = ?p, di_blockHash = bh, di_hashPrev = hp, di_hashNext = hn \<rparr>"
  have "ok_CDiskBlockIndex ?d" using assms by (simp add: ok_CDiskBlockIndex_def bi_IsProofOfStake_def)
  moreover have "ser_CDiskBlockIndex v \<lparr> di_index = p, di_blockHash = bh, di_hashPrev = hp, di_hashNext = hn \<rparr> = ser_CDiskBlockIndex v ?d"
    by (simp add: ser_CDiskBlockIndex_def ser_stake_def bi_IsProofOfStake_def)
  ultimately show ?thesis by (simp only: unser_ser_CDiskBlockIndex)
qed

theorem CDiskBlockIndex_roundtrip_witness:
  "map_option (di_index \<circ> fst) (unser_CDiskBlockIndex (ser_CDiskBlockIndex CLIENT_VERSION
     \<lparr> di_index = sample_stake 7 1442210400, di_blockHash = 1, di_hashPrev = 2, di_hashNext = 0 \<rparr> @ [])) =
   Some ((sample_stake 7 1442210400)\<lparr> phashBlock := 0 \<rparr>)"
proof -
  have p: "nHeight (sample_stake 7 1442210400) = 7" "bi_IsProofOfStake (sample_stake 7 1442210400)"
    "nChainTrust (sample_stake 7 1442210400) = 0" "nStakeModifierChecksum (sample_stake 7 1442210400) = 0"
    by (simp_all add: sample_stake_def sample_index_def bi_IsProofOfStake_def)
  have "(sample_stake 7 1442210400)\<lparr> phashBlock := 0, nChainTrust := 0, nStakeModifierChecksum := 0 \<rparr> = (sample_stake 7 1442210400)\<lparr> phashBlock := 0 \<rparr>"
    by (simp add: sample_stake_def sample_index_def)
  then show ?thesis
    using CDiskBlockIndex_roundtrip [of "sample_stake 7 1442210400" CLIENT_VERSION 1 2 0 "[]"] p by simp
qed

section \<open>The interface for connecting blocks\<close>

locale chain_store = tx_store rd up er inv
  for rd :: "'db \<Rightarrow> uint256 \<Rightarrow> CTxIndex option"
    and up :: "uint256 \<Rightarrow> CTxIndex \<Rightarrow> 'db \<Rightarrow> (bool \<times> 'db) option"
    and er :: "uint256 \<Rightarrow> 'db \<Rightarrow> (bool \<times> 'db) option"
    and inv :: "'db \<Rightarrow> bool" +
  fixes wbi :: "CDiskBlockIndex \<Rightarrow> 'db \<Rightarrow> (bool \<times> 'db) option"
    and whb :: "uint256 \<Rightarrow> 'db \<Rightarrow> (bool \<times> 'db) option"
    and rhb :: "'db \<Rightarrow> uint256 option"
  assumes wbi_rd: "inv s \<Longrightarrow> \<exists>s'. wbi d s = Some (True, s') \<and> inv s' \<and> rd s' = rd s \<and> rhb s' = rhb s"
    and whb_rd: "inv s \<Longrightarrow> \<exists>s'. whb h s = Some (True, s') \<and> inv s' \<and> rd s' = rd s \<and> rhb s' = Some h"
    and up_rhb: "inv s \<Longrightarrow> up h ti s = Some (b, s') \<Longrightarrow> rhb s' = rhb s"
    and er_rhb: "inv s \<Longrightarrow> er h s = Some (b, s') \<Longrightarrow> rhb s' = rhb s"

lemma key_length: "length (tx_key h) = 35" "length (index_key h) = 43" "length best_key = 14"
  by (simp_all add: tx_key_def index_key_def best_key_def ser_pair_def ser_string_def str_bytes_def length_WriteCompactSize
      GetSizeOfCompactSize_def ser_word_def)

lemma key_distinct: "tx_key a \<noteq> index_key b" "tx_key a \<noteq> best_key" "index_key b \<noteq> best_key"
  by (auto dest!: arg_cong [where f = length] simp: key_length)

lemma ReadHashBestChain_kv: "db_inv s \<Longrightarrow> ReadHashBestChain s = do { v \<leftarrow> kv s best_key; (h, r) \<leftarrow> unser_word v; Some h }"
  by (simp add: ReadHashBestChain_def db_Read_kv db_inv_def)

lemma ReadTxIndex_kv_cong: "db_inv s \<Longrightarrow> db_inv s' \<Longrightarrow> (\<And>h. kv s' (tx_key h) = kv s (tx_key h)) \<Longrightarrow> ReadTxIndex s' = ReadTxIndex s"
  by (simp add: fun_eq_iff ReadTxIndex_kv)

interpretation chaindb: chain_store ReadTxIndex UpdateTxIndex EraseTxIndex db_inv
  "WriteBlockIndex H Hash9 fUseFastIndex adjustedTime" WriteHashBestChain ReadHashBestChain
  for H Hash9 fUseFastIndex adjustedTime
proof
  show "\<exists>s'. WriteBlockIndex H Hash9 fUseFastIndex adjustedTime d s = Some (True, s') \<and> db_inv s' \<and> ReadTxIndex s' = ReadTxIndex s
      \<and> ReadHashBestChain s' = ReadHashBestChain s" if i: "db_inv s" for d s
  proof -
    obtain h d' where h: "CDiskBlockIndex_GetBlockHash H Hash9 fUseFastIndex adjustedTime d = (h, d')" by (metis surj_pair)
    obtain s' where s': "db_Write (index_key h) (ser_CDiskBlockIndex CLIENT_VERSION d') s = Some (True, s')" "db_inv s'"
      "kv s' = (kv s)(index_key h \<mapsto> ser_CDiskBlockIndex CLIENT_VERSION d')" using db_Write_kv [OF i] by blast
    have "ReadTxIndex s' = ReadTxIndex s" by (rule ReadTxIndex_kv_cong [OF i s'(2)]) (simp add: s'(3) key_distinct)
    moreover have "ReadHashBestChain s' = ReadHashBestChain s"
      using key_distinct(3) [of h] by (simp add: ReadHashBestChain_kv i s'(2,3))
    ultimately show ?thesis using s' h by (simp add: WriteBlockIndex_def)
  qed
  show "\<exists>s'. WriteHashBestChain h s = Some (True, s') \<and> db_inv s' \<and> ReadTxIndex s' = ReadTxIndex s \<and> ReadHashBestChain s' = Some h"
    if i: "db_inv s" for h s
  proof -
    obtain s' where s': "db_Write best_key (ser_word h) s = Some (True, s')" "db_inv s'" "kv s' = (kv s)(best_key \<mapsto> ser_word h)"
      using db_Write_kv [OF i] by blast
    have "ReadTxIndex s' = ReadTxIndex s" by (rule ReadTxIndex_kv_cong [OF i s'(2)]) (simp add: s'(3) key_distinct)
    moreover have "ReadHashBestChain s' = Some h"
      using u256.unser_ser [of h "[]"] by (simp add: ReadHashBestChain_kv s'(2,3))
    ultimately show ?thesis using s' by (simp add: WriteHashBestChain_def)
  qed
  show "ReadHashBestChain s' = ReadHashBestChain s" if i: "db_inv s" "UpdateTxIndex h ti s = Some (b, s')" for s h ti b s'
    using db_Write_kv [OF i(1), of "tx_key h" "ser_CTxIndex CLIENT_VERSION ti"] i key_distinct(2) [of h]
    by (auto simp: UpdateTxIndex_def ReadHashBestChain_kv)
  show "ReadHashBestChain s' = ReadHashBestChain s" if i: "db_inv s" "EraseTxIndex h s = Some (b, s')" for s h b s'
    using db_Erase_kv [OF i(1), of "tx_key h"] i key_distinct(2) [of h]
    by (auto simp: EraseTxIndex_def ReadHashBestChain_kv)
qed

text \<open>
  The same laws hold inside a database transaction, where the writes collect in the batch and the database keeps the
  contents \<open>P\<close> it had at \<open>TxnBegin\<close>.
\<close>

definition in_txn :: "(byte list \<rightharpoonup> byte list) \<Rightarrow> CTxDB \<Rightarrow> bool" where
  "in_txn P s \<longleftrightarrow> db_inv s \<and> activeBatch s \<noteq> None \<and> pdb s = P"

lemma in_txn_inv: "in_txn P s \<Longrightarrow> db_inv s"
  by (simp add: in_txn_def)

lemma in_txn_write: "in_txn P s \<Longrightarrow> db_Write key v s = Some (b, s') \<Longrightarrow> in_txn P s'"
  by (auto simp: in_txn_def db_inv_def db_Write_def split: if_splits option.splits)

lemma in_txn_erase: "in_txn P s \<Longrightarrow> db_Erase key s = Some (b, s') \<Longrightarrow> in_txn P s'"
  by (auto simp: in_txn_def db_inv_def db_Erase_def split: if_splits option.splits)

interpretation chaintxn: chain_store ReadTxIndex UpdateTxIndex EraseTxIndex "in_txn P"
  "WriteBlockIndex H Hash9 fUseFastIndex adjustedTime" WriteHashBestChain ReadHashBestChain
  for P H Hash9 fUseFastIndex adjustedTime
proof (unfold_locales, goal_cases)
  case (1 s h ti)
  then show ?case by (rule ReadTxIndex_ok)
next
  case (2 s ti h)
  then show ?case using txdb.up_rd [OF in_txn_inv [OF 2(1)] 2(2), of h] in_txn_write [OF 2(1)] unfolding UpdateTxIndex_def by blast
next
  case (3 s h)
  then show ?case using txdb.er_rd [OF in_txn_inv [OF 3], of h] in_txn_erase [OF 3] unfolding EraseTxIndex_def by blast
next
  case (4 s d)
  then show ?case
    using chaindb.wbi_rd [OF in_txn_inv [OF 4], of H Hash9 fUseFastIndex adjustedTime d] in_txn_write [OF 4]
    unfolding WriteBlockIndex_def by (auto split: prod.splits)
next
  case (5 s h)
  then show ?case using chaindb.whb_rd [OF in_txn_inv [OF 5], of h] in_txn_write [OF 5] unfolding WriteHashBestChain_def by blast
next
  case (6 s h ti b s')
  then show ?case using chaindb.up_rhb [OF in_txn_inv] by blast
next
  case (7 s h b s')
  then show ?case using chaindb.er_rhb [OF in_txn_inv] by blast
qed

text \<open>Beginning, committing and aborting a transaction, as seen through the laws.\<close>

lemma kv_reads: "db_inv s \<Longrightarrow> db_inv s' \<Longrightarrow> kv s' = kv s \<Longrightarrow> ReadTxIndex s' = ReadTxIndex s \<and> ReadHashBestChain s' = ReadHashBestChain s"
  using ReadTxIndex_kv_cong [of s s'] by (simp add: ReadHashBestChain_kv)

lemma TxnBegin_txn:
  assumes "db_inv s" "activeBatch s = None"
  shows "\<exists>s'. TxnBegin s = Some (True, s') \<and> in_txn (pdb s) s' \<and> ReadTxIndex s' = ReadTxIndex s \<and> ReadHashBestChain s' = ReadHashBestChain s"
proof -
  let ?s = "s\<lparr> activeBatch := Some [] \<rparr>"
  have "kv ?s = kv s" using assms(2) by (simp add: kv_def)
  then show ?thesis using kv_reads [of s ?s] assms by (simp add: TxnBegin_def in_txn_def db_inv_def)
qed

lemma TxnCommit_txn:
  assumes "in_txn P s"
  shows "\<exists>s'. TxnCommit s = Some (True, s') \<and> db_inv s' \<and> activeBatch s' = None
    \<and> ReadTxIndex s' = ReadTxIndex s \<and> ReadHashBestChain s' = ReadHashBestChain s"
proof -
  have i: "db_inv s" "activeBatch s \<noteq> None" using assms by (simp_all add: in_txn_def)
  from TxnCommit_kv [OF this] obtain s' where s': "TxnCommit s = Some (True, s')" "db_inv s'" "kv s' = kv s" "activeBatch s' = None" by blast
  then show ?thesis using kv_reads [OF i(1) s'(2,3)] by blast
qed

lemma TxnAbort_txn:
  assumes "in_txn (pdb s0) s" "db_inv s0" "activeBatch s0 = None"
  shows "db_inv (snd (TxnAbort s)) \<and> activeBatch (snd (TxnAbort s)) = None
    \<and> ReadTxIndex (snd (TxnAbort s)) = ReadTxIndex s0 \<and> ReadHashBestChain (snd (TxnAbort s)) = ReadHashBestChain s0"
proof -
  have "kv (snd (TxnAbort s)) = kv s0" using assms by (simp add: TxnAbort_def in_txn_def kv_def)
  then show ?thesis using kv_reads [of s0 "snd (TxnAbort s)"] assms by (auto simp: TxnAbort_def in_txn_def db_inv_def)
qed

end
