(* ===== verification/ConnectBlock.thy ===== *)
theory ConnectBlock
  imports BlockDB Subsidy
begin

text \<open>
  \<open>CBlock::ConnectBlock\<close> and \<open>CBlock::DisconnectBlock\<close> (\<open>main.cpp\<close>).  The database is the state that is passed along, with its
  operations as arguments: \<open>rd\<close>, \<open>up\<close>, \<open>er\<close> for the transaction index, \<open>wbi\<close> for \<open>WriteBlockIndex\<close>.
  The first element of the chain \<open>pindex\<close> is the block's own entry.  \<open>SyncWithWallets\<close>, which only informs the wallets,
  is left out.
\<close>

section \<open>Definitions\<close>

record block_env =
  be_kernel :: kernel_env
  be_connect :: connect_env
  be_turbo :: turbo_env
  be_time :: int
  be_disk :: "CDiskTxPos \<Rightarrow> CTransaction option"
  be_blk :: "u32 \<Rightarrow> u32 \<Rightarrow> CBlock option"
  be_pool :: "uint256 \<Rightarrow> CTransaction option"

abbreviation (input) be_hash :: "block_env \<Rightarrow> hash_lib" where
  "be_hash B \<equiv> s_hash (ke_lib (be_kernel B))"

record block_totals =
  mapQueuedChanges :: TestPool
  bt_nFees :: i64
  bt_nValueIn :: i64
  bt_nValueOut :: i64
  bt_nStakeReward :: i64
  bt_nSigOps :: nat
  bt_nTxPos :: u32

text \<open>A transaction that is rejected marks itself, not the block, as misbehaving.\<close>

fun tx_fail :: "verdict \<Rightarrow> verdict" where
  "tx_fail (DoS _ m) = DoS 0 m"
| "tx_fail (Throw m) = Throw m"

definition of_tx :: "'a checked \<Rightarrow> 'a checked" where
  "of_tx r = (case r of Inl v \<Rightarrow> Inl (tx_fail v) | Inr x \<Rightarrow> Inr x)"

definition value_out :: "CTransaction \<Rightarrow> i64 checked" where
  "value_out tx = (case GetValueOut tx of
     None \<Rightarrow> Inl (Throw ''CTransaction::GetValueOut() : value out of range'') | Some v \<Rightarrow> Inr v)"

text \<open>Everything a transaction that is not the coinbase does to the totals, apart from its own index entry.\<close>

definition connect_spender ::
  "block_env \<Rightarrow> (uint256 \<Rightarrow> CTxIndex option) \<Rightarrow> chain \<Rightarrow> CDiskTxPos \<Rightarrow> CTransaction \<Rightarrow> block_totals \<Rightarrow> block_totals checked" where
  "connect_spender B rd pindex posThisTx tx t =
     (case FetchInputs rd (be_disk B) (be_pool B) (mapQueuedChanges t) True False tx of
        Inl (v, _) \<Rightarrow> Inl (tx_fail v)
      | Inr mapInputs \<Rightarrow>
          bindr (GetP2SHSigOpCount mapInputs tx) (\<lambda>ops.
          if bt_nSigOps t + ops > MAX_BLOCK_SIGOPS then Inl (DoS 100 ''too many sigops'') else
          bindr (GetValueIn mapInputs tx) (\<lambda>nTxValueIn.
          bindr (value_out tx) (\<lambda>nTxValueOut.
          bindr (of_tx (ConnectInputs (be_connect B) mapInputs (mapQueuedChanges t) posThisTx pindex True False tx)) (\<lambda>queued.
          Inr (t\<lparr> mapQueuedChanges := queued,
                 bt_nSigOps := bt_nSigOps t + ops,
                 bt_nValueIn := bt_nValueIn t + nTxValueIn,
                 bt_nValueOut := bt_nValueOut t + nTxValueOut,
                 bt_nFees := (if IsCoinStake tx then bt_nFees t else bt_nFees t + (nTxValueIn - nTxValueOut)),
                 bt_nStakeReward := (if IsCoinStake tx then nTxValueOut - nTxValueIn else bt_nStakeReward t) \<rparr>))))))"

definition connect_coinbase :: "CTransaction \<Rightarrow> block_totals \<Rightarrow> block_totals checked" where
  "connect_coinbase tx t = bindr (value_out tx) (\<lambda>v. Inr (t\<lparr> bt_nValueOut := bt_nValueOut t + v \<rparr>))"

definition connect_tx ::
  "block_env \<Rightarrow> (uint256 \<Rightarrow> CTxIndex option) \<Rightarrow> bool \<Rightarrow> chain \<Rightarrow> CTransaction \<Rightarrow> block_totals \<Rightarrow> block_totals checked" where
  "connect_tx B rd fJustCheck pindex tx t =
     (let hashTx = GetHash (be_hash B) tx in
      if (case rd hashTx of None \<Rightarrow> False | Some txindexOld \<Rightarrow> list_ex CDiskTxPos_IsNull (vSpent txindexOld))
        then Inl (DoS 0 ''overwrites a transaction'')
      else if bt_nSigOps t + GetLegacySigOpCount tx > MAX_BLOCK_SIGOPS then Inl (DoS 100 ''too many sigops'')
      else
        let posThisTx = \<lparr> pos_nFile = nFile (hd pindex), pos_nBlockPos = nBlockPos (hd pindex), pos_nTxPos = bt_nTxPos t \<rparr>;
            t1 = t\<lparr> bt_nSigOps := bt_nSigOps t + GetLegacySigOpCount tx,
                    bt_nTxPos := (if fJustCheck then bt_nTxPos t else bt_nTxPos t + word_of_nat (size_CTransaction tx)) \<rparr>
        in bindr (if IsCoinBase tx then connect_coinbase tx t1 else connect_spender B rd pindex posThisTx tx t1) (\<lambda>t2.
           Inr (t2\<lparr> mapQueuedChanges := map_put hashTx (CTxIndex_of posThisTx (length (vout tx))) (mapQueuedChanges t2) \<rparr>)))"

fun connect_txs ::
  "block_env \<Rightarrow> (uint256 \<Rightarrow> CTxIndex option) \<Rightarrow> bool \<Rightarrow> chain \<Rightarrow> CTransaction list \<Rightarrow> block_totals \<Rightarrow> block_totals checked" where
  "connect_txs B rd fJustCheck pindex [] t = Inr t"
| "connect_txs B rd fJustCheck pindex (tx # r) t =
     bindr (connect_tx B rd fJustCheck pindex tx t) (connect_txs B rd fJustCheck pindex r)"

definition first_tx_pos :: "chain \<Rightarrow> bool \<Rightarrow> CBlock \<Rightarrow> u32" where
  "first_tx_pos pindex fJustCheck b =
     (if fJustCheck then 1
      else nBlockPos (hd pindex) + word_of_nat (80 + 1 + 1) - 2 * word_of_nat (GetSizeOfCompactSize 0)
             + word_of_nat (GetSizeOfCompactSize (word_of_nat (length (vtx b)))))"

definition totals_init :: "u32 \<Rightarrow> block_totals" where
  "totals_init p = \<lparr> mapQueuedChanges = [], bt_nFees = 0, bt_nValueIn = 0, bt_nValueOut = 0, bt_nStakeReward = 0,
     bt_nSigOps = 0, bt_nTxPos = p \<rparr>"

definition check_pow_reward :: "chain \<Rightarrow> CBlock \<Rightarrow> block_totals \<Rightarrow> unit checked" where
  "check_pow_reward pindex b t = bindr (value_out (vtx b ! 0)) (\<lambda>v.
     if sint v > sint (GetProofOfWorkReward (nHeight (hd pindex)) (bt_nFees t)) then Inl (DoS 50 ''coinbase reward exceeded'') else Inr ())"

definition signing_address :: "block_env \<Rightarrow> CBlock \<Rightarrow> CBitcoinAddress" where
  "signing_address B b = CBitcoinAddress_of (te_testnet (be_turbo B))
     (case ExtractDestination (be_hash B) (scriptPubKey (vout (vtx b ! 1) ! 1)) of None \<Rightarrow> CNoDestination | Some d \<Rightarrow> d)"

definition check_stake_reward ::
  "block_env \<Rightarrow> (uint256 \<Rightarrow> CTxIndex option) \<Rightarrow> chain \<Rightarrow> CBlock \<Rightarrow> block_totals \<Rightarrow> turbo_cache \<Rightarrow> unit checked \<times> turbo_cache" where
  "check_stake_reward B rd pindex b t cache =
     (case GetCoinAge (ke_bn (be_kernel B)) rd (be_disk B) (be_blk B) (nStakeMinAge (ke_params (be_kernel B))) (vtx b ! 1) of
        None \<Rightarrow> (Inl (DoS 0 ''unable to get coin age for coinstake''), cache)
      | Some nCoinAge \<Rightarrow>
          (case GetProofOfStakeReward (be_turbo B) nCoinAge (signing_address B b) (uint (tx_nTime (vtx b ! 1))) (tl pindex) cache of
             (nCalculatedStakeReward, cache') \<Rightarrow>
               (if sint (bt_nStakeReward t) > sint nCalculatedStakeReward then Inl (DoS 100 ''coinstake pays too much'') else Inr (), cache')))"

definition with_mint :: "chain \<Rightarrow> block_totals \<Rightarrow> CBlockIndex" where
  "with_mint pindex t = (hd pindex)\<lparr>
     nMint := bt_nValueOut t - bt_nValueIn t + bt_nFees t,
     nMoneySupply := (case tl pindex of [] \<Rightarrow> 0 | p # _ \<Rightarrow> nMoneySupply p) + bt_nValueOut t - bt_nValueIn t \<rparr>"

definition db_step :: "string \<Rightarrow> (bool \<times> 'db) option \<Rightarrow> 'db checked" where
  "db_step m r = (case r of None \<Rightarrow> Inl (Throw ''assert'') | Some (b, db) \<Rightarrow> if b then Inr db else Inl (DoS 0 m))"

text \<open>The writes at the end; \<open>hashNext\<close> is the hash of the block's \<open>pnext\<close>.\<close>

definition write_block ::
  "(uint256 \<Rightarrow> CTxIndex \<Rightarrow> 'db \<Rightarrow> (bool \<times> 'db) option) \<Rightarrow> (CDiskBlockIndex \<Rightarrow> 'db \<Rightarrow> (bool \<times> 'db) option)
   \<Rightarrow> bool \<Rightarrow> chain \<Rightarrow> uint256 \<Rightarrow> TestPool \<Rightarrow> 'db \<Rightarrow> 'db checked" where
  "write_block up wbi fJustCheck pindex hashNext queued db =
     bindr (db_step ''WriteBlockIndex for pindex failed'' (wbi (CDiskBlockIndex_of pindex hashNext) db)) (\<lambda>db1.
     if fJustCheck then Inr db1
     else bindr (db_step ''UpdateTxIndex failed'' (write_queued up queued db1)) (\<lambda>db2.
       if tl pindex = [] then Inr db2
       else db_step ''WriteBlockIndex failed'' (wbi (CDiskBlockIndex_of (tl pindex) (phashBlock (hd pindex))) db2)))"

definition ConnectBlock ::
  "block_env \<Rightarrow> ('db \<Rightarrow> uint256 \<Rightarrow> CTxIndex option) \<Rightarrow> (uint256 \<Rightarrow> CTxIndex \<Rightarrow> 'db \<Rightarrow> (bool \<times> 'db) option)
   \<Rightarrow> (CDiskBlockIndex \<Rightarrow> 'db \<Rightarrow> (bool \<times> 'db) option) \<Rightarrow> chain \<Rightarrow> uint256 \<Rightarrow> bool \<Rightarrow> CBlock \<Rightarrow> turbo_cache \<Rightarrow> 'db
   \<Rightarrow> (CBlockIndex \<times> 'db) checked \<times> turbo_cache" where
  "ConnectBlock B rd up wbi pindex hashNext fJustCheck b cache db =
     (case andthen (CheckBlock (be_kernel B) (be_time B) b (\<not> fJustCheck) (\<not> fJustCheck) False)
             (connect_txs B (rd db) fJustCheck pindex (vtx b) (totals_init (first_tx_pos pindex fJustCheck b))) of
        Inl v \<Rightarrow> (Inl v, cache)
      | Inr t \<Rightarrow>
         (case (if IsProofOfWork b then (check_pow_reward pindex b t, cache) else check_stake_reward B (rd db) pindex b t cache) of
            (Inl v, cache') \<Rightarrow> (Inl v, cache')
          | (Inr _, cache') \<Rightarrow>
             (let p = with_mint pindex t in
              (bindr (write_block up wbi fJustCheck (p # tl pindex) hashNext (mapQueuedChanges t) db) (\<lambda>db'. Inr (p, db')), cache'))))"

definition DisconnectBlock ::
  "hash_lib \<Rightarrow> ('db \<Rightarrow> uint256 \<Rightarrow> CTxIndex option) \<Rightarrow> (uint256 \<Rightarrow> CTxIndex \<Rightarrow> 'db \<Rightarrow> (bool \<times> 'db) option)
   \<Rightarrow> (uint256 \<Rightarrow> 'db \<Rightarrow> (bool \<times> 'db) option) \<Rightarrow> (CDiskBlockIndex \<Rightarrow> 'db \<Rightarrow> (bool \<times> 'db) option) \<Rightarrow> chain \<Rightarrow> CBlock \<Rightarrow> 'db \<Rightarrow> 'db checked" where
  "DisconnectBlock H rd up er wbi pindex b db =
     bindr (fold (\<lambda>tx r. bindr r (DisconnectInputs H rd up er tx)) (rev (vtx b)) (Inr db)) (\<lambda>db'.
       if tl pindex = [] then Inr db'
       else db_step ''WriteBlockIndex failed'' (wbi (CDiskBlockIndex_of (tl pindex) 0) db'))"


section \<open>The effect on the ledger\<close>

text \<open>Adding a transaction spends its inputs and creates its entry; removing it undoes both.\<close>

definition add_tx :: "hash_lib \<Rightarrow> CDiskTxPos \<Rightarrow> CTransaction \<Rightarrow> ledger \<Rightarrow> ledger" where
  "add_tx H p tx V = (if IsCoinBase tx then V else fold (spend p) (map prevout (vin tx)) V)
     (GetHash H tx \<mapsto> CTxIndex_of p (length (vout tx)))"

definition remove_tx :: "hash_lib \<Rightarrow> CTransaction \<Rightarrow> ledger \<Rightarrow> ledger" where
  "remove_tx H tx V = (if IsCoinBase tx then V else fold (spend CDiskTxPos_null) (map prevout (vin tx)) V)(GetHash H tx := None)"

definition spendable :: "CTransaction \<Rightarrow> ledger \<Rightarrow> bool" where
  "spendable tx V \<longleftrightarrow> IsCoinBase tx \<or> distinct (map prevout (vin tx)) \<and> list_all (unspent V) (map prevout (vin tx))"

fun connected :: "hash_lib \<Rightarrow> CTransaction list \<Rightarrow> ledger \<Rightarrow> ledger \<Rightarrow> bool" where
  "connected H [] V V' \<longleftrightarrow> V' = V"
| "connected H (tx # r) V V' \<longleftrightarrow> (\<exists>p. \<not> CDiskTxPos_IsNull p \<and> spendable tx V \<and> connected H r (add_tx H p tx V) V')"

text \<open>The same with the positions of the transactions in the block file: each follows the one before it.\<close>

fun placed :: "hash_lib \<Rightarrow> u32 \<Rightarrow> u32 \<Rightarrow> u32 \<Rightarrow> CTransaction list \<Rightarrow> ledger \<Rightarrow> ledger \<Rightarrow> bool" where
  "placed H f bp pos [] V V' \<longleftrightarrow> V' = V"
| "placed H f bp pos (tx # r) V V' \<longleftrightarrow> spendable tx V
     \<and> placed H f bp (pos + word_of_nat (size_CTransaction tx)) r (add_tx H \<lparr> pos_nFile = f, pos_nBlockPos = bp, pos_nTxPos = pos \<rparr> tx V) V'"

lemma placed_connected: "placed H f bp pos txs V V' \<Longrightarrow> f \<noteq> -1 \<Longrightarrow> connected H txs V V'"
proof (induction txs arbitrary: V pos)
  case (Cons tx r)
  then show ?case by (auto simp: CDiskTxPos_IsNull_def intro!: exI [of _ "\<lparr> pos_nFile = f, pos_nBlockPos = bp, pos_nTxPos = pos \<rparr>"])
qed simp

text \<open>Unspent marks are the value that \<open>SetNull\<close> assigns.\<close>

definition canonical :: "ledger \<Rightarrow> bool" where
  "canonical V \<longleftrightarrow> (\<forall>h ti. V h = Some ti \<longrightarrow> (\<forall>m \<in> set (vSpent ti). CDiskTxPos_IsNull m \<longrightarrow> m = CDiskTxPos_null))"

definition ledger_ok :: "ledger \<Rightarrow> bool" where
  "ledger_ok V \<longleftrightarrow> (\<forall>h ti. V h = Some ti \<longrightarrow> ok_CTxIndex ti)"

lemma canonical_spend: "canonical V \<Longrightarrow> \<not> CDiskTxPos_IsNull p \<Longrightarrow> canonical (spend p a V)"
  by (auto simp: canonical_def spend_def split: option.splits dest!: set_update_subset_insert [THEN subsetD])

lemma canonical_fold: "canonical V \<Longrightarrow> \<not> CDiskTxPos_IsNull p \<Longrightarrow> canonical (fold (spend p) outs V)"
  by (induction outs arbitrary: V) (auto simp: canonical_spend)

lemma canonical_new: "canonical V \<Longrightarrow> canonical (V(h \<mapsto> CTxIndex_of p n))"
  by (auto simp: canonical_def CTxIndex_of_def)

lemma canonical_add: "canonical V \<Longrightarrow> \<not> CDiskTxPos_IsNull p \<Longrightarrow> canonical (add_tx H p tx V)"
  by (simp add: add_tx_def canonical_new canonical_fold)

lemma ledger_ok_spend: "ledger_ok V \<Longrightarrow> ledger_ok (spend p a V)"
  by (auto simp: ledger_ok_def spend_def ok_CTxIndex_def split: option.splits)

lemma ledger_ok_fold: "ledger_ok V \<Longrightarrow> ledger_ok (fold (spend p) outs V)"
  by (induction outs arbitrary: V) (auto simp: ledger_ok_spend)

lemma ledger_ok_add: "ledger_ok V \<Longrightarrow> length (vout tx) \<le> MAX_SIZE \<Longrightarrow> ledger_ok (add_tx H p tx V)"
  using ledger_ok_fold by (auto simp: add_tx_def ledger_ok_def ok_CTxIndex_def CTxIndex_of_def)

lemma dom_spend [simp]: "dom (spend p a V) = dom V"
  by (auto simp: spend_def dom_def split: option.splits)

lemma dom_fold_spend [simp]: "dom (fold (spend p) outs V) = dom V"
  by (induction outs arbitrary: V) auto

lemma dom_add: "dom (add_tx H p tx V) = insert (GetHash H tx) (dom V)"
  by (simp add: add_tx_def)

lemma spendable_hash: "spendable tx V \<Longrightarrow> \<not> IsCoinBase tx \<Longrightarrow> V h = None \<Longrightarrow> h \<notin> op_hash ` set (map prevout (vin tx))"
  by (auto simp: spendable_def list_all_iff unspent_def has_output_def split: option.splits)

lemma mark_canonical: "canonical V \<Longrightarrow> unspent V a \<Longrightarrow> mark V a = CDiskTxPos_null"
  by (auto simp: canonical_def unspent_def has_output_def mark_def split: option.splits)

lemma remove_add:
  assumes "spendable tx V" "canonical V" "V (GetHash H tx) = None"
  shows "remove_tx H tx (add_tx H p tx V) = V"
proof (cases "IsCoinBase tx")
  case True
  then show ?thesis using assms(3) by (simp add: remove_tx_def add_tx_def fun_upd_idem)
next
  case False
  let ?outs = "map prevout (vin tx)"
  have "fold (spend CDiskTxPos_null) ?outs (fold (spend p) ?outs V) = V"
    by (rule unspend_fold) (use assms(1,2) False mark_canonical in \<open>auto simp: spendable_def list_all_iff unspent_def\<close>)
  then show ?thesis
    using False assms(3) fold_spend_upd_other [OF spendable_hash [OF assms(1) False assms(3)]]
    by (simp add: remove_tx_def add_tx_def fun_upd_idem)
qed

lemma has_output_add:
  assumes "spendable tx V" "\<not> IsCoinBase tx" "V (GetHash H tx) = None"
  shows "list_all (has_output (add_tx H p tx V)) (map prevout (vin tx))"
proof -
  have "has_output (add_tx H p tx V) a" if a: "a \<in> set (map prevout (vin tx))" for a
  proof -
    have "op_hash a \<noteq> GetHash H tx" using spendable_hash [OF assms] a by force
    then have "has_output (add_tx H p tx V) a = has_output (fold (spend p) (map prevout (vin tx)) V) a"
      by (simp add: add_tx_def assms(2) has_output_def)
    then show ?thesis using assms(1,2) a by (auto simp: spendable_def list_all_iff unspent_def)
  qed
  then show ?thesis by (simp add: list_all_iff)
qed

section \<open>Disconnecting a connected block restores the ledger\<close>

abbreviation (input) disconnect_txs ::
  "hash_lib \<Rightarrow> ('db \<Rightarrow> uint256 \<Rightarrow> CTxIndex option) \<Rightarrow> (uint256 \<Rightarrow> CTxIndex \<Rightarrow> 'db \<Rightarrow> (bool \<times> 'db) option)
   \<Rightarrow> (uint256 \<Rightarrow> 'db \<Rightarrow> (bool \<times> 'db) option) \<Rightarrow> CTransaction list \<Rightarrow> 'db \<Rightarrow> 'db checked" where
  "disconnect_txs H rd up er txs db \<equiv> fold (\<lambda>tx r. bindr r (DisconnectInputs H rd up er tx)) (rev txs) (Inr db)"

context tx_store
begin

lemma disconnect_connected:
  assumes "connected H txs V (rd db)" "canonical V" "\<forall>tx \<in> set txs. V (GetHash H tx) = None" "distinct (map (GetHash H) txs)" "inv db"
  shows "\<exists>db'. disconnect_txs H rd up er txs db = Inr db' \<and> inv db' \<and> rd db' = V"
  using assms
proof (induction txs arbitrary: V)
  case (Cons tx r)
  obtain p where p: "\<not> CDiskTxPos_IsNull p" "spendable tx V" "connected H r (add_tx H p tx V) (rd db)"
    using Cons.prems(1) by auto
  have fresh: "\<forall>t \<in> set r. add_tx H p tx V (GetHash H t) = None"
  proof
    fix t assume t: "t \<in> set r"
    then have "GetHash H t \<notin> dom (add_tx H p tx V)" unfolding dom_add using Cons.prems(3,4) by (auto simp: image_iff)
    then show "add_tx H p tx V (GetHash H t) = None" by blast
  qed
  obtain db1 where db1: "disconnect_txs H rd up er r db = Inr db1" "inv db1" "rd db1 = add_tx H p tx V"
    using Cons.IH [OF p(3) canonical_add [OF Cons.prems(2) p(1)] fresh _ Cons.prems(5)] Cons.prems(4) by auto
  have new: "V (GetHash H tx) = None" using Cons.prems(3) by simp
  from DisconnectInputs_view [OF db1(2), of tx H] has_output_add [OF p(2) _ new, of p]
  obtain db' where db': "DisconnectInputs H rd up er tx db1 = Inr db'" "inv db'" "rd db' = remove_tx H tx (add_tx H p tx V)"
    by (auto simp: db1(3) remove_tx_def)
  have "disconnect_txs H rd up er (tx # r) db = Inr db'" using db1(1) db'(1) by simp
  then show ?case using db'(2,3) remove_add [OF p(2) Cons.prems(2) new] by auto
qed auto

end

section \<open>The loop over the transactions\<close>

lemma connect_spend_sorted:
  "connect_spend E fVerify fWrite posThisTx tx txins i inputs tp = Inr tp' \<Longrightarrow> sorted_wrt (<) (map fst tp) \<Longrightarrow> sorted_wrt (<) (map fst tp')"
  by (induction E fVerify fWrite posThisTx tx txins i inputs tp rule: connect_spend.induct)
    (auto simp: Let_def sorted_put split: option.splits if_splits)

lemma ConnectInputs_sorted:
  "ConnectInputs ce inputs tp posThisTx pindexBlock fBlock fMiner tx = Inr tp' \<Longrightarrow> sorted_wrt (<) (map fst tp) \<Longrightarrow> sorted_wrt (<) (map fst tp')"
  by (auto simp: ConnectInputs_def bindr_Inr split: if_splits dest: connect_spend_sorted)

lemma of_tx_Inr [simp]: "of_tx r = Inr x \<longleftrightarrow> r = Inr x"
  by (auto simp: of_tx_def split: sum.splits)

lemma connect_spender_Inr:
  assumes "connect_spender B rd pindex p tx t = Inr t'"
  obtains inputs q where "FetchInputs rd (be_disk B) (be_pool B) (mapQueuedChanges t) True False tx = Inr inputs"
    "ConnectInputs (be_connect B) inputs (mapQueuedChanges t) p pindex True False tx = Inr q" "mapQueuedChanges t' = q" "bt_nTxPos t' = bt_nTxPos t"
  using assms by (auto simp: connect_spender_def bindr_Inr split: sum.splits if_splits)

lemma connect_tx_view:
  assumes "connect_tx B rd fJustCheck pindex tx t = Inr t'" "nFile (hd pindex) \<noteq> -1" "sorted_wrt (<) (map fst (mapQueuedChanges t))"
    and p_def: "p = \<lparr> pos_nFile = nFile (hd pindex), pos_nBlockPos = nBlockPos (hd pindex), pos_nTxPos = bt_nTxPos t \<rparr>"
  shows "sorted_wrt (<) (map fst (mapQueuedChanges t')) \<and> bt_nTxPos t' = (if fJustCheck then bt_nTxPos t else bt_nTxPos t + word_of_nat (size_CTransaction tx))
    \<and> \<not> CDiskTxPos_IsNull p \<and> spendable tx (rd ++ map_of (mapQueuedChanges t))
    \<and> rd ++ map_of (mapQueuedChanges t') = add_tx (be_hash B) p tx (rd ++ map_of (mapQueuedChanges t))"
proof -
  have p: "\<not> CDiskTxPos_IsNull p" using assms(2) by (simp add: p_def CDiskTxPos_IsNull_def)
  define t1 where "t1 = t\<lparr> bt_nSigOps := bt_nSigOps t + GetLegacySigOpCount tx,
      bt_nTxPos := (if fJustCheck then bt_nTxPos t else bt_nTxPos t + word_of_nat (size_CTransaction tx)) \<rparr>"
  obtain t2 where t2: "(if IsCoinBase tx then connect_coinbase tx t1 else connect_spender B rd pindex p tx t1) = Inr t2"
    "mapQueuedChanges t' = map_put (GetHash (be_hash B) tx) (CTxIndex_of p (length (vout tx))) (mapQueuedChanges t2)" "bt_nTxPos t' = bt_nTxPos t2"
    using assms(1) by (auto simp: connect_tx_def Let_def bindr_Inr p_def t1_def split: if_splits)
  have q1: "mapQueuedChanges t1 = mapQueuedChanges t" by (simp add: t1_def)
  have V': "rd ++ map_of (mapQueuedChanges t') = (rd ++ map_of (mapQueuedChanges t2))(GetHash (be_hash B) tx \<mapsto> CTxIndex_of p (length (vout tx)))"
    by (simp add: t2(2))
  show ?thesis
  proof (cases "IsCoinBase tx")
    case True
    then have "mapQueuedChanges t2 = mapQueuedChanges t" "bt_nTxPos t2 = bt_nTxPos t1" using t2(1) q1 by (auto simp: connect_coinbase_def bindr_Inr)
    then show ?thesis using V' True p assms(3) t2(2,3) by (auto simp: add_tx_def spendable_def sorted_put t1_def)
  next
    case False
    then obtain inputs where c: "FetchInputs rd (be_disk B) (be_pool B) (mapQueuedChanges t) True False tx = Inr inputs"
      "ConnectInputs (be_connect B) inputs (mapQueuedChanges t) p pindex True False tx = Inr (mapQueuedChanges t2)"
      "bt_nTxPos t2 = bt_nTxPos t1" using t2(1) q1 by (auto elim!: connect_spender_Inr)
    note v = ConnectInputs_block_view [OF c(1,2) False p]
    have "sorted_wrt (<) (map fst (mapQueuedChanges t'))"
      using ConnectInputs_sorted [OF c(2) assms(3)] t2(2) by (simp add: sorted_put)
    then show ?thesis using v V' False p c(3) t2(3) by (auto simp: add_tx_def spendable_def t1_def)
  qed
qed

lemma connect_txs_view:
  "connect_txs B rd fJustCheck pindex txs t = Inr t' \<Longrightarrow> nFile (hd pindex) \<noteq> -1 \<Longrightarrow> sorted_wrt (<) (map fst (mapQueuedChanges t)) \<Longrightarrow>
   sorted_wrt (<) (map fst (mapQueuedChanges t'))
   \<and> connected (be_hash B) txs (rd ++ map_of (mapQueuedChanges t)) (rd ++ map_of (mapQueuedChanges t'))"
proof (induction txs arbitrary: t)
  case (Cons tx r)
  obtain t1 where t1: "connect_tx B rd fJustCheck pindex tx t = Inr t1" "connect_txs B rd fJustCheck pindex r t1 = Inr t'"
    using Cons.prems(1) by (auto simp: bindr_Inr)
  note v = connect_tx_view [OF t1(1) Cons.prems(2,3) refl]
  with Cons.IH [OF t1(2) Cons.prems(2)] show ?case by auto
qed simp

lemma connect_txs_placed:
  "connect_txs B rd False pindex txs t = Inr t' \<Longrightarrow> nFile (hd pindex) \<noteq> -1 \<Longrightarrow> sorted_wrt (<) (map fst (mapQueuedChanges t)) \<Longrightarrow>
   placed (be_hash B) (nFile (hd pindex)) (nBlockPos (hd pindex)) (bt_nTxPos t) txs (rd ++ map_of (mapQueuedChanges t)) (rd ++ map_of (mapQueuedChanges t'))"
proof (induction txs arbitrary: t)
  case (Cons tx r)
  obtain t1 where t1: "connect_tx B rd False pindex tx t = Inr t1" "connect_txs B rd False pindex r t1 = Inr t'"
    using Cons.prems(1) by (auto simp: bindr_Inr)
  note v = connect_tx_view [OF t1(1) Cons.prems(2,3) refl]
  with Cons.IH [OF t1(2) Cons.prems(2)] show ?case by simp
qed simp

lemma CheckBlock_txs:
  assumes "CheckBlock K adjustedTime b fCheckPOW fCheckMerkleRoot fCheckSig = Inr ()"
  shows "list_all (\<lambda>tx. CheckTransaction tx = Inr ()) (vtx b)" "distinct (map (GetHash (s_hash (ke_lib K))) (vtx b))"
    "vtx b \<noteq> []" "IsCoinBase (vtx b ! 0)" "\<not> list_ex IsCoinBase (drop 1 (vtx b))"
    "IsProofOfStake b \<Longrightarrow> well_staked K fCheckSig b"
proof -
  note c = assms [unfolded CheckBlock_def if_Inl andthen_Inr]
  show "list_all (\<lambda>tx. CheckTransaction tx = Inr ()) (vtx b)" using c by (auto simp: check_block_txs_ok list_all_iff)
  show "distinct (map (GetHash (s_hash (ke_lib K))) (vtx b))"
    using c card_set_distinct [of "map (GetHash (s_hash (ke_lib K))) (vtx b)"] by simp
  show "vtx b \<noteq> []" "IsCoinBase (vtx b ! 0)" "\<not> list_ex IsCoinBase (drop 1 (vtx b))" using c by auto
  show "IsProofOfStake b \<Longrightarrow> well_staked K fCheckSig b" using c check_stake_block_ok [of b K fCheckSig] by simp
qed

lemma CheckTransaction_vout:
  assumes "CheckTransaction tx = Inr ()"
  shows "length (vout tx) \<le> MAX_SIZE"
proof -
  have "size_CTransaction tx \<le> MAX_BLOCK_SIZE" using assms by (auto simp: CheckTransaction_def split: if_splits)
  moreover have "length v \<le> sum_list (map size_CTxOut v)" for v by (induction v) (auto simp: size_CTxOut_def)
  then have "length (vout tx) \<le> size_CTransaction tx" by (simp add: size_CTransaction_def size_vec_def trans_le_add1 trans_le_add2)
  ultimately show ?thesis by (simp add: MAX_SIZE_def)
qed

lemma connected_ok:
  "connected H txs V V' \<Longrightarrow> ledger_ok V \<Longrightarrow> list_all (\<lambda>tx. CheckTransaction tx = Inr ()) txs \<Longrightarrow> ledger_ok V'"
  by (induction H txs V V' rule: connected.induct) (auto simp: ledger_ok_add CheckTransaction_vout)

lemma queued_ok:
  assumes "ledger_ok (V ++ map_of q)" "distinct (map fst q)"
  shows "list_all (ok_CTxIndex \<circ> snd) q"
  using assms map_of_eq_Some_iff [OF assms(2)] by (auto simp: list_all_iff ledger_ok_def map_add_Some_iff)

context chain_store
begin

lemma write_queued_rhb:
  "inv s \<Longrightarrow> write_queued up kvs s = Some (True, s') \<Longrightarrow> list_all (ok_CTxIndex \<circ> snd) kvs \<Longrightarrow> rhb s' = rhb s"
proof (induction kvs arbitrary: s)
  case (Cons x r)
  obtain h ti where x: "x = (h, ti)" by (cases x)
  from up_rd [OF Cons.prems(1), of ti h] Cons.prems(3) x obtain t where t: "up h ti s = Some (True, t)" "inv t" by auto
  then show ?case using Cons.IH [OF t(2)] Cons.prems up_rhb [OF Cons.prems(1) t(1)] x by simp
qed simp

lemma write_block_view:
  assumes "inv db" "sorted_wrt (<) (map fst q)" "ledger_ok (rd db ++ map_of q)"
  shows "\<exists>db'. write_block up wbi False pindex hashNext q db = Inr db' \<and> inv db' \<and> rd db' = rd db ++ map_of q \<and> rhb db' = rhb db"
proof -
  obtain db1 where db1: "wbi (CDiskBlockIndex_of pindex hashNext) db = Some (True, db1)" "inv db1" "rd db1 = rd db" "rhb db1 = rhb db"
    using wbi_rd [OF assms(1)] by blast
  obtain db2 where db2: "write_queued up q db1 = Some (True, db2)" "inv db2" "rd db2 = rd db ++ map_of q"
    using write_queued_rd [OF db1(2) queued_ok [OF assms(3)]] distinct_put [OF assms(2)] by (auto simp: db1(3))
  have rhb2: "rhb db2 = rhb db" using write_queued_rhb [OF db1(2) db2(1)] db1(4) queued_ok [OF assms(3)] distinct_put [OF assms(2)] by simp
  show ?thesis
  proof (cases "tl pindex = []")
    case True
    then show ?thesis using db1 db2 rhb2 by (simp add: write_block_def db_step_def)
  next
    case False
    from wbi_rd [OF db2(2), of "CDiskBlockIndex_of (tl pindex) (phashBlock (hd pindex))"] show ?thesis
      using False db1 db2 rhb2 by (auto simp: write_block_def db_step_def)
  qed
qed

lemma ConnectBlock_view:
  assumes "ConnectBlock B rd up wbi pindex hashNext False b cache db = (Inr (p, db'), cache')"
    "inv db" "nFile (hd pindex) \<noteq> -1"
  shows "inv db' \<and> rhb db' = rhb db \<and> connected (be_hash B) (vtx b) (rd db) (rd db') \<and> distinct (map (GetHash (be_hash B)) (vtx b))
    \<and> placed (be_hash B) (nFile (hd pindex)) (nBlockPos (hd pindex)) (first_tx_pos pindex False b) (vtx b) (rd db) (rd db')"
proof -
  obtain t where t: "CheckBlock (be_kernel B) (be_time B) b True True False = Inr ()"
    "connect_txs B (rd db) False pindex (vtx b) (totals_init (first_tx_pos pindex False b)) = Inr t"
    "write_block up wbi False (with_mint pindex t # tl pindex) hashNext (mapQueuedChanges t) db = Inr db'"
    using assms(1) by (auto simp: ConnectBlock_def Let_def bindr_Inr split: sum.splits prod.splits)
  note v = connect_txs_view [OF t(2) assms(3)]
  have s: "sorted_wrt (<) (map fst (mapQueuedChanges t))" "connected (be_hash B) (vtx b) (rd db) (rd db ++ map_of (mapQueuedChanges t))"
    using v by (simp_all add: totals_init_def)
  have "ledger_ok (rd db)" using rd_ok by (auto simp: ledger_ok_def)
  then have "ledger_ok (rd db ++ map_of (mapQueuedChanges t))" using connected_ok [OF s(2)] CheckBlock_txs(1) [OF t(1)] by simp
  from write_block_view [OF assms(2) s(1) this, of "with_mint pindex t # tl pindex" hashNext] t(3)
  have "inv db'" "rd db' = rd db ++ map_of (mapQueuedChanges t)" "rhb db' = rhb db" by auto
  then show ?thesis using s(2) CheckBlock_txs(2) [OF t(1)] connect_txs_placed [OF t(2) assms(3)] by (simp add: totals_init_def)
qed

lemma DisconnectBlock_view:
  assumes "connected H (vtx b) V (rd db)" "canonical V" "\<forall>tx \<in> set (vtx b). V (GetHash H tx) = None"
    "distinct (map (GetHash H) (vtx b))" "inv db"
  shows "\<exists>db'. DisconnectBlock H rd up er wbi pindex b db = Inr db' \<and> inv db' \<and> rd db' = V"
proof -
  obtain db1 where db1: "disconnect_txs H rd up er (vtx b) db = Inr db1" "inv db1" "rd db1 = V"
    using disconnect_connected [OF assms] by blast
  show ?thesis
  proof (cases "tl pindex = []")
    case True
    then show ?thesis using db1 by (simp add: DisconnectBlock_def)
  next
    case False
    from wbi_rd [OF db1(2), of "CDiskBlockIndex_of (tl pindex) 0"] show ?thesis
      using False db1 by (auto simp: DisconnectBlock_def db_step_def)
  qed
qed

lemma Disconnect_Connect:
  assumes "ConnectBlock B rd up wbi pindex hashNext False b cache db = (Inr (p, db'), cache')"
    "inv db" "nFile (hd pindex) \<noteq> -1" "canonical (rd db)" "\<forall>tx \<in> set (vtx b). rd db (GetHash (be_hash B) tx) = None"
  shows "\<exists>db''. DisconnectBlock (be_hash B) rd up er wbi pindex b db' = Inr db'' \<and> inv db'' \<and> rd db'' = rd db"
  using ConnectBlock_view [OF assms(1-3)] DisconnectBlock_view [OF _ assms(4,5)] by blast

end

section \<open>Money\<close>

lemma GetValueIn_value:
  assumes "GetValueIn inputs tx = Inr v" "\<not> IsCoinBase tx"
  shows "v = word_of_int (values_in inputs tx)"
proof -
  have loop: "GetValueIn_loop inputs txins v0 = Inr v \<Longrightarrow> v = v0 + word_of_int (sum_list (map (input_value inputs) txins))" for txins v0
  proof (induction txins arbitrary: v0)
    case (Cons txin r)
    then obtain out where out: "GetOutputFor txin inputs = Inr out" "GetValueIn_loop inputs r (v0 + nValue out) = Inr v"
      by (auto simp: bindr_Inr)
    have "input_value inputs txin = sint (nValue out)"
      using out(1) by (auto simp: GetOutputFor_def input_value_def split: option.splits if_splits)
    then show ?case using Cons.IH [OF out(2)] by (simp add: add.assoc)
  qed simp
  show ?thesis using assms loop [of "vin tx" 0] by (simp add: GetValueIn_def values_in_def)
qed

lemma value_out_value:
  assumes "value_out tx = Inr v"
  shows "v = word_of_int (value_sum (vout tx)) \<and> 0 \<le> value_sum (vout tx) \<and> value_sum (vout tx) \<le> MAX_MONEY"
proof -
  have v: "sint v = value_sum (vout tx)" "0 \<le> value_sum (vout tx)" "value_sum (vout tx) \<le> MAX_MONEY"
    using assms value_sum_nonneg by (auto simp: value_out_def GetValueOut_iff split: option.splits)
  have "v = word_of_int (sint v)" by simp
  then show ?thesis using v by simp
qed

text \<open>The exact amounts behind the 64-bit totals of one transaction.\<close>

lemma connect_spender_money:
  assumes "connect_spender B rd pindex p tx t = Inr t'" "\<not> IsCoinBase tx"
  obtains i where "0 \<le> i" "i \<le> MAX_MONEY" "0 \<le> value_sum (vout tx)" "value_sum (vout tx) \<le> MAX_MONEY"
    "bt_nValueIn t' = bt_nValueIn t + word_of_int i" "bt_nValueOut t' = bt_nValueOut t + word_of_int (value_sum (vout tx))"
    "IsCoinStake tx \<Longrightarrow> bt_nFees t' = bt_nFees t \<and> bt_nStakeReward t' = word_of_int (value_sum (vout tx) - i)"
    "\<not> IsCoinStake tx \<Longrightarrow> bt_nFees t' = bt_nFees t + word_of_int (i - value_sum (vout tx)) \<and> bt_nStakeReward t' = bt_nStakeReward t
       \<and> value_sum (vout tx) \<le> i"
proof -
  obtain inputs where f: "FetchInputs rd (be_disk B) (be_pool B) (mapQueuedChanges t) True False tx = Inr inputs"
    using assms(1) by (auto simp: connect_spender_def split: sum.splits)
  obtain ops vi vo q where c: "GetValueIn inputs tx = Inr vi" "value_out tx = Inr vo"
    "ConnectInputs (be_connect B) inputs (mapQueuedChanges t) p pindex True False tx = Inr q"
    "t\<lparr> mapQueuedChanges := q, bt_nSigOps := bt_nSigOps t + ops, bt_nValueIn := bt_nValueIn t + vi,
       bt_nValueOut := bt_nValueOut t + vo,
       bt_nFees := (if IsCoinStake tx then bt_nFees t else bt_nFees t + (vi - vo)),
       bt_nStakeReward := (if IsCoinStake tx then vo - vi else bt_nStakeReward t) \<rparr> = t'"
    using assms(1) unfolding connect_spender_def f sum.case bindr_Inr if_Inl of_tx_Inr sum.inject by blast
  obtain v where v: "connect_check (ce_maturity (be_connect B)) pindex tx inputs (vin tx) 0 = Inr v"
    "\<not> IsCoinStake tx \<Longrightarrow> connect_fee (ce_mixed (be_connect B)) True tx v = Inr ()"
    using c(3) assms(2) by (auto simp: ConnectInputs_def bindr_Inr split: if_splits)
  have s: "MoneyRange v" "sint v = values_in inputs tx" using connect_check_sum [OF v(1)] MoneyRange_0 by (simp_all add: values_in_def)
  note vi = GetValueIn_value [OF c(1) assms(2)] and vo = value_out_value [OF c(2)]
  have fee: "value_sum (vout tx) \<le> values_in inputs tx" if "\<not> IsCoinStake tx"
    using v(2) [OF that] s vo by (auto simp: connect_fee_def Let_def GetValueOut_iff split: option.splits if_splits)
  show thesis
    by (rule that [of "values_in inputs tx"])
      (use s vi vo fee in \<open>auto simp: MoneyRange_def c(4) [symmetric]\<close>)
qed

lemma connect_tx_money:
  assumes "connect_tx B rd fJustCheck pindex tx t = Inr t'"
  obtains t1 p where "bt_nFees t1 = bt_nFees t" "bt_nValueIn t1 = bt_nValueIn t" "bt_nValueOut t1 = bt_nValueOut t"
    "bt_nStakeReward t1 = bt_nStakeReward t"
    "\<exists>t2. (if IsCoinBase tx then connect_coinbase tx t1 else connect_spender B rd pindex p tx t1) = Inr t2
       \<and> bt_nFees t' = bt_nFees t2 \<and> bt_nValueIn t' = bt_nValueIn t2 \<and> bt_nValueOut t' = bt_nValueOut t2 \<and> bt_nStakeReward t' = bt_nStakeReward t2"
proof -
  define p where "p = \<lparr> pos_nFile = nFile (hd pindex), pos_nBlockPos = nBlockPos (hd pindex), pos_nTxPos = bt_nTxPos t \<rparr>"
  define t1 where "t1 = t\<lparr> bt_nSigOps := bt_nSigOps t + GetLegacySigOpCount tx,
      bt_nTxPos := (if fJustCheck then bt_nTxPos t else bt_nTxPos t + word_of_nat (size_CTransaction tx)) \<rparr>"
  obtain t2 where t2: "(if IsCoinBase tx then connect_coinbase tx t1 else connect_spender B rd pindex p tx t1) = Inr t2"
    "t2\<lparr> mapQueuedChanges := map_put (GetHash (be_hash B) tx) (CTxIndex_of p (length (vout tx))) (mapQueuedChanges t2) \<rparr> = t'"
    using assms unfolding connect_tx_def Let_def if_Inl bindr_Inr p_def t1_def sum.inject by blast
  show thesis
    by (rule that [of t1 p]) (use t2 in \<open>auto simp: t1_def t2(2) [symmetric]\<close>)
qed

definition coinbase_sum :: "CTransaction list \<Rightarrow> int" where
  "coinbase_sum txs = sum_list (map (\<lambda>tx. if IsCoinBase tx then value_sum (vout tx) else 0) txs)"

lemma connect_txs_money:
  "connect_txs B rd fJustCheck pindex txs t = Inr t' \<Longrightarrow> list_all (\<lambda>tx. \<not> IsCoinStake tx) txs \<Longrightarrow>
   \<exists>F. 0 \<le> F \<and> F \<le> MAX_MONEY * int (length txs) \<and> bt_nFees t' = bt_nFees t + word_of_int F \<and> bt_nStakeReward t' = bt_nStakeReward t
     \<and> bt_nValueOut t' - bt_nValueIn t' = bt_nValueOut t - bt_nValueIn t + word_of_int (coinbase_sum txs - F)"
proof (induction txs arbitrary: t)
  case (Cons tx r)
  obtain t1 where t1: "connect_tx B rd fJustCheck pindex tx t = Inr t1" "connect_txs B rd fJustCheck pindex r t1 = Inr t'"
    using Cons.prems(1) by (auto simp: bindr_Inr)
  have step: "\<exists>F. 0 \<le> F \<and> F \<le> MAX_MONEY \<and> bt_nFees t1 = bt_nFees t + word_of_int F \<and> bt_nStakeReward t1 = bt_nStakeReward t
     \<and> bt_nValueOut t1 - bt_nValueIn t1 = bt_nValueOut t - bt_nValueIn t + word_of_int ((if IsCoinBase tx then value_sum (vout tx) else 0) - F)"
  proof -
    from connect_tx_money [OF t1(1)] obtain u p u2 where u: "bt_nFees u = bt_nFees t" "bt_nValueIn u = bt_nValueIn t"
      "bt_nValueOut u = bt_nValueOut t" "bt_nStakeReward u = bt_nStakeReward t"
      "(if IsCoinBase tx then connect_coinbase tx u else connect_spender B rd pindex p tx u) = Inr u2"
      "bt_nFees t1 = bt_nFees u2" "bt_nValueIn t1 = bt_nValueIn u2" "bt_nValueOut t1 = bt_nValueOut u2"
      "bt_nStakeReward t1 = bt_nStakeReward u2" by metis
    show ?thesis
    proof (cases "IsCoinBase tx")
      case True
      with u(5) obtain v where "value_out tx = Inr v" "u\<lparr> bt_nValueOut := bt_nValueOut u + v \<rparr> = u2"
        by (auto simp: connect_coinbase_def bindr_Inr)
      then show ?thesis using True u value_out_value by (intro exI [of _ 0]) auto
    next
      case False
      then have "connect_spender B rd pindex p tx u = Inr u2" "\<not> IsCoinStake tx" using u(5) Cons.prems(2) by auto
      then obtain i where "0 \<le> i" "i \<le> MAX_MONEY" "0 \<le> value_sum (vout tx)"
        "bt_nValueIn u2 = bt_nValueIn u + word_of_int i" "bt_nValueOut u2 = bt_nValueOut u + word_of_int (value_sum (vout tx))"
        "bt_nFees u2 = bt_nFees u + word_of_int (i - value_sum (vout tx))" "bt_nStakeReward u2 = bt_nStakeReward u" "value_sum (vout tx) \<le> i"
        using False by (elim connect_spender_money) auto
      then show ?thesis using False u by (intro exI [of _ "i - value_sum (vout tx)"]) auto
    qed
  qed
  then obtain F where F: "0 \<le> F" "F \<le> MAX_MONEY" "bt_nFees t1 = bt_nFees t + word_of_int F" "bt_nStakeReward t1 = bt_nStakeReward t"
    "bt_nValueOut t1 - bt_nValueIn t1 = bt_nValueOut t - bt_nValueIn t + word_of_int ((if IsCoinBase tx then value_sum (vout tx) else 0) - F)"
    by blast
  obtain G where G: "0 \<le> G" "G \<le> MAX_MONEY * int (length r)" "bt_nFees t' = bt_nFees t1 + word_of_int G" "bt_nStakeReward t' = bt_nStakeReward t1"
     "bt_nValueOut t' - bt_nValueIn t' = bt_nValueOut t1 - bt_nValueIn t1 + word_of_int (coinbase_sum r - G)"
    using Cons.IH [OF t1(2)] Cons.prems(2) by auto
  have "coinbase_sum (tx # r) - (F + G) = ((if IsCoinBase tx then value_sum (vout tx) else 0) - F) + (coinbase_sum r - G)"
    by (simp add: coinbase_sum_def)
  then have "bt_nValueOut t' - bt_nValueIn t' = bt_nValueOut t - bt_nValueIn t + word_of_int (coinbase_sum (tx # r) - (F + G))"
    unfolding G(5) F(5) by (simp only: of_int_add add.assoc)
  moreover have "bt_nFees t' = bt_nFees t + word_of_int (F + G)" using F(3) G(3) by (simp add: add.assoc)
  moreover have "F + G \<le> MAX_MONEY * int (length (tx # r))" using F(2) G(2) by simp
  ultimately show ?case using F(1,4) G(1,4) by (intro exI [of _ "F + G"]) simp
qed (auto simp: coinbase_sum_def intro!: exI [of _ 0])

lemma tx_size_lower:
  assumes "CheckTransaction tx = Inr ()"
  shows "64 \<le> size_CTransaction tx"
proof -
  have ne: "vin tx \<noteq> []" "vout tx \<noteq> []" using assms by (auto simp: CheckTransaction_def split: if_splits)
  obtain i ins where i: "vin tx = i # ins" using ne(1) by (cases "vin tx") auto
  obtain out outs where out: "vout tx = out # outs" using ne(2) by (cases "vout tx") auto
  have cs: "1 \<le> GetSizeOfCompactSize n" for n by (simp add: GetSizeOfCompactSize_def)
  have "42 \<le> size_vec size_CTxIn (vin tx)"
    using cs [of "word_of_nat (length (vin tx))"] cs [of "word_of_nat (length (scriptSig i))"]
    by (simp add: size_vec_def i size_CTxIn_def size_string_def)
  moreover have "10 \<le> size_vec size_CTxOut (vout tx)"
    using cs [of "word_of_nat (length (vout tx))"] cs [of "word_of_nat (length (scriptPubKey out))"]
    by (simp add: size_vec_def out size_CTxOut_def size_string_def)
  ultimately show ?thesis by (simp add: size_CTransaction_def)
qed

lemma block_tx_count:
  assumes "CheckBlock K adjustedTime b fCheckPOW fCheckMerkleRoot fCheckSig = Inr ()"
  shows "64 * length (vtx b) \<le> MAX_BLOCK_SIZE"
proof -
  have "size_CBlock b \<le> MAX_BLOCK_SIZE" using assms by (auto simp: CheckBlock_def split: if_splits)
  moreover have "list_all (\<lambda>tx. CheckTransaction tx = Inr ()) txs \<Longrightarrow> 64 * length txs \<le> sum_list (map size_CTransaction txs)" for txs
    by (induction txs) (auto dest: tx_size_lower)
  then have "64 * length (vtx b) \<le> size_CBlock b" using CheckBlock_txs(1) [OF assms] by (simp add: size_CBlock_def size_vec_def trans_le_add1 trans_le_add2)
  ultimately show ?thesis by simp
qed

lemma coinbase_sum_none: "list_all (\<lambda>tx. \<not> IsCoinBase tx) txs \<Longrightarrow> coinbase_sum txs = 0"
  by (induction txs) (auto simp: coinbase_sum_def)

lemma ConnectBlock_Inr:
  assumes "ConnectBlock B rd up wbi pindex hashNext fJustCheck b cache db = (Inr (p, db'), cache')"
  obtains t where "CheckBlock (be_kernel B) (be_time B) b (\<not> fJustCheck) (\<not> fJustCheck) False = Inr ()"
    "connect_txs B (rd db) fJustCheck pindex (vtx b) (totals_init (first_tx_pos pindex fJustCheck b)) = Inr t" "p = with_mint pindex t"
    "IsProofOfWork b \<Longrightarrow> check_pow_reward pindex b t = Inr ()"
    "IsProofOfStake b \<Longrightarrow> fst (check_stake_reward B (rd db) pindex b t cache) = Inr ()"
proof -
  obtain t where t: "CheckBlock (be_kernel B) (be_time B) b (\<not> fJustCheck) (\<not> fJustCheck) False = Inr ()"
    "connect_txs B (rd db) fJustCheck pindex (vtx b) (totals_init (first_tx_pos pindex fJustCheck b)) = Inr t"
    using assms by (auto simp: ConnectBlock_def split: sum.splits prod.splits)
  show thesis
    by (rule that [OF t]) (use assms t in \<open>auto simp: ConnectBlock_def Let_def bindr_Inr IsProofOfWork_def split: sum.splits prod.splits if_splits\<close>)
qed

lemma GetPoWSubsidy_range: "0 \<le> h \<Longrightarrow> 0 \<le> GetPoWSubsidy h \<and> GetPoWSubsidy h \<le> 605 * COIN"
proof (cases "h \<le> LAST_POW_BLOCK")
  assume "0 \<le> h"
  then have n: "45 \<le> nat (h + 45)" by simp
  case True
  then have "nat (h + 45) \<le> 4365" by simp
  from subsidy_units_pos [OF n this] show ?thesis using True by (simp add: GetPoWSubsidy_def)
qed (simp add: GetPoWSubsidy_def)

lemma pow_mint:
  assumes "CheckBlock K adjustedTime b f1 f2 f3 = Inr ()" "IsProofOfWork b" "list_all (\<lambda>tx. \<not> IsCoinStake tx) (vtx b)"
    "connect_txs B rd fJustCheck pindex (vtx b) (totals_init p0) = Inr t" "check_pow_reward pindex b t = Inr ()"
    "0 \<le> nHeight (hd pindex)"
  shows "\<exists>minted. bt_nValueOut t - bt_nValueIn t = word_of_int minted \<and> \<bar>minted\<bar> < 2 ^ 62 \<and> minted \<le> GetPoWSubsidy (nHeight (hd pindex))"
proof -
  obtain cb r where v: "vtx b = cb # r" "IsCoinBase cb" "list_all (\<lambda>tx. \<not> IsCoinBase tx) r"
    using CheckBlock_txs(3-5) [OF assms(1)] by (cases "vtx b") (auto simp: list_ex_iff list_all_iff)
  have sub: "0 \<le> GetPoWSubsidy (nHeight (hd pindex))" "GetPoWSubsidy (nHeight (hd pindex)) \<le> 605 * COIN"
    using GetPoWSubsidy_range [OF assms(6)] by auto
  obtain F where F: "0 \<le> F" "F \<le> MAX_MONEY * int (length (vtx b))" "bt_nFees t = word_of_int F"
    "bt_nValueOut t - bt_nValueIn t = word_of_int (coinbase_sum (vtx b) - F)"
    using connect_txs_money [OF assms(4,3)] by (auto simp: totals_init_def)
  have "int (length (vtx b)) \<le> 3906" using block_tx_count [OF assms(1)] by simp
  then have Fmax: "F \<le> MAX_MONEY * 3906" using F(2) by simp
  obtain w where w: "value_out cb = Inr w" "\<not> sint w > sint (GetProofOfWorkReward (nHeight (hd pindex)) (bt_nFees t))"
    using assms(5) by (auto simp: check_pow_reward_def bindr_Inr v(1) split: if_splits)
  have cs: "coinbase_sum (vtx b) = value_sum (vout cb)" using coinbase_sum_none [OF v(3)] v(2) by (simp add: coinbase_sum_def v(1))
  have "sint (GetProofOfWorkReward (nHeight (hd pindex)) (bt_nFees t)) = GetPoWSubsidy (nHeight (hd pindex)) + F"
    unfolding GetProofOfWorkReward_def F(3) of_int_add [symmetric]
    by (rule sint_word_of_int) (use sub F(1) Fmax in auto)
  moreover have "sint w = value_sum (vout cb)"
    using value_out_value [OF w(1)] by (auto intro: sint_word_of_int)
  ultimately have "value_sum (vout cb) - F \<le> GetPoWSubsidy (nHeight (hd pindex))" using w(2) by simp
  then show ?thesis
    using F(1,4) Fmax value_out_value [OF w(1)] cs by (intro exI [of _ "value_sum (vout cb) - F"]) auto
qed

lemma stake_mint:
  assumes "CheckBlock K adjustedTime b f1 f2 f3 = Inr ()" "IsProofOfStake b"
    "connect_txs B rd fJustCheck pindex (vtx b) (totals_init p0) = Inr t"
  shows "\<exists>minted. bt_nValueOut t - bt_nValueIn t = word_of_int minted \<and> \<bar>minted\<bar> < 2 ^ 62 \<and> minted \<le> sint (bt_nStakeReward t)"
proof -
  obtain cb cs r where v: "vtx b = cb # cs # r" "IsCoinBase cb" "\<not> IsCoinBase cs" "list_all (\<lambda>tx. \<not> IsCoinBase tx) r" "IsCoinStake cs"
    using CheckBlock_txs(3-5) [OF assms(1)] assms(2)
    by (cases "vtx b"; cases "tl (vtx b)") (auto simp: list_ex_iff list_all_iff IsProofOfStake_def)
  have ws: "list_all (\<lambda>tx. \<not> IsCoinStake tx) r" "value_sum (vout cb) = 0"
    using CheckBlock_txs(6) [OF assms(1,2)] v(1) by (auto simp: well_staked_def value_sum_def CTxOut_IsEmpty_def)
  obtain t1 t2 where t: "connect_tx B rd fJustCheck pindex cb (totals_init p0) = Inr t1" "connect_tx B rd fJustCheck pindex cs t1 = Inr t2"
    "connect_txs B rd fJustCheck pindex r t2 = Inr t"
    using assms(3) by (auto simp: v(1) bindr_Inr)
  obtain u p u2 where u: "connect_coinbase cb u = Inr u2" "bt_nValueIn u = 0" "bt_nValueOut u = 0"
      "bt_nValueIn t1 = bt_nValueIn u2" "bt_nValueOut t1 = bt_nValueOut u2"
    using connect_tx_money [OF t(1)] v(2) by (auto simp: totals_init_def) metis
  then have z: "bt_nValueOut t1 = 0" "bt_nValueIn t1 = 0"
    using value_out_value [of cb] ws(2) by (auto simp: connect_coinbase_def bindr_Inr)
  obtain w q w2 where w: "connect_spender B rd pindex q cs w = Inr w2" "bt_nValueIn w = bt_nValueIn t1" "bt_nValueOut w = bt_nValueOut t1"
      "bt_nValueIn t2 = bt_nValueIn w2" "bt_nValueOut t2 = bt_nValueOut w2" "bt_nStakeReward t2 = bt_nStakeReward w2"
    using connect_tx_money [OF t(2)] v(3) by auto metis
  obtain i where i: "0 \<le> i" "i \<le> MAX_MONEY" "0 \<le> value_sum (vout cs)" "value_sum (vout cs) \<le> MAX_MONEY"
    "bt_nValueOut t2 - bt_nValueIn t2 = word_of_int (value_sum (vout cs) - i)"
    "bt_nStakeReward t2 = word_of_int (value_sum (vout cs) - i)"
    by (rule connect_spender_money [OF w(1) v(3)]) (use v(5) w z in auto)
  obtain F where F: "0 \<le> F" "F \<le> MAX_MONEY * int (length r)" "bt_nStakeReward t = bt_nStakeReward t2"
    "bt_nValueOut t - bt_nValueIn t = bt_nValueOut t2 - bt_nValueIn t2 + word_of_int (coinbase_sum r - F)"
    using connect_txs_money [OF t(3) ws(1)] by auto
  have "int (length r) \<le> 3906" using block_tx_count [OF assms(1)] v(1) by simp
  then have "F \<le> MAX_MONEY * 3906" using F(2) by simp
  moreover have "sint (bt_nStakeReward t) = value_sum (vout cs) - i"
    unfolding F(3) i(6) by (rule sint_word_of_int) (use i in auto)
  moreover have "bt_nValueOut t - bt_nValueIn t = word_of_int (value_sum (vout cs) - i - F)"
    unfolding F(4) i(5) coinbase_sum_none [OF v(4)] by simp
  ultimately show ?thesis using i F(1) by (intro exI [of _ "value_sum (vout cs) - i - F"]) auto
qed

section \<open>Main results\<close>

text \<open>
  C3: disconnecting a block that was connected gives back the transaction index, if the block's transactions were
  not in the index before and unspent outputs are marked the way \<open>SetNull\<close> marks them.
\<close>

theorem DisconnectBlock_ConnectBlock:
  assumes "ConnectBlock B ReadTxIndex UpdateTxIndex (WriteBlockIndex H Hash9 fFast now) pindex hashNext False b cache db = (Inr (p, db'), cache')"
    "db_inv db" "nFile (hd pindex) \<noteq> -1" "canonical (ReadTxIndex db)"
    "\<forall>tx \<in> set (vtx b). ReadTxIndex db (GetHash (s_hash (ke_lib (be_kernel B))) tx) = None"
  shows "\<exists>db''. DisconnectBlock (s_hash (ke_lib (be_kernel B))) ReadTxIndex UpdateTxIndex EraseTxIndex (WriteBlockIndex H Hash9 fFast now) pindex b db'
      = Inr db'' \<and> ReadTxIndex db'' = ReadTxIndex db"
  using chaindb.Disconnect_Connect [OF assms] by blast

text \<open>
  C2: a connected block mints at most its reward.  The exact amount by which the recorded money supply grows is at most
  the subsidy of a proof-of-work block that contains no coin stake, and at most the calculated reward of a proof-of-stake block;
  the 64-bit sums do not overflow.
\<close>

theorem ConnectBlock_mint_bounded:
  assumes "ConnectBlock B rd up wbi pindex hashNext fJustCheck b cache db = (Inr (p, db'), cache')"
    "IsProofOfWork b \<Longrightarrow> list_all (\<lambda>tx. \<not> IsCoinStake tx) (vtx b)" "0 \<le> nHeight (hd pindex)"
  shows "\<exists>minted. \<bar>minted\<bar> < 2 ^ 62
    \<and> nMoneySupply p = (case tl pindex of [] \<Rightarrow> 0 | q # _ \<Rightarrow> nMoneySupply q) + word_of_int minted
    \<and> (if IsProofOfWork b then minted \<le> GetPoWSubsidy (nHeight (hd pindex))
       else \<exists>nCoinAge. GetCoinAge (ke_bn (be_kernel B)) (rd db) (be_disk B) (be_blk B) (nStakeMinAge (ke_params (be_kernel B))) (vtx b ! 1) = Some nCoinAge
         \<and> minted \<le> sint (fst (GetProofOfStakeReward (be_turbo B) nCoinAge (signing_address B b) (uint (tx_nTime (vtx b ! 1))) (tl pindex) cache)))"
proof -
  obtain t where t: "CheckBlock (be_kernel B) (be_time B) b (\<not> fJustCheck) (\<not> fJustCheck) False = Inr ()"
    "connect_txs B (rd db) fJustCheck pindex (vtx b) (totals_init (first_tx_pos pindex fJustCheck b)) = Inr t" "p = with_mint pindex t"
    "IsProofOfWork b \<Longrightarrow> check_pow_reward pindex b t = Inr ()"
    "IsProofOfStake b \<Longrightarrow> fst (check_stake_reward B (rd db) pindex b t cache) = Inr ()"
    using ConnectBlock_Inr [OF assms(1)] by blast
  have grows: "nMoneySupply p = (case tl pindex of [] \<Rightarrow> 0 | q # _ \<Rightarrow> nMoneySupply q) + (bt_nValueOut t - bt_nValueIn t)"
    by (simp add: t(3) with_mint_def)
  show ?thesis
  proof (cases "IsProofOfWork b")
    case True
    from pow_mint [OF t(1) True assms(2) [OF True] t(2) t(4) [OF True] assms(3)] show ?thesis unfolding grows using True by auto
  next
    case False
    then have pos: "IsProofOfStake b" by (simp add: IsProofOfWork_def)
    obtain nCoinAge where "GetCoinAge (ke_bn (be_kernel B)) (rd db) (be_disk B) (be_blk B) (nStakeMinAge (ke_params (be_kernel B))) (vtx b ! 1) = Some nCoinAge"
      "sint (bt_nStakeReward t) \<le> sint (fst (GetProofOfStakeReward (be_turbo B) nCoinAge (signing_address B b) (uint (tx_nTime (vtx b ! 1))) (tl pindex) cache))"
      using t(5) [OF pos] by (auto simp: check_stake_reward_def not_less split: option.splits prod.splits if_splits)
    with stake_mint [OF t(1) pos t(2)] show ?thesis unfolding grows using False by fastforce
  qed
qed


section \<open>Instances\<close>

definition inflation_block :: CBlock where
  "inflation_block = sample_pow_block\<lparr> blk_nBits := 0x1d00ffff, hashMerkleRoot := BuildMerkleTree (s_hash check_lib) sample_pow_block \<rparr>"

definition sample_block_env :: block_env where
  "sample_block_env = \<lparr> be_kernel = check_sample, be_connect = sample_env, be_turbo = sample_turbo, be_time = 1442210400,
     be_disk = (\<lambda>_. Some sample_prev), be_blk = (\<lambda>_ _. None), be_pool = (\<lambda>_. None) \<rparr>"

abbreviation (input) sample_entry :: CTxIndex where
  "sample_entry \<equiv> CTxIndex_of \<lparr> pos_nFile = 1, pos_nBlockPos = 5, pos_nTxPos = 9 \<rparr> 2"

lemma inflation_sel:
  "vtx inflation_block = [sample_coinbase, sample_tx, sample_coinstake]" "blk_nTime inflation_block = 1442210400"
  "size_CBlock inflation_block = size_CBlock sample_pow_block" "IsProofOfWork inflation_block"
  by (simp_all add: inflation_block_def sample_pow_block_def sample_block_def size_CBlock_def IsProofOfWork_def IsProofOfStake_def sample_plain)

lemma inflation_sel2: "\<not> IsProofOfStake inflation_block" "vchBlockSig inflation_block = vchBlockSig sample_block"
  "tx_nTime sample_coinbase = 1442210400" "tx_nTime sample_coinstake = 1442210400" "tx_nTime sample_tx = 1442210400"
  using inflation_sel(4) by (simp_all add: IsProofOfWork_def inflation_block_def sample_pow_block_def sample_coinbase_def sample_coinstake_def sample_tx_sel)

lemma inflation_pow:
  "CheckProofOfWork mpi_ref main_params (CBlock_GetHash (s_hash check_lib) (\<lambda>_. 0) inflation_block) (blk_nBits inflation_block)"
proof -
  have "CBlock_GetHash (s_hash check_lib) (\<lambda>_. 0) inflation_block = 80"
    by (simp add: CBlock_GetHash_def inflation_sel Hash_def check_lib_def ser_header_def ser_word_def word_of_le_def unat_byte_of_nat)
  moreover have "SetCompact mpi_ref 0x1d00ffff = 0xffff * 256 ^ 26" using mref.SetCompact_value [of "0x1d00ffff"] by simp
  ultimately show ?thesis
    by (simp add: CheckProofOfWork_def inflation_block_def mref.getuint256_value main_params_def word_less_nat_alt)
qed

lemma inflation_checked: "CheckBlock check_sample 1442210400 inflation_block True True False = Inr ()"
proof -
  have "sum_list (map GetLegacySigOpCount (vtx sample_pow_block)) \<le> MAX_BLOCK_SIGOPS" by code_simp
  moreover have "BuildMerkleTree (s_hash check_lib) inflation_block = hashMerkleRoot inflation_block"
    by (simp add: inflation_block_def BuildMerkleTree_def vMerkleTree_def)
  ultimately show ?thesis
    using inflation_pow
    by (simp add: CheckBlock_def inflation_sel sample_txs_ok sample_kinds sample_plain sample_hashes sample_sizes size_CBlock_def
        sample_size(4-6) sample_pow_block_def inflation_sel2 check_sample_def IsProofOfWork_def FutureDrift_def)
      (simp add: sample_block_def)
qed

lemma sample_sigops: "GetLegacySigOpCount sample_coinbase = 0" "GetLegacySigOpCount sample_tx = 0" "GetLegacySigOpCount sample_coinstake = 0"
  by code_simp+

lemma sample_inputs:
  assumes "V 7 = Some sample_entry" "map_of q 7 = None"
  shows "FetchInputs V (\<lambda>_. Some sample_prev) (\<lambda>_. None) q True False sample_tx = Inr [7 \<mapsto> (sample_entry, sample_prev)]"
  using assms by (simp add: FetchInputs_def fetch_one_def in_range_def pos_111_def sample_simps)

lemma sample_coinstake_sel:
  "vin sample_coinstake = [\<lparr> prevout = \<lparr> op_hash = 9, op_n = 0 \<rparr>, scriptSig = [1, 5], nSequence = 0xffffffff \<rparr>]"
  "vout sample_coinstake = [\<lparr> nValue = 0, scriptPubKey = [] \<rparr>, \<lparr> nValue = 20000000000000, scriptPubKey = [0x51] \<rparr>]"
  by (simp_all add: sample_coinstake_def)

lemma coinstake_inputs:
  assumes "V 9 = Some sample_entry" "map_of q 9 = None"
  shows "FetchInputs V (\<lambda>_. Some sample_prev) (\<lambda>_. None) q True False sample_coinstake = Inr [9 \<mapsto> (sample_entry, sample_prev)]"
  using assms by (simp add: FetchInputs_def fetch_one_def in_range_def pos_111_def sample_simps sample_kinds sample_coinstake_sel)

lemma sample_values2:
  "value_out sample_coinbase = Inr 5000" "value_out sample_tx = Inr 5000" "value_out sample_coinstake = Inr 20000000000000"
  by (simp_all add: value_out_def GetValueOut_def sample_coinbase_def sample_coinstake_sel sample_simps)

lemma sample_spender:
  assumes "V 7 = Some sample_entry" "map_of (mapQueuedChanges t) 7 = None" "bt_nSigOps t = 0"
  shows "connect_spender sample_block_env V pindex p sample_tx t = Inr (t\<lparr>
    mapQueuedChanges := map_put 7 (sample_entry\<lparr> vSpent := [CDiskTxPos_null, p] \<rparr>) (mapQueuedChanges t),
    bt_nValueIn := bt_nValueIn t + 100000, bt_nValueOut := bt_nValueOut t + 5000, bt_nFees := bt_nFees t + 95000 \<rparr>)"
  using assms sample_inputs [of V "mapQueuedChanges t"]
  by (cases t) (simp add: connect_spender_def sample_block_env_def GetP2SHSigOpCount_def GetOutputFor_def GetValueIn_def sample_simps IsPayToScriptHash_def
      sample_values2 ConnectInputs_def connect_fee_def sample_values sample_env_def of_tx_def)

lemma coinstake_spender:
  assumes "V 9 = Some sample_entry" "map_of (mapQueuedChanges t) 9 = None" "bt_nSigOps t = 0"
  shows "connect_spender sample_block_env V pindex p sample_coinstake t = Inr (t\<lparr>
    mapQueuedChanges := map_put 9 (sample_entry\<lparr> vSpent := [p, CDiskTxPos_null] \<rparr>) (mapQueuedChanges t),
    bt_nValueIn := bt_nValueIn t + 1, bt_nValueOut := bt_nValueOut t + 20000000000000, bt_nStakeReward := 19999999999999 \<rparr>)"
  using assms coinstake_inputs [of V "mapQueuedChanges t"]
  by (cases t) (simp add: connect_spender_def sample_block_env_def GetP2SHSigOpCount_def GetOutputFor_def GetValueIn_def sample_simps sample_kinds sample_coinstake_sel
      IsPayToScriptHash_def sample_values2 ConnectInputs_def sample_env_def inflation_sel2 of_tx_def)

abbreviation (input) sample_pindex :: chain where
  "sample_pindex \<equiv> [sample_index 1 1442210000 0, sample_index 0 1432620000 0]"

abbreviation (input) sample_view :: ledger where
  "sample_view \<equiv> [7 \<mapsto> sample_entry, 9 \<mapsto> sample_entry]"

lemma sample_db_view: "\<exists>db. db_inv db \<and> ReadTxIndex db = sample_view"
proof -
  let ?e = "\<lparr> pdb = Map.empty, pdb_ok = True, activeBatch = None, fReadOnly = False \<rparr>"
  have e: "db_inv ?e" "ReadTxIndex ?e = Map.empty" by (simp_all add: db_inv_def fun_eq_iff ReadTxIndex_kv kv_def)
  have ok: "ok_CTxIndex sample_entry" by (simp add: ok_CTxIndex_def CTxIndex_of_def MAX_SIZE_def)
  from txdb.up_rd [OF e(1) ok] e(2) obtain s where s: "db_inv s" "ReadTxIndex s = [7 \<mapsto> sample_entry]" by metis
  from txdb.up_rd [OF s(1) ok] s(2) show ?thesis by metis
qed

lemma sample_env_lib: "be_kernel sample_block_env = check_sample" "ke_lib check_sample = check_lib"
  by (simp_all add: sample_block_env_def check_sample_def)

lemma coinbase_step:
  assumes "V 75 = None"
  shows "\<exists>t. connect_tx sample_block_env V j pindex sample_coinbase (totals_init p0) = Inr t \<and> map_of (mapQueuedChanges t) 7 = None
    \<and> map_of (mapQueuedChanges t) 9 = None \<and> bt_nValueIn t = 0 \<and> bt_nValueOut t = 5000 \<and> bt_nFees t = 0 \<and> bt_nSigOps t = 0"
  using assms
  by (simp add: connect_tx_def sample_hashes sample_kinds sample_sigops connect_coinbase_def sample_values2 totals_init_def
      sample_sizes sample_env_lib Let_def)

lemma sample_step:
  assumes "V 7 = Some sample_entry" "V 74 = None" "map_of (mapQueuedChanges t) 7 = None" "map_of (mapQueuedChanges t) 9 = None" "bt_nSigOps t = 0"
  shows "\<exists>t'. connect_tx sample_block_env V j pindex sample_tx t = Inr t' \<and> map_of (mapQueuedChanges t') 9 = None
    \<and> bt_nValueIn t' = bt_nValueIn t + 100000 \<and> bt_nValueOut t' = bt_nValueOut t + 5000 \<and> bt_nFees t' = bt_nFees t + 95000 \<and> bt_nSigOps t' = 0"
  using assms
  by (simp add: connect_tx_def sample_hashes sample_plain sample_sigops sample_spender sample_sizes sample_env_lib Let_def)

lemma coinstake_step:
  assumes "V 9 = Some sample_entry" "V 83 = None" "map_of (mapQueuedChanges t) 9 = None" "bt_nSigOps t = 0"
  shows "\<exists>t'. connect_tx sample_block_env V j pindex sample_coinstake t = Inr t'
    \<and> bt_nValueIn t' = bt_nValueIn t + 1 \<and> bt_nValueOut t' = bt_nValueOut t + 20000000000000 \<and> bt_nFees t' = bt_nFees t"
  using assms
  by (simp add: connect_tx_def sample_hashes sample_kinds sample_sigops coinstake_spender sample_sizes sample_env_lib Let_def)

lemma sample_two:
  assumes "V 7 = Some sample_entry" "V 75 = None" "V 74 = None"
  shows "\<exists>t. connect_txs sample_block_env V j pindex (sample_coinbase # sample_tx # r) (totals_init p0) = connect_txs sample_block_env V j pindex r t
    \<and> map_of (mapQueuedChanges t) 9 = None \<and> bt_nValueIn t = 100000 \<and> bt_nValueOut t = 10000 \<and> bt_nFees t = 95000 \<and> bt_nSigOps t = 0"
proof -
  obtain t where t: "connect_tx sample_block_env V j pindex sample_coinbase (totals_init p0) = Inr t" "map_of (mapQueuedChanges t) 7 = None"
    "map_of (mapQueuedChanges t) 9 = None" "bt_nValueIn t = 0" "bt_nValueOut t = 5000" "bt_nFees t = 0" "bt_nSigOps t = 0"
    using coinbase_step [where V = V] assms(2) by blast
  from sample_step [where V = V and t = t and j = j and pindex = pindex] assms t show ?thesis by fastforce
qed

lemma sample_three:
  assumes "V 7 = Some sample_entry" "V 9 = Some sample_entry" "V 75 = None" "V 74 = None" "V 83 = None"
  shows "\<exists>t. connect_txs sample_block_env V j pindex (vtx inflation_block) (totals_init p0) = Inr t
    \<and> bt_nValueIn t = 100001 \<and> bt_nValueOut t = 20000000010000 \<and> bt_nFees t = 95000"
proof -
  obtain t where t: "connect_txs sample_block_env V j pindex (vtx inflation_block) (totals_init p0) =
      connect_txs sample_block_env V j pindex [sample_coinstake] t" "map_of (mapQueuedChanges t) 9 = None"
    "bt_nValueIn t = 100000" "bt_nValueOut t = 10000" "bt_nFees t = 95000" "bt_nSigOps t = 0"
    using sample_two [where V = V and j = j and r = "[sample_coinstake]"] assms(1,3,4) by (auto simp: inflation_sel)
  from coinstake_step [where V = V and t = t and j = j and pindex = pindex] assms(2,5) t show ?thesis by fastforce
qed

lemma inflation_connects:
  assumes "db_inv db" "ReadTxIndex db = sample_view"
  shows "\<exists>p db'. ConnectBlock sample_block_env ReadTxIndex UpdateTxIndex (WriteBlockIndex H Hash9 fFast now) sample_pindex 0 False inflation_block cache db
    = (Inr (p, db'), cache) \<and> nMoneySupply p = 19999999909999"
proof -
  let ?pos = "first_tx_pos sample_pindex False inflation_block"
  obtain t where t: "connect_txs sample_block_env (ReadTxIndex db) False sample_pindex (vtx inflation_block) (totals_init ?pos) = Inr t"
    "bt_nValueIn t = 100001" "bt_nValueOut t = 20000000010000" "bt_nFees t = 95000"
    using sample_three [of "ReadTxIndex db"] unfolding assms(2) by fastforce
  have c: "CheckBlock (be_kernel sample_block_env) (be_time sample_block_env) inflation_block True True False = Inr ()"
    using inflation_checked by (simp add: sample_block_env_def)
  have units: "GetPoWSubsidy 1 = 59800000000" by code_simp
  have r: "check_pow_reward sample_pindex inflation_block t = Inr ()"
    by (simp add: check_pow_reward_def inflation_sel sample_values2 t(4) GetProofOfWorkReward_def sample_index_def units)
  have s: "sorted_wrt (<) (map fst (mapQueuedChanges t))"
    "connected (be_hash sample_block_env) (vtx inflation_block) (ReadTxIndex db) (ReadTxIndex db ++ map_of (mapQueuedChanges t))"
    using connect_txs_view [OF t(1)] by (simp_all add: totals_init_def sample_index_def)
  have "ledger_ok (ReadTxIndex db)" using ReadTxIndex_ok by (auto simp: ledger_ok_def)
  then have "ledger_ok (ReadTxIndex db ++ map_of (mapQueuedChanges t))" using connected_ok [OF s(2)] CheckBlock_txs(1) [OF c] by simp
  from chaindb.write_block_view [OF assms(1) s(1) this, where pindex = "with_mint sample_pindex t # tl sample_pindex"] obtain db' where
    "write_block UpdateTxIndex (WriteBlockIndex H Hash9 fFast now) False (with_mint sample_pindex t # tl sample_pindex) 0 (mapQueuedChanges t) db = Inr db'"
    by blast
  then have "ConnectBlock sample_block_env ReadTxIndex UpdateTxIndex (WriteBlockIndex H Hash9 fFast now) sample_pindex 0 False inflation_block cache db
    = (Inr (with_mint sample_pindex t, db'), cache)"
    using c t(1) r inflation_sel(4) by (simp add: ConnectBlock_def Let_def)
  moreover have "nMoneySupply (with_mint sample_pindex t) = 19999999909999" using t by (simp add: with_mint_def sample_index_def)
  ultimately show ?thesis by blast
qed

lemma sample_view_canonical: "canonical sample_view"
  by (auto simp: canonical_def CTxIndex_of_def split: if_splits)

theorem DisconnectBlock_ConnectBlock_witness:
  "\<exists>db p db' db''. ConnectBlock sample_block_env ReadTxIndex UpdateTxIndex (WriteBlockIndex (s_hash check_lib) (\<lambda>_. 0) True 0)
      sample_pindex 0 False inflation_block Map.empty db = (Inr (p, db'), Map.empty)
    \<and> DisconnectBlock (s_hash check_lib) ReadTxIndex UpdateTxIndex EraseTxIndex (WriteBlockIndex (s_hash check_lib) (\<lambda>_. 0) True 0)
      sample_pindex inflation_block db' = Inr db'' \<and> ReadTxIndex db'' = ReadTxIndex db"
proof -
  obtain db where db: "db_inv db" "ReadTxIndex db = sample_view" using sample_db_view by blast
  obtain p db' where c: "ConnectBlock sample_block_env ReadTxIndex UpdateTxIndex (WriteBlockIndex (s_hash check_lib) (\<lambda>_. 0) True 0)
      sample_pindex 0 False inflation_block Map.empty db = (Inr (p, db'), Map.empty)" using inflation_connects [OF db] by blast
  have "canonical (ReadTxIndex db)" unfolding db(2) by (rule sample_view_canonical)
  moreover have "\<forall>tx \<in> set (vtx inflation_block). ReadTxIndex db (GetHash (s_hash (ke_lib (be_kernel sample_block_env))) tx) = None"
    by (simp add: db(2) inflation_sel sample_hashes sample_sizes sample_env_lib)
  moreover have "nFile (hd sample_pindex) \<noteq> - 1" by (simp add: sample_index_def)
  ultimately show ?thesis using DisconnectBlock_ConnectBlock [OF c db(1)] c unfolding sample_env_lib by blast
qed

text \<open>
  C7: a block of the proof-of-work phase whose third transaction is a coin stake is connected although the coin stake pays out
  more than it spends: \<open>CheckBlock\<close> refuses coin stakes past the second transaction only in proof-of-stake blocks,
  \<open>ConnectInputs\<close> leaves their value to the stake reward check, and that check is not made for proof-of-work
  blocks.  One such block, at a height with a subsidy of 598 coins, raises the money supply by 199999 coins.
\<close>

theorem ConnectBlock_pow_coinstake_inflates:
  "\<exists>db p db'. IsProofOfWork inflation_block \<and> db_inv db \<and> nMoneySupply (hd (tl sample_pindex)) = 0
    \<and> ConnectBlock sample_block_env ReadTxIndex UpdateTxIndex (WriteBlockIndex (s_hash check_lib) (\<lambda>_. 0) True 0)
      sample_pindex 0 False inflation_block Map.empty db = (Inr (p, db'), Map.empty)
    \<and> 199999 * COIN < sint (nMoneySupply p) \<and> GetPoWSubsidy (nHeight (hd sample_pindex)) = 598 * COIN"
proof -
  obtain db where db: "db_inv db" "ReadTxIndex db = sample_view" using sample_db_view by blast
  obtain p db' where c: "ConnectBlock sample_block_env ReadTxIndex UpdateTxIndex (WriteBlockIndex (s_hash check_lib) (\<lambda>_. 0) True 0)
      sample_pindex 0 False inflation_block Map.empty db = (Inr (p, db'), Map.empty)" "nMoneySupply p = 19999999909999"
    using inflation_connects [OF db] by blast
  moreover have "GetPoWSubsidy 1 = 598 * COIN" by code_simp
  ultimately show ?thesis using db(1) inflation_sel(4) by (intro exI [of _ db] exI [of _ p] exI [of _ db']) (simp add: sample_index_def)
qed

definition plain_block :: CBlock where
  "plain_block = inflation_block\<lparr> vtx := [sample_coinbase, sample_tx] \<rparr>"

lemma plain_sel: "vtx plain_block = [sample_coinbase, sample_tx]" "IsProofOfWork plain_block"
  by (simp_all add: plain_block_def IsProofOfWork_def IsProofOfStake_def sample_plain)

lemma plain_checked: "CheckBlock check_sample 1442210400 plain_block False False False = Inr ()"
proof -
  have "sum_list (map GetLegacySigOpCount (vtx plain_block)) \<le> MAX_BLOCK_SIGOPS" by (simp add: plain_sel sample_sigops)
  moreover have "blk_nTime plain_block = 1442210400" "vchBlockSig plain_block = vchBlockSig sample_block"
    by (simp_all add: plain_block_def inflation_sel(2) inflation_sel2(2))
  ultimately show ?thesis
    using plain_sel(2) by (simp add: CheckBlock_def plain_sel sample_txs_ok sample_kinds sample_plain sample_hashes sample_sizes size_CBlock_def
        sample_size(4-6) inflation_sel2 check_sample_def IsProofOfWork_def FutureDrift_def)
      (simp add: sample_block_def)
qed

theorem ConnectBlock_mint_bounded_witness:
  "\<exists>db p db' minted. ConnectBlock sample_block_env ReadTxIndex UpdateTxIndex (WriteBlockIndex (s_hash check_lib) (\<lambda>_. 0) True 0)
      sample_pindex 0 True plain_block Map.empty db = (Inr (p, db'), Map.empty)
    \<and> nMoneySupply p = word_of_int minted \<and> \<bar>minted\<bar> < 2 ^ 62 \<and> minted \<le> GetPoWSubsidy 1"
proof -
  obtain db where db: "db_inv db" "ReadTxIndex db = sample_view" using sample_db_view by blast
  have V: "ReadTxIndex db 7 = Some sample_entry" "ReadTxIndex db 75 = None" "ReadTxIndex db 74 = None" unfolding db(2) by simp_all
  obtain t where t: "connect_txs sample_block_env (ReadTxIndex db) True sample_pindex (vtx plain_block) (totals_init (first_tx_pos sample_pindex True plain_block)) = Inr t"
    "bt_nFees t = 95000" using sample_two [OF V, where r = "[]"] unfolding plain_sel by fastforce
  have units: "GetPoWSubsidy 1 = 59800000000" by code_simp
  have r: "check_pow_reward sample_pindex plain_block t = Inr ()"
    by (simp add: check_pow_reward_def plain_sel sample_values2 t(2) GetProofOfWorkReward_def sample_index_def units)
  let ?w = "WriteBlockIndex (s_hash check_lib) (\<lambda>_. 0) True 0" and ?d = "CDiskBlockIndex_of (with_mint sample_pindex t # tl sample_pindex) 0"
  obtain db' where "?w ?d db = Some (True, db')"
    using chaindb.wbi_rd [OF db(1), of "s_hash check_lib" "\<lambda>_. 0" True 0 ?d] by blast
  then have "write_block UpdateTxIndex ?w True (with_mint sample_pindex t # tl sample_pindex) 0 (mapQueuedChanges t) db = Inr db'"
    by (simp add: write_block_def db_step_def)
  then have c: "ConnectBlock sample_block_env ReadTxIndex UpdateTxIndex (WriteBlockIndex (s_hash check_lib) (\<lambda>_. 0) True 0)
      sample_pindex 0 True plain_block Map.empty db = (Inr (with_mint sample_pindex t, db'), Map.empty)"
    using plain_checked t(1) r plain_sel(2) by (simp add: ConnectBlock_def Let_def sample_block_env_def)
  from ConnectBlock_mint_bounded [OF c] plain_sel(2) have "\<exists>minted. \<bar>minted\<bar> < 2 ^ 62 \<and> nMoneySupply (with_mint sample_pindex t) = word_of_int minted
    \<and> minted \<le> GetPoWSubsidy 1" by (simp add: plain_sel(1) sample_kinds sample_plain sample_index_def)
  with c show ?thesis by blast
qed

section \<open>A block with a coin base only\<close>

definition coin_block :: CBlock where
  "coin_block = sample_block\<lparr> vtx := [sample_coinbase], blk_nBits := 0x1d00ffff,
     hashMerkleRoot := BuildMerkleTree (s_hash check_lib) (sample_block\<lparr> vtx := [sample_coinbase] \<rparr>) \<rparr>"

lemma coin_block_sel: "vtx coin_block = [sample_coinbase]" "blk_nTime coin_block = 1442210400" "hashPrevBlock coin_block = 1"
  "vchBlockSig coin_block = vchBlockSig sample_block" "IsProofOfWork coin_block" "blk_nBits coin_block = 0x1d00ffff"
  by (simp_all add: coin_block_def sample_block_def IsProofOfWork_def IsProofOfStake_def)

lemma coin_block_hash: "CBlock_GetHash (s_hash check_lib) X coin_block = 80"
  by (simp add: CBlock_GetHash_def coin_block_sel Hash_def check_lib_def ser_header_def ser_word_def word_of_le_def unat_byte_of_nat)

lemma coin_checked: "CheckBlock check_sample 1442210400 coin_block True True False = Inr ()"
proof -
  have "BuildMerkleTree (s_hash check_lib) coin_block = hashMerkleRoot coin_block"
    by (simp add: coin_block_def BuildMerkleTree_def vMerkleTree_def)
  moreover have "SetCompact mpi_ref 0x1d00ffff = 0xffff * 256 ^ 26" using mref.SetCompact_value [of "0x1d00ffff"] by simp
  then have "CheckProofOfWork mpi_ref main_params 80 0x1d00ffff"
    by (simp add: CheckProofOfWork_def mref.getuint256_value main_params_def word_less_nat_alt)
  ultimately show ?thesis using coin_block_sel(5)
    by (simp add: CheckBlock_def coin_block_sel sample_txs_ok sample_kinds sample_hashes sample_sizes size_CBlock_def coin_block_hash sample_sigops
        sample_size(4-6) inflation_sel2 check_sample_def IsProofOfWork_def FutureDrift_def)
      (simp add: sample_block_def)
qed

lemma coin_connects:
  assumes "be_kernel B = check_sample" "be_time B = 1442210400" "db_inv db" "ReadTxIndex db 75 = None" "nHeight (hd pindex) = 1" "nFile (hd pindex) \<noteq> -1"
  shows "\<exists>p db'. ConnectBlock B ReadTxIndex UpdateTxIndex (WriteBlockIndex H Hash9 fFast now) pindex n False coin_block cache db = (Inr (p, db'), cache)"
proof -
  have lib: "ke_lib (be_kernel B) = check_lib" using assms(1) by (simp add: check_sample_def)
  obtain t where t: "connect_txs B (ReadTxIndex db) False pindex (vtx coin_block) (totals_init (first_tx_pos pindex False coin_block)) = Inr t" "bt_nFees t = 0"
    using assms(4) by (simp add: coin_block_sel(1) connect_tx_def sample_hashes sample_kinds sample_sigops connect_coinbase_def sample_values2 totals_init_def
      sample_sizes lib Let_def)
  have c: "CheckBlock (be_kernel B) (be_time B) coin_block True True False = Inr ()" using coin_checked assms(1,2) by simp
  have units: "GetPoWSubsidy 1 = 59800000000" by code_simp
  have r: "check_pow_reward pindex coin_block t = Inr ()"
    by (simp add: check_pow_reward_def coin_block_sel sample_values2 t(2) GetProofOfWorkReward_def units assms(5))
  have s: "sorted_wrt (<) (map fst (mapQueuedChanges t))"
    "connected (be_hash B) (vtx coin_block) (ReadTxIndex db) (ReadTxIndex db ++ map_of (mapQueuedChanges t))"
    using connect_txs_view [OF t(1)] assms(6) by (simp_all add: totals_init_def)
  have "ledger_ok (ReadTxIndex db)" using ReadTxIndex_ok by (auto simp: ledger_ok_def)
  then have "ledger_ok (ReadTxIndex db ++ map_of (mapQueuedChanges t))" using connected_ok [OF s(2)] CheckBlock_txs(1) [OF c] by simp
  from chaindb.write_block_view [OF assms(3) s(1) this, where pindex = "with_mint pindex t # tl pindex"] obtain db' where
    "write_block UpdateTxIndex (WriteBlockIndex H Hash9 fFast now) False (with_mint pindex t # tl pindex) n (mapQueuedChanges t) db = Inr db'" by blast
  then show ?thesis using c t(1) r coin_block_sel(5) by (simp add: ConnectBlock_def Let_def)
qed

end
