(* ===== verification/Mempool.thy ===== *)
theory Mempool
  imports CheckBlock
begin

text \<open>
  The memory pool and the orphan transactions (\<open>main.h\<close>, \<open>main.cpp\<close>): \<open>CTxMemPool\<close> with \<open>accept\<close>, \<open>addUnchecked\<close>,
  \<open>remove\<close>, \<open>removeConflicts\<close>, \<open>clear\<close> and \<open>queryHashes\<close>; \<open>AddOrphanTx\<close>, \<open>EraseOrphanTx\<close> and
  \<open>LimitOrphanTxSize\<close>.

  A \<open>CInPoint\<close> points at a node of \<open>mapTx\<close>; the model names the node by its key, and following a pointer to a
  node that was erased has no result.  The recursion of \<open>remove\<close> is given fuel; \<open>remove\<close> supplies one more
  than the number of transactions in the pool, which is shown to be enough.
\<close>

record CInPoint =
  ptx :: uint256
  in_n :: u32

record CTxMemPool =
  mapTx :: "(uint256 \<times> CTransaction) list"
  mapNextTx :: "COutPoint \<rightharpoonup> CInPoint"
  nTransactionsUpdated :: u32

definition CTxMemPool_empty :: CTxMemPool where
  "CTxMemPool_empty = \<lparr> mapTx = [], mapNextTx = Map.empty, nTransactionsUpdated = 0 \<rparr>"

section \<open>Operations\<close>

definition pool_size :: "CTxMemPool \<Rightarrow> nat" where
  "pool_size p = length (mapTx p)"

definition pool_exists :: "CTxMemPool \<Rightarrow> uint256 \<Rightarrow> bool" where
  "pool_exists p hash \<longleftrightarrow> map_of (mapTx p) hash \<noteq> None"

definition pool_lookup :: "CTxMemPool \<Rightarrow> uint256 \<Rightarrow> CTransaction option" where
  "pool_lookup p hash = map_of (mapTx p) hash"

fun add_inputs :: "uint256 \<Rightarrow> CTxIn list \<Rightarrow> nat \<Rightarrow> (COutPoint \<rightharpoonup> CInPoint) \<Rightarrow> (COutPoint \<rightharpoonup> CInPoint)" where
  "add_inputs hash [] i m = m"
| "add_inputs hash (txin # r) i m = add_inputs hash r (Suc i) (m(prevout txin \<mapsto> \<lparr> ptx = hash, in_n = word_of_nat i \<rparr>))"

definition addUnchecked :: "uint256 \<Rightarrow> CTransaction \<Rightarrow> CTxMemPool \<Rightarrow> CTxMemPool" where
  "addUnchecked hash tx p = p\<lparr> mapTx := map_put hash tx (mapTx p), mapNextTx := add_inputs hash (vin tx) 0 (mapNextTx p),
     nTransactionsUpdated := nTransactionsUpdated p + 1 \<rparr>"

definition erase_tx :: "uint256 \<Rightarrow> CTransaction \<Rightarrow> CTxMemPool \<Rightarrow> CTxMemPool" where
  "erase_tx hash tx p = p\<lparr> mapTx := map_erase hash (mapTx p), mapNextTx := fold (\<lambda>txin m. m(prevout txin := None)) (vin tx) (mapNextTx p),
     nTransactionsUpdated := nTransactionsUpdated p + 1 \<rparr>"

text \<open>The transactions that \<open>rem\<close> has to remove because they spend an output of the transaction \<open>hash\<close>.\<close>

fun remove_spenders :: "(CTransaction \<Rightarrow> CTxMemPool \<Rightarrow> CTxMemPool option) \<Rightarrow> uint256 \<Rightarrow> nat list \<Rightarrow> CTxMemPool \<Rightarrow> CTxMemPool option" where
  "remove_spenders rem hash [] p = Some p"
| "remove_spenders rem hash (i # r) p =
     (case mapNextTx p \<lparr> op_hash = hash, op_n = word_of_nat i \<rparr> of
        None \<Rightarrow> remove_spenders rem hash r p
      | Some it \<Rightarrow> do { tx \<leftarrow> map_of (mapTx p) (ptx it); p' \<leftarrow> rem tx p; remove_spenders rem hash r p' })"

fun remove_fuel :: "nat \<Rightarrow> hash_lib \<Rightarrow> CTransaction \<Rightarrow> bool \<Rightarrow> CTxMemPool \<Rightarrow> CTxMemPool option" where
  "remove_fuel 0 H tx fRecursive p = None"
| "remove_fuel (Suc k) H tx fRecursive p =
     (let hash = GetHash H tx in
      if map_of (mapTx p) hash = None then Some p
      else do {
        p' \<leftarrow> (if fRecursive then remove_spenders (\<lambda>t. remove_fuel k H t True) hash [0..<length (vout tx)] p else Some p);
        Some (erase_tx hash tx p') })"

definition pool_remove :: "hash_lib \<Rightarrow> CTransaction \<Rightarrow> bool \<Rightarrow> CTxMemPool \<Rightarrow> CTxMemPool option" where
  "pool_remove H tx fRecursive p = remove_fuel (Suc (pool_size p)) H tx fRecursive p"

fun remove_conflicts :: "hash_lib \<Rightarrow> CTransaction \<Rightarrow> CTxIn list \<Rightarrow> CTxMemPool \<Rightarrow> CTxMemPool option" where
  "remove_conflicts H tx [] p = Some p"
| "remove_conflicts H tx (txin # r) p =
     (case mapNextTx p (prevout txin) of
        None \<Rightarrow> remove_conflicts H tx r p
      | Some it \<Rightarrow> do {
          txConflict \<leftarrow> map_of (mapTx p) (ptx it);
          p' \<leftarrow> (if \<not> CTransaction_eq txConflict tx then pool_remove H txConflict True p else Some p);
          remove_conflicts H tx r p' })"

definition removeConflicts :: "hash_lib \<Rightarrow> CTransaction \<Rightarrow> CTxMemPool \<Rightarrow> CTxMemPool option" where
  "removeConflicts H tx p = remove_conflicts H tx (vin tx) p"

definition pool_clear :: "CTxMemPool \<Rightarrow> CTxMemPool" where
  "pool_clear p = p\<lparr> mapTx := [], mapNextTx := Map.empty, nTransactionsUpdated := nTransactionsUpdated p + 1 \<rparr>"

definition queryHashes :: "CTxMemPool \<Rightarrow> uint256 list" where
  "queryHashes p = map fst (mapTx p)"

section \<open>Accepting a transaction\<close>

text \<open>
  The rate limiter for free transactions keeps a \<open>double\<close> in a static variable; its arithmetic is a parameter:
  \<open>fp_decay d n\<close> is \<open>d * pow(1.0 - 1.0/600.0, n)\<close>, \<open>fp_above d n\<close> is \<open>d > n\<close> and \<open>fp_add d n\<close> is \<open>d + n\<close>.
\<close>

record 'd fp_ops =
  fp_decay :: "'d \<Rightarrow> int \<Rightarrow> 'd"
  fp_above :: "'d \<Rightarrow> int \<Rightarrow> bool"
  fp_add :: "'d \<Rightarrow> u32 \<Rightarrow> 'd"

text \<open>\<open>pe_limit\<close> is \<open>-limitfreerelay\<close>, \<open>pe_mine\<close> is \<open>IsFromMe\<close> and \<open>pe_canonical\<close> is \<open>fEnforceCanonical\<close>.\<close>

record 'd pool_env =
  pe_connect :: connect_env
  pe_disk :: "CDiskTxPos \<Rightarrow> CTransaction option"
  pe_testnet :: bool
  pe_canonical :: bool
  pe_fp :: "'d fp_ops"
  pe_limit :: int
  pe_now :: int
  pe_mine :: "CTransaction \<Rightarrow> bool"

abbreviation (input) pe_hash :: "'d pool_env \<Rightarrow> hash_lib" where
  "pe_hash A \<equiv> s_hash (ce_lib (pe_connect A))"

definition rate_limit :: "'d pool_env \<Rightarrow> CTransaction \<Rightarrow> u32 \<Rightarrow> 'd \<times> int \<Rightarrow> bool \<times> 'd \<times> int" where
  "rate_limit A tx nSize lim =
     (case lim of (dFreeCount, nLastTime) \<Rightarrow>
        let d = fp_decay (pe_fp A) dFreeCount (pe_now A - nLastTime) in
        if fp_above (pe_fp A) d (pe_limit A * 10 * 1000) \<and> \<not> pe_mine A tx then (False, d, pe_now A)
        else (True, fp_add (pe_fp A) d nSize, pe_now A))"

text \<open>The checks made when \<open>fCheckInputs\<close> is set; a rejection says whether inputs are missing.\<close>

definition accept_fee :: "'d pool_env \<Rightarrow> CTransaction \<Rightarrow> MapPrevTx \<Rightarrow> (i64 \<times> u32) checked" where
  "accept_fee A tx mapInputs =
     bindr (AreInputsStandard (ce_lib (pe_connect A)) mapInputs tx) (\<lambda>standard.
     if \<not> standard \<and> \<not> pe_testnet A then Inl (DoS 0 ''nonstandard transaction input'') else
     bindr (GetValueIn mapInputs tx) (\<lambda>nValueIn.
     case GetValueOut tx of None \<Rightarrow> Inl (Throw ''CTransaction::GetValueOut() : value out of range'') | Some nValueOut \<Rightarrow>
     let nFees = nValueIn - nValueOut;
         nSize = (word_of_nat (size_CTransaction tx) :: u32);
         txMinFee = GetMinFee (ce_mixed (pe_connect A)) tx 1000 GMF_RELAY nSize
     in if sint nFees < sint txMinFee then Inl (DoS 0 ''not enough fees'') else Inr (nFees, nSize)))"

definition accept_inputs ::
  "'d pool_env \<Rightarrow> (uint256 \<Rightarrow> CTxIndex option) \<Rightarrow> chain \<Rightarrow> CTransaction \<Rightarrow> CTxMemPool \<Rightarrow> 'd \<times> int \<Rightarrow> (verdict \<times> bool + unit) \<times> 'd \<times> int" where
  "accept_inputs A rd pindexBest tx p lim =
     (case FetchInputs rd (pe_disk A) (pool_lookup p) [] False False tx of
        Inl (v, fInvalid) \<Rightarrow> (Inl (v, \<not> fInvalid), lim)
      | Inr mapInputs \<Rightarrow>
          case accept_fee A tx mapInputs of
            Inl v \<Rightarrow> (Inl (v, False), lim)
          | Inr (nFees, nSize) \<Rightarrow>
              case (if sint nFees < MIN_RELAY_TX_FEE then rate_limit A tx nSize lim else (True, lim)) of
                (False, lim') \<Rightarrow> (Inl (DoS 0 ''free transaction rejected by rate limiter'', False), lim')
              | (True, lim') \<Rightarrow>
                  case ConnectInputs (pe_connect A) mapInputs [] pos_111 pindexBest False False tx of
                    Inl v \<Rightarrow> (Inl (v, False), lim')
                  | Inr _ \<Rightarrow> (Inr (), lim'))"

definition accept ::
  "'d pool_env \<Rightarrow> (uint256 \<Rightarrow> CTxIndex option) \<Rightarrow> (uint256 \<Rightarrow> bool) \<Rightarrow> chain \<Rightarrow> bool \<Rightarrow> CTransaction \<Rightarrow> CTxMemPool \<Rightarrow> 'd \<times> int
   \<Rightarrow> (verdict \<times> bool + CTxMemPool) \<times> 'd \<times> int" where
  "accept A rd containsTx pindexBest fCheckInputs tx p lim =
     (let hash = GetHash (pe_hash A) tx in
      case CheckTransaction tx of Inl v \<Rightarrow> (Inl (v, False), lim) | Inr _ \<Rightarrow>
      if IsCoinBase tx then (Inl (DoS 100 ''coinbase as individual tx'', False), lim)
      else if IsCoinStake tx then (Inl (DoS 100 ''coinstake as individual tx'', False), lim)
      else if \<not> pe_testnet A \<and> \<not> IsStandard (pe_canonical A) tx then (Inl (DoS 0 ''nonstandard transaction type'', False), lim)
      else if pool_exists p hash then (Inl (DoS 0 ''already in the pool'', False), lim)
      else if fCheckInputs \<and> containsTx hash then (Inl (DoS 0 ''already in a block'', False), lim)
      else if list_ex (\<lambda>txin. mapNextTx p (prevout txin) \<noteq> None) (vin tx) then (Inl (DoS 0 ''conflict'', False), lim)
      else
        case (if fCheckInputs then accept_inputs A rd pindexBest tx p lim else (Inr (), lim)) of
          (Inl e, lim') \<Rightarrow> (Inl e, lim')
        | (Inr _, lim') \<Rightarrow> (Inr (addUnchecked hash tx p), lim'))"

section \<open>Orphan transactions\<close>

record orphans =
  mapOrphanTransactions :: "(uint256 \<times> CTransaction) list"
  mapOrphanTransactionsByPrev :: "uint256 \<rightharpoonup> uint256 set"

definition orphans_empty :: orphans where
  "orphans_empty = \<lparr> mapOrphanTransactions = [], mapOrphanTransactionsByPrev = Map.empty \<rparr>"

definition by_prev_insert :: "uint256 \<Rightarrow> uint256 \<Rightarrow> (uint256 \<rightharpoonup> uint256 set) \<Rightarrow> (uint256 \<rightharpoonup> uint256 set)" where
  "by_prev_insert hash prev m = m(prev \<mapsto> insert hash (case m prev of None \<Rightarrow> {} | Some S \<Rightarrow> S))"

definition AddOrphanTx :: "hash_lib \<Rightarrow> CTransaction \<Rightarrow> orphans \<Rightarrow> bool \<times> orphans" where
  "AddOrphanTx H tx os =
     (let hash = GetHash H tx in
      if map_of (mapOrphanTransactions os) hash \<noteq> None then (False, os)
      else if size_CTransaction tx > 5000 then (False, os)
      else (True, os\<lparr> mapOrphanTransactions := map_put hash tx (mapOrphanTransactions os),
                     mapOrphanTransactionsByPrev := fold (\<lambda>txin. by_prev_insert hash (op_hash (prevout txin))) (vin tx) (mapOrphanTransactionsByPrev os) \<rparr>))"

definition by_prev_erase :: "uint256 \<Rightarrow> uint256 \<Rightarrow> (uint256 \<rightharpoonup> uint256 set) \<Rightarrow> (uint256 \<rightharpoonup> uint256 set)" where
  "by_prev_erase hash prev m =
     (let S = (case m prev of None \<Rightarrow> {} | Some S \<Rightarrow> S) - {hash} in if S = {} then m(prev := None) else m(prev \<mapsto> S))"

definition EraseOrphanTx :: "uint256 \<Rightarrow> orphans \<Rightarrow> orphans" where
  "EraseOrphanTx hash os =
     (case map_of (mapOrphanTransactions os) hash of
        None \<Rightarrow> os
      | Some tx \<Rightarrow> os\<lparr> mapOrphanTransactions := map_erase hash (mapOrphanTransactions os),
          mapOrphanTransactionsByPrev := fold (\<lambda>txin. by_prev_erase hash (op_hash (prevout txin))) (vin tx) (mapOrphanTransactionsByPrev os) \<rparr>)"

fun lower_bound :: "'k::linorder \<Rightarrow> ('k \<times> 'v) list \<Rightarrow> ('k \<times> 'v) option" where
  "lower_bound k [] = None"
| "lower_bound k ((k', v) # m) = (if k \<le> k' then Some (k', v) else lower_bound k m)"

text \<open>The random numbers are consumed from the list \<open>rands\<close>; without one left there is no result.\<close>

definition evicted :: "uint256 \<Rightarrow> orphans \<Rightarrow> uint256" where
  "evicted randomhash os = fst (case lower_bound randomhash (mapOrphanTransactions os) of
     None \<Rightarrow> hd (mapOrphanTransactions os) | Some it \<Rightarrow> it)"

fun LimitOrphanTxSize :: "uint256 list \<Rightarrow> nat \<Rightarrow> u32 \<Rightarrow> orphans \<Rightarrow> (u32 \<times> orphans) option" where
  "LimitOrphanTxSize rands nMaxOrphans nEvicted os =
     (if length (mapOrphanTransactions os) \<le> nMaxOrphans then Some (nEvicted, os)
      else case rands of [] \<Rightarrow> None
        | randomhash # rands' \<Rightarrow> LimitOrphanTxSize rands' nMaxOrphans (nEvicted + 1) (EraseOrphanTx (evicted randomhash os) os))"


declare LimitOrphanTxSize.simps [simp del]

section \<open>The invariant of the pool\<close>

text \<open>
  \<open>mapNextTx\<close> names, for exactly the outputs spent by transactions of the pool, the one input that spends it.
\<close>

definition spends :: "(uint256 \<rightharpoonup> CTransaction) \<Rightarrow> CInPoint \<Rightarrow> COutPoint \<Rightarrow> bool" where
  "spends M it out \<longleftrightarrow> (\<exists>tx. M (ptx it) = Some tx \<and> unat (in_n it) < length (vin tx) \<and> prevout (vin tx ! unat (in_n it)) = out)"

definition pool_inv :: "hash_lib \<Rightarrow> CTxMemPool \<Rightarrow> bool" where
  "pool_inv H p \<longleftrightarrow> sorted_wrt (<) (map fst (mapTx p))
     \<and> (\<forall>h tx. map_of (mapTx p) h = Some tx \<longrightarrow> GetHash H tx = h \<and> length (vin tx) \<le> MAX_BLOCK_SIZE)
     \<and> (\<forall>out it. mapNextTx p out = Some it \<longleftrightarrow> spends (map_of (mapTx p)) it out)"

lemma pool_invD:
  assumes "pool_inv H p"
  shows "sorted_wrt (<) (map fst (mapTx p))"
    and "map_of (mapTx p) h = Some tx \<Longrightarrow> GetHash H tx = h"
    and "map_of (mapTx p) h = Some tx \<Longrightarrow> length (vin tx) \<le> MAX_BLOCK_SIZE"
    and "mapNextTx p out = Some it \<longleftrightarrow> spends (map_of (mapTx p)) it out"
  using assms by (auto simp: pool_inv_def)

lemma pool_inv_empty: "pool_inv H CTxMemPool_empty"
  by (simp add: pool_inv_def CTxMemPool_empty_def spends_def)

lemma pool_inv_clear: "pool_inv H (pool_clear p)"
  by (simp add: pool_inv_def pool_clear_def spends_def)

lemma add_inputs_other: "out \<notin> prevout ` set ins \<Longrightarrow> add_inputs hash ins i m out = m out"
  by (induction ins arbitrary: i m) auto

lemma add_inputs_at:
  "distinct (map prevout ins) \<Longrightarrow> j < length ins \<Longrightarrow> add_inputs hash ins i m (prevout (ins ! j)) = Some \<lparr> ptx = hash, in_n = word_of_nat (i + j) \<rparr>"
proof (induction ins arbitrary: i j m)
  case (Cons a ins)
  show ?case
  proof (cases j)
    case 0
    then show ?thesis using Cons(2) by (simp add: add_inputs_other)
  next
    case (Suc n)
    then show ?thesis using Cons(1) [of n "Suc i"] Cons(2,3) by simp
  qed
qed simp

lemma addUnchecked_inv:
  assumes "pool_inv H p" "map_of (mapTx p) (GetHash H tx) = None" "distinct (map prevout (vin tx))" "length (vin tx) \<le> MAX_BLOCK_SIZE"
    "\<forall>txin \<in> set (vin tx). mapNextTx p (prevout txin) = None"
  shows "pool_inv H (addUnchecked (GetHash H tx) tx p)"
proof -
  let ?h = "GetHash H tx" and ?N = "mapNextTx (addUnchecked (GetHash H tx) tx p)"
  have "?N out = Some it \<longleftrightarrow> spends ((map_of (mapTx p))(?h \<mapsto> tx)) it out" for out it
  proof (cases "out \<in> prevout ` set (vin tx)")
    case True
    then obtain j where j: "j < length (vin tx)" "out = prevout (vin tx ! j)" by (auto simp: in_set_conv_nth)
    then have n: "?N out = Some \<lparr> ptx = ?h, in_n = word_of_nat j \<rparr>" using add_inputs_at [OF assms(3) j(1), of _ 0] by (simp add: addUnchecked_def)
    have u: "unat (word_of_nat j :: u32) = j" using j(1) assms(4) by (simp add: unat_of_nat take_bit_nat_eq_self)
    have uniq: "i = j" if "i < length (vin tx)" "prevout (vin tx ! i) = out" for i
      using nth_eq_iff_index_eq [OF assms(3), of i j] that j by simp
    have "mapNextTx p out = None" using True assms(5) by auto
    then have other: "\<not> spends (map_of (mapTx p)) it out" using pool_invD(4) [OF assms(1)] by (metis option.distinct(1))
    have "spends ((map_of (mapTx p))(?h \<mapsto> tx)) it out \<longleftrightarrow> ptx it = ?h \<and> unat (in_n it) = j"
    proof (cases "ptx it = ?h")
      case True
      then show ?thesis using uniq [of "unat (in_n it)"] j by (auto simp: spends_def)
    next
      case False
      then show ?thesis using other by (simp add: spends_def)
    qed
    also have "\<dots> \<longleftrightarrow> it = \<lparr> ptx = ?h, in_n = word_of_nat j \<rparr>"
      using u by (cases it) (auto simp: word_unat_eq_iff)
    finally show ?thesis using n by auto
  next
    case False
    then have "?N out = mapNextTx p out" by (simp add: addUnchecked_def add_inputs_other)
    moreover have "spends ((map_of (mapTx p))(?h \<mapsto> tx)) it out \<longleftrightarrow> spends (map_of (mapTx p)) it out"
      using False assms(2) nth_mem [of "unat (in_n it)" "vin tx"] by (auto simp: spends_def)
    ultimately show ?thesis using pool_invD(4) [OF assms(1)] by simp
  qed
  then show ?thesis using assms(1,4) by (auto simp: pool_inv_def addUnchecked_def sorted_put split: if_splits)
qed

text \<open>
  Removing a set of transactions.  \<open>without S p q\<close>: the pool \<open>q\<close> holds the transactions of \<open>p\<close> that are not in \<open>S\<close>.
\<close>

definition without :: "uint256 set \<Rightarrow> CTxMemPool \<Rightarrow> CTxMemPool \<Rightarrow> bool" where
  "without S p q \<longleftrightarrow> mapTx q = filter (\<lambda>(h, _). h \<notin> S) (mapTx p)"

lemma map_of_filter_key: "map_of (filter (\<lambda>(h, _). P h) m) k = (if P k then map_of m k else None)"
  by (induction m) auto

lemma without_map: "without S p q \<Longrightarrow> map_of (mapTx q) k = (if k \<in> S then None else map_of (mapTx p) k)"
  by (simp add: without_def map_of_filter_key)

lemma without_refl: "without {} p p"
  by (simp add: without_def)

lemma without_trans: "without S p q \<Longrightarrow> without T q r \<Longrightarrow> without (S \<union> T) p r"
  by (auto simp: without_def intro!: filter_cong)

lemma without_size: "without S p q \<Longrightarrow> pool_size q \<le> pool_size p"
  by (simp add: without_def pool_size_def)

lemma fold_forget: "fold (\<lambda>txin m. m(prevout txin := None)) ins m out = (if out \<in> prevout ` set ins then None else m out)"
  by (induction ins arbitrary: m) auto

lemma erase_tx_inv:
  assumes "pool_inv H p" "map_of (mapTx p) h = Some tx"
  shows "pool_inv H (erase_tx h tx p)" "without {h} p (erase_tx h tx p)"
proof -
  have "(if out \<in> prevout ` set (vin tx) then None else mapNextTx p out) = Some it \<longleftrightarrow> spends ((map_of (mapTx p))(h := None)) it out" for out it
  proof (cases "out \<in> prevout ` set (vin tx)")
    case True
    then obtain j where j: "j < length (vin tx)" "out = prevout (vin tx ! j)" by (auto simp: in_set_conv_nth)
    moreover have u: "unat (word_of_nat j :: u32) = j" using j(1) pool_invD(3) [OF assms] by (simp add: unat_of_nat take_bit_nat_eq_self)
    ultimately have "spends (map_of (mapTx p)) \<lparr> ptx = h, in_n = word_of_nat j \<rparr> out" using assms(2) by (simp add: spends_def)
    then have n: "mapNextTx p out = Some \<lparr> ptx = h, in_n = word_of_nat j \<rparr>" by (simp add: pool_invD(4) [OF assms(1)])
    have "ptx it = h" if "spends (map_of (mapTx p)) it out" for it
      using that n by (auto simp flip: pool_invD(4) [OF assms(1)])
    then show ?thesis using True by (auto simp: spends_def)
  next
    case False
    then show ?thesis using pool_invD(4) [OF assms(1)] assms(2) nth_mem [of "unat (in_n it)" "vin tx"] by (auto simp: spends_def)
  qed
  then show "pool_inv H (erase_tx h tx p)"
    using assms(1) by (auto simp: pool_inv_def erase_tx_def fold_forget sorted_erase split: if_splits)
  show "without {h} p (erase_tx h tx p)" by (simp add: without_def erase_tx_def map_erase_def)
qed

text \<open>\<open>children p\<close> relates a transaction to the transactions of the pool that spend one of its outputs.\<close>

definition children :: "CTxMemPool \<Rightarrow> (uint256 \<times> uint256) set" where
  "children p = {(h, k). \<exists>tx t. map_of (mapTx p) h = Some tx \<and> map_of (mapTx p) k = Some t
     \<and> (\<exists>txin \<in> set (vin t). op_hash (prevout txin) = h \<and> unat (op_n (prevout txin)) < length (vout tx))}"

definition descendants :: "CTxMemPool \<Rightarrow> uint256 \<Rightarrow> uint256 set" where
  "descendants p h = (children p)\<^sup>* `` {h}"

lemma children_without: "without S p q \<Longrightarrow> children q = {(h, k) \<in> children p. h \<notin> S \<and> k \<notin> S}"
  by (auto simp: children_def without_map split: if_splits)

lemma descendants_refl: "h \<in> descendants p h"
  by (simp add: descendants_def)

lemma descendants_step: "(h, k) \<in> children p \<Longrightarrow> descendants p k \<subseteq> descendants p h"
  by (auto simp: descendants_def intro: converse_rtrancl_into_rtrancl)

lemma descendants_closed: "(h, k) \<in> children p \<Longrightarrow> h \<in> descendants p g \<Longrightarrow> k \<in> descendants p g"
  by (auto simp: descendants_def intro: rtrancl_into_rtrancl)

lemma descendants_unfold: "descendants p h = insert h (\<Union>k \<in> children p `` {h}. descendants p k)"
  by (auto simp: descendants_def elim: converse_rtranclE intro: converse_rtrancl_into_rtrancl)

text \<open>Removing a set that is closed under children does not disturb the descendants outside it.\<close>

lemma descendants_without:
  assumes "without S p q" "children p `` S \<subseteq> S" "h \<notin> S"
  shows "S \<union> descendants q h = S \<union> descendants p h"
proof -
  have "(h, k) \<in> (children p)\<^sup>* \<Longrightarrow> k \<notin> S \<Longrightarrow> (h, k) \<in> (children q)\<^sup>*" for k
  proof (induction rule: rtrancl_induct)
    case (step y z)
    then have "y \<notin> S" using assms(2) by blast
    then show ?case using step children_without [OF assms(1)] by (auto intro: rtrancl_into_rtrancl)
  qed simp
  moreover have "(children q)\<^sup>* \<subseteq> (children p)\<^sup>*" using children_without [OF assms(1)] by (intro rtrancl_mono) auto
  ultimately show ?thesis by (auto simp: descendants_def)
qed

lemma descendants_dom: "map_of (mapTx p) h \<noteq> None \<Longrightarrow> descendants p h \<subseteq> dom (map_of (mapTx p))"
  by (auto simp: descendants_def children_def elim: rtranclE)

lemma finite_descendants: "map_of (mapTx p) h \<noteq> None \<Longrightarrow> finite (descendants p h)"
  using descendants_dom finite_dom_map_of finite_subset by metis

lemma card_descendants: "map_of (mapTx p) h \<noteq> None \<Longrightarrow> card (descendants p h) \<le> pool_size p"
proof -
  assume "map_of (mapTx p) h \<noteq> None"
  then have "card (descendants p h) \<le> card (dom (map_of (mapTx p)))"
    by (intro card_mono descendants_dom finite_dom_map_of)
  also have "\<dots> \<le> pool_size p" unfolding dom_map_of_conv_image_fst pool_size_def using card_image_le card_length order_trans by (metis List.finite_set)
  finally show ?thesis .
qed

lemma child_smaller:
  assumes "(h, k) \<in> children p" "acyclic (children p)"
  shows "h \<notin> descendants p k" "card (descendants p k) < card (descendants p h)"
proof -
  show n: "h \<notin> descendants p k" using assms by (auto simp: descendants_def acyclic_def intro: rtrancl_into_trancl2)
  have "map_of (mapTx p) h \<noteq> None" using assms(1) by (auto simp: children_def)
  moreover have "descendants p k \<subset> descendants p h" using descendants_step [OF assms(1)] n descendants_refl by blast
  ultimately show "card (descendants p k) < card (descendants p h)" using finite_descendants psubset_card_mono by metis
qed

definition remover :: "hash_lib \<Rightarrow> nat \<Rightarrow> (CTransaction \<Rightarrow> CTxMemPool \<Rightarrow> CTxMemPool option) \<Rightarrow> bool" where
  "remover H n rem \<longleftrightarrow> (\<forall>p h tx. pool_inv H p \<longrightarrow> acyclic (children p) \<longrightarrow> map_of (mapTx p) h = Some tx \<longrightarrow> card (descendants p h) \<le> n \<longrightarrow>
     (\<exists>q. rem tx p = Some q \<and> pool_inv H q \<and> without (descendants p h) p q))"

text \<open>A set of removed transactions between the start of the loop over the outputs of \<open>h\<close> and its end.\<close>

definition removing :: "CTxMemPool \<Rightarrow> uint256 \<Rightarrow> uint256 set \<Rightarrow> bool" where
  "removing p h S \<longleftrightarrow> S \<subseteq> descendants p h - {h} \<and> children p `` S \<subseteq> S"

lemma next_child:
  assumes "pool_inv H p" "pool_inv H q" "without S p q" "map_of (mapTx p) h = Some tx" "h \<notin> S" "i < length (vout tx)"
    "mapNextTx q \<lparr> op_hash = h, op_n = word_of_nat i \<rparr> = Some it"
  obtains t where "map_of (mapTx q) (ptx it) = Some t" "ptx it \<notin> S" "(h, ptx it) \<in> children p"
proof -
  have "spends (map_of (mapTx q)) it \<lparr> op_hash = h, op_n = word_of_nat i \<rparr>" using assms(7) by (simp add: pool_invD(4) [OF assms(2)])
  then obtain t where t: "map_of (mapTx q) (ptx it) = Some t" "unat (in_n it) < length (vin t)"
    "prevout (vin t ! unat (in_n it)) = \<lparr> op_hash = h, op_n = word_of_nat i \<rparr>" by (auto simp: spends_def)
  have S: "ptx it \<notin> S" "map_of (mapTx p) (ptx it) = Some t" using t(1) without_map [OF assms(3)] by (auto split: if_splits)
  have "unat (word_of_nat i :: u32) \<le> i" by (simp add: unat_of_nat take_bit_nat_less_eq_self)
  then have "(h, ptx it) \<in> children p"
    unfolding children_def using assms(4,6) S(2) nth_mem [OF t(2)] t(3) by (auto intro!: bexI [of _ "vin t ! unat (in_n it)"])
  then show thesis using that t(1) S(1) by blast
qed

lemma next_without:
  assumes "pool_inv H q" "pool_inv H r" "without T q r" "mapNextTx r out = Some it"
  shows "mapNextTx q out = Some it \<and> ptx it \<notin> T"
  using assms(4) by (auto simp: pool_invD(4) [OF assms(1)] pool_invD(4) [OF assms(2)] spends_def without_map [OF assms(3)] split: if_splits)

lemma remove_spenders_ok:
  assumes "remover H n rem" "pool_inv H p" "acyclic (children p)" "map_of (mapTx p) h = Some tx" "card (descendants p h) \<le> Suc n"
  shows "list_all (\<lambda>i. i < length (vout tx)) ixs \<Longrightarrow> pool_inv H q \<Longrightarrow> without S p q \<Longrightarrow> removing p h S \<Longrightarrow>
    \<exists>r T. remove_spenders rem h ixs q = Some r \<and> pool_inv H r \<and> without T p r \<and> removing p h T
    \<and> (\<forall>out. mapNextTx q out = None \<longrightarrow> mapNextTx r out = None)
    \<and> (\<forall>i \<in> set ixs. mapNextTx r \<lparr> op_hash = h, op_n = word_of_nat i \<rparr> = None)"
proof (induction ixs arbitrary: q S)
  case (Cons i ixs)
  let ?o = "\<lparr> op_hash = h, op_n = word_of_nat i :: u32 \<rparr>"
  show ?case
  proof (cases "mapNextTx q ?o")
    case None
    then show ?thesis using Cons by fastforce
  next
    case (Some it)
    have hS: "h \<notin> S" "children p `` S \<subseteq> S" "S \<subseteq> descendants p h" using Cons(5) by (auto simp: removing_def)
    obtain t where t: "map_of (mapTx q) (ptx it) = Some t" "ptx it \<notin> S" "(h, ptx it) \<in> children p"
      using next_child [OF assms(2) Cons(3,4) assms(4) hS(1) _ Some] Cons(2) by auto
    have acyc: "acyclic (children q)" using assms(3) children_without [OF Cons(4)] by (auto intro: acyclic_subset)
    have same: "S \<union> descendants q (ptx it) = S \<union> descendants p (ptx it)" by (rule descendants_without [OF Cons(4) hS(2) t(2)])
    have sub: "descendants q (ptx it) \<subseteq> descendants p (ptx it)"
      using children_without [OF Cons(4)] unfolding descendants_def by (intro Image_mono rtrancl_mono) auto
    have fin: "finite (descendants p (ptx it))" using t(3) by (intro finite_descendants) (auto simp: children_def)
    have "card (descendants q (ptx it)) \<le> n"
      using card_mono [OF fin sub] child_smaller(2) [OF t(3) assms(3)] assms(5) by simp
    then obtain q' where q': "rem t q = Some q'" "pool_inv H q'" "without (descendants q (ptx it)) q q'"
      using assms(1) Cons(3) acyc t(1) unfolding remover_def by blast
    have "removing p h (S \<union> descendants p (ptx it))"
      using hS child_smaller(1) [OF t(3) assms(3)] descendants_step [OF t(3)] by (auto simp: removing_def dest: descendants_closed)
    moreover have "without (S \<union> descendants p (ptx it)) p q'" using without_trans [OF Cons(4) q'(3)] same by simp
    ultimately obtain r T where r: "remove_spenders rem h ixs q' = Some r" "pool_inv H r" "without T p r" "removing p h T"
      "\<forall>out. mapNextTx q' out = None \<longrightarrow> mapNextTx r out = None"
      "\<forall>i \<in> set ixs. mapNextTx r \<lparr> op_hash = h, op_n = word_of_nat i \<rparr> = None"
      using Cons(1) [OF _ q'(2), of "S \<union> descendants p (ptx it)"] Cons(2) by auto
    note mono = next_without [OF Cons(3) q'(2,3)]
    have "mapNextTx q' ?o = None" using mono [of ?o] Some descendants_refl [of "ptx it" q] by (metis not_None_eq option.inject)
    moreover have "\<forall>out. mapNextTx q out = None \<longrightarrow> mapNextTx q' out = None" using mono by (metis not_None_eq option.distinct(1))
    ultimately show ?thesis using r Some t(1) q'(1) by (intro exI [of _ r] exI [of _ T]) auto
  qed
qed auto

lemma child_output:
  assumes "pool_inv H p" "map_of (mapTx p) h = Some tx" "(h, k) \<in> children p"
  obtains i where "i < length (vout tx)" "mapNextTx p \<lparr> op_hash = h, op_n = word_of_nat i \<rparr> \<noteq> None"
    "\<And>it. mapNextTx p \<lparr> op_hash = h, op_n = word_of_nat i \<rparr> = Some it \<Longrightarrow> ptx it = k"
proof -
  obtain t txin where t: "map_of (mapTx p) k = Some t" "txin \<in> set (vin t)" "op_hash (prevout txin) = h" "unat (op_n (prevout txin)) < length (vout tx)"
    using assms(2,3) by (auto simp: children_def)
  obtain j where j: "j < length (vin t)" "txin = vin t ! j" using t(2) by (auto simp: in_set_conv_nth)
  have u: "unat (word_of_nat j :: u32) = j" using j(1) pool_invD(3) [OF assms(1) t(1)] by (simp add: unat_of_nat take_bit_nat_eq_self)
  have "spends (map_of (mapTx p)) \<lparr> ptx = k, in_n = word_of_nat j \<rparr> (prevout txin)" using t(1) j u by (simp add: spends_def)
  then have "mapNextTx p (prevout txin) = Some \<lparr> ptx = k, in_n = word_of_nat j \<rparr>" by (simp add: pool_invD(4) [OF assms(1)])
  moreover have "prevout txin = \<lparr> op_hash = h, op_n = word_of_nat (unat (op_n (prevout txin))) \<rparr>" using t(3) by (cases "prevout txin") simp
  ultimately show thesis using that [of "unat (op_n (prevout txin))"] t(4) by auto
qed

lemma remover_fuel: "remover H n (\<lambda>t. remove_fuel n H t True)"
proof (induction n)
  case 0
  then show ?case unfolding remover_def by (metis card_gt_0_iff descendants_refl empty_iff finite_descendants not_le option.distinct(1))
next
  case (Suc n)
  show ?case unfolding remover_def
  proof (intro allI impI)
    fix p h tx
    assume a: "pool_inv H p" "acyclic (children p)" "map_of (mapTx p) h = Some tx" "card (descendants p h) \<le> Suc n"
    have hash: "GetHash H tx = h" using pool_invD(2) [OF a(1,3)] .
    have r0: "removing p h {}" by (simp add: removing_def)
    obtain r T where r: "remove_spenders (\<lambda>t. remove_fuel n H t True) h [0..<length (vout tx)] p = Some r" "pool_inv H r" "without T p r" "removing p h T"
      "\<forall>i < length (vout tx). mapNextTx r \<lparr> op_hash = h, op_n = word_of_nat i \<rparr> = None"
      using remove_spenders_ok [OF Suc a _ a(1) without_refl r0, of "[0..<length (vout tx)]"] by (auto simp: list_all_iff)
    have T: "h \<notin> T" "children p `` T \<subseteq> T" "T \<subseteq> descendants p h" using r(4) by (auto simp: removing_def)
    have M: "map_of (mapTx r) h = Some tx" using a(3) T(1) by (simp add: without_map [OF r(3)])
    have "k \<in> T" if "(h, k) \<in> children p" for k
    proof (rule ccontr)
      assume "k \<notin> T"
      then have "(h, k) \<in> children r" using that T(1) children_without [OF r(3)] by simp
      from child_output [OF r(2) M this] show False using r(5) by metis
    qed
    then have "\<And>k. (h, k) \<in> (children p)\<^sup>* \<Longrightarrow> k \<in> T \<union> {h}" using T(2) by (erule_tac rtrancl_induct) auto
    then have "T \<union> {h} = descendants p h" using T(3) descendants_refl by (auto simp: descendants_def)
    then show "\<exists>q. remove_fuel (Suc n) H tx True p = Some q \<and> pool_inv H q \<and> without (descendants p h) p q"
      using erase_tx_inv(1) [OF r(2) M] without_trans [OF r(3) erase_tx_inv(2) [OF r(2) M]] r(1) a(3) hash by (auto simp: Let_def)
  qed
qed

lemma descendants_absent: "map_of (mapTx p) h = None \<Longrightarrow> descendants p h = {h}"
  by (auto simp: descendants_def children_def elim: converse_rtranclE)

lemma without_absent: "map_of (mapTx p) h = None \<Longrightarrow> without {h} p p"
  unfolding without_def by (rule filter_True [symmetric]) (force simp: map_of_eq_None_iff)

lemma pool_remove_ok:
  assumes "pool_inv H p" "acyclic (children p)" "map_of (mapTx p) (GetHash H tx) \<in> {None, Some tx}"
  shows "\<exists>q. pool_remove H tx True p = Some q \<and> pool_inv H q \<and> without (descendants p (GetHash H tx)) p q"
proof (cases "map_of (mapTx p) (GetHash H tx)")
  case None
  then show ?thesis using assms(1) by (simp add: pool_remove_def descendants_absent without_absent)
next
  case (Some t)
  then have "map_of (mapTx p) (GetHash H tx) = Some tx" using assms(3) by auto
  moreover have "card (descendants p (GetHash H tx)) \<le> Suc (pool_size p)" using card_descendants [of p "GetHash H tx"] Some by simp
  ultimately show ?thesis using remover_fuel [of H "Suc (pool_size p)"] assms(1,2) unfolding remover_def pool_remove_def by blast
qed

lemma pool_remove_single:
  assumes "pool_inv H p" "map_of (mapTx p) (GetHash H tx) \<in> {None, Some tx}"
  shows "\<exists>q. pool_remove H tx False p = Some q \<and> pool_inv H q \<and> without {GetHash H tx} p q"
  using assms erase_tx_inv [OF assms(1), of "GetHash H tx" tx] without_absent [of p "GetHash H tx"]
  by (cases "map_of (mapTx p) (GetHash H tx)") (auto simp: pool_remove_def Let_def)

text \<open>The transactions of the pool that conflict with \<open>tx\<close>: they differ from it and spend an output that \<open>tx\<close> spends.\<close>

definition conflicts :: "CTransaction \<Rightarrow> COutPoint set \<Rightarrow> CTxMemPool \<Rightarrow> uint256 set" where
  "conflicts tx outs p = {k. \<exists>t. map_of (mapTx p) k = Some t \<and> \<not> CTransaction_eq t tx \<and> prevout ` set (vin t) \<inter> outs \<noteq> {}}"

definition with_descendants :: "CTxMemPool \<Rightarrow> uint256 set \<Rightarrow> uint256 set" where
  "with_descendants p S = (\<Union>k \<in> S. descendants p k)"

lemma spender_next:
  assumes "pool_inv H p" "map_of (mapTx p) k = Some t" "out \<in> prevout ` set (vin t)"
  shows "\<exists>it. mapNextTx p out = Some it \<and> ptx it = k"
proof -
  obtain j where j: "j < length (vin t)" "out = prevout (vin t ! j)" using assms(3) by (auto simp: in_set_conv_nth)
  have "unat (word_of_nat j :: u32) = j" using j(1) pool_invD(3) [OF assms(1,2)] by (simp add: unat_of_nat take_bit_nat_eq_self)
  then have "spends (map_of (mapTx p)) \<lparr> ptx = k, in_n = word_of_nat j \<rparr> out" using assms(2) j by (simp add: spends_def)
  then have "mapNextTx p out = Some \<lparr> ptx = k, in_n = word_of_nat j \<rparr>" by (simp add: pool_invD(4) [OF assms(1)])
  then show ?thesis by simp
qed

lemma next_spender:
  assumes "pool_inv H p" "mapNextTx p out = Some it"
  shows "\<exists>t. map_of (mapTx p) (ptx it) = Some t \<and> out \<in> prevout ` set (vin t)"
  using assms(2) by (auto simp: pool_invD(4) [OF assms(1)] spends_def)

lemma conflicts_one: "k \<in> conflicts tx {out} p \<longleftrightarrow> (\<exists>t. map_of (mapTx p) k = Some t \<and> \<not> CTransaction_eq t tx \<and> out \<in> prevout ` set (vin t))"
  unfolding conflicts_def by blast

lemma conflicts_single:
  assumes "pool_inv H p"
  shows "conflicts tx {out} p = (case mapNextTx p out of None \<Rightarrow> {}
    | Some it \<Rightarrow> if CTransaction_eq (the (map_of (mapTx p) (ptx it))) tx then {} else {ptx it})"
proof (cases "mapNextTx p out")
  case None
  then have "out \<notin> prevout ` set (vin t)" if "map_of (mapTx p) k = Some t" for k t
    using spender_next [OF assms that, of out] by auto
  then show ?thesis using None by (simp add: conflicts_def)
next
  case (Some it)
  then obtain t where t: "map_of (mapTx p) (ptx it) = Some t" "out \<in> prevout ` set (vin t)" using next_spender [OF assms] by blast
  have "k = ptx it" if "map_of (mapTx p) k = Some t'" "out \<in> prevout ` set (vin t')" for k t' using spender_next [OF assms that] Some by auto
  then have "k \<in> conflicts tx {out} p \<longleftrightarrow> k = ptx it \<and> \<not> CTransaction_eq t tx" for k
    using t unfolding conflicts_one by (metis option.inject)
  then show ?thesis using Some t(1) by auto
qed

lemma conflicts_Un: "conflicts tx (A \<union> B) p = conflicts tx A p \<union> conflicts tx B p"
  unfolding conflicts_def by blast

lemma conflicts_without: "without S p q \<Longrightarrow> conflicts tx A q = conflicts tx A p - S"
  by (auto simp: conflicts_def without_map split: if_splits)

lemma with_descendants_without:
  assumes "without S p q" "children p `` S \<subseteq> S"
  shows "S \<union> with_descendants q (A - S) = S \<union> with_descendants p A"
proof -
  have "descendants p k \<subseteq> S" if "k \<in> S" for k
    using assms(2) that unfolding descendants_def by (auto elim!: rtrancl_induct)
  moreover have "S \<union> descendants q k = S \<union> descendants p k" if "k \<notin> S" for k using descendants_without [OF assms that] .
  ultimately show ?thesis unfolding with_descendants_def by blast
qed

lemma closed_with_descendants: "children p `` with_descendants p A \<subseteq> with_descendants p A"
  by (auto simp: with_descendants_def dest: descendants_closed)

lemma remove_conflicts_ok:
  assumes "pool_inv H p" "acyclic (children p)"
  shows "\<exists>q. remove_conflicts H tx ins p = Some q \<and> pool_inv H q \<and> without (with_descendants p (conflicts tx (prevout ` set ins) p)) p q"
  using assms
proof (induction ins arbitrary: p)
  case Nil
  then show ?case by (simp add: conflicts_def with_descendants_def without_refl)
next
  case (Cons txin r)
  let ?S = "with_descendants p (conflicts tx {prevout txin} p)"
  have "\<exists>q. remove_conflicts H tx (txin # r) p = remove_conflicts H tx r q \<and> pool_inv H q \<and> without ?S p q"
  proof (cases "mapNextTx p (prevout txin)")
    case None
    then show ?thesis using Cons(2) by (auto simp: conflicts_single with_descendants_def without_refl)
  next
    case (Some it)
    then obtain t where t: "map_of (mapTx p) (ptx it) = Some t" using next_spender [OF Cons(2)] by blast
    then have "GetHash H t = ptx it" using pool_invD(2) [OF Cons(2)] by simp
    then show ?thesis using pool_remove_ok [OF Cons(2,3), of t] t Some Cons(2)
      by (auto simp: conflicts_single with_descendants_def without_refl split: if_splits)
  qed
  then obtain q where q: "remove_conflicts H tx (txin # r) p = remove_conflicts H tx r q" "pool_inv H q" "without ?S p q" by blast
  have "acyclic (children q)" using Cons(3) children_without [OF q(3)] by (auto intro: acyclic_subset)
  from Cons(1) [OF q(2) this] obtain q' where q': "remove_conflicts H tx r q = Some q'" "pool_inv H q'"
    "without (with_descendants q (conflicts tx (prevout ` set r) q)) q q'" by blast
  have "?S \<union> with_descendants q (conflicts tx (prevout ` set r) q) = ?S \<union> with_descendants p (conflicts tx (prevout ` set r) p)"
    unfolding conflicts_without [OF q(3)] by (rule with_descendants_without [OF q(3) closed_with_descendants])
  also have "\<dots> = with_descendants p (conflicts tx (prevout ` set (txin # r)) p)"
    using conflicts_Un [of tx "{prevout txin}" "prevout ` set r" p] by (simp add: with_descendants_def)
  finally show ?case using without_trans [OF q(3) q'(3)] q q' by auto
qed

section \<open>Accepted transactions\<close>

lemma sum_list_ge_length: "(\<And>x. 1 \<le> f x) \<Longrightarrow> length xs \<le> sum_list (map f xs)" for f :: "'a \<Rightarrow> nat"
proof (induction xs)
  case (Cons a xs)
  from Cons(1) [OF Cons(2)] Cons(2) [of a] show ?case by simp
qed simp

lemma CheckTransaction_sizes:
  assumes "CheckTransaction tx = Inr ()"
  shows "length (vin tx) \<le> MAX_BLOCK_SIZE" "script_bytes (vout tx) \<le> int MAX_BLOCK_SIZE" "length (strTxComment tx) \<le> MAX_BLOCK_SIZE"
    "distinct (map prevout (vin tx))"
proof -
  have c: "size_CTransaction tx \<le> MAX_BLOCK_SIZE" "\<not> has_duplicate (vin tx) []" "sint (tx_nVersion tx) < 2 \<Longrightarrow> strTxComment tx = []"
    using assms by (auto simp: CheckTransaction_def bindr_Inr split: if_splits)
  have "length (vin tx) \<le> size_CTransaction tx"
    using sum_list_ge_length [of size_CTxIn "vin tx"] by (simp add: size_CTransaction_def size_vec_def size_CTxIn_def trans_le_add1 trans_le_add2)
  moreover have "script_bytes outs \<le> int (sum_list (map size_CTxOut outs))" for outs
    by (induction outs) (simp_all add: script_bytes_def size_CTxOut_def size_string_def)
  then have "script_bytes (vout tx) \<le> int (size_CTransaction tx)"
    by (rule order_trans) (simp add: size_CTransaction_def size_vec_def)
  moreover have "length (strTxComment tx) \<le> size_CTransaction tx" using c(3) by (auto simp: size_CTransaction_def size_string_def)
  ultimately show "length (vin tx) \<le> MAX_BLOCK_SIZE" "script_bytes (vout tx) \<le> int MAX_BLOCK_SIZE" "length (strTxComment tx) \<le> MAX_BLOCK_SIZE"
    using c(1) by linarith+
  show "distinct (map prevout (vin tx))" using c(2) by (simp add: has_duplicate_iff)
qed

lemma accept_Inr:
  assumes "accept A rd containsTx pindexBest fCheckInputs tx p lim = (Inr p', lim')"
  shows "CheckTransaction tx = Inr ()" "\<not> IsCoinBase tx" "\<not> IsCoinStake tx" "map_of (mapTx p) (GetHash (pe_hash A) tx) = None"
    "\<forall>txin \<in> set (vin tx). mapNextTx p (prevout txin) = None" "p' = addUnchecked (GetHash (pe_hash A) tx) tx p"
    "fCheckInputs \<Longrightarrow> accept_inputs A rd pindexBest tx p lim = (Inr (), lim')"
  using assms by (auto simp: accept_def Let_def pool_exists_def list_ex_iff split: sum.splits if_splits prod.splits)

lemma accept_fee_lower:
  assumes "accept_fee A tx mapInputs = Inr (nFees, nSize)" "CheckTransaction tx = Inr ()"
  shows "MIN_RELAY_TX_FEE \<le> sint nFees"
proof -
  have "sint (GetMinFee (ce_mixed (pe_connect A)) tx 1000 GMF_RELAY nSize) \<le> sint nFees"
    using assms(1) by (auto simp: accept_fee_def bindr_Inr Let_def split: if_splits option.splits)
  then show ?thesis using GetMinFee_lower [OF CheckTransaction_sizes(3,2) [OF assms(2)]] order_trans by blast
qed

text \<open>The mempool over time: \<open>T\<close> is the set of the transactions that occur.\<close>

inductive pool_reach :: "'d pool_env set \<Rightarrow> CTransaction set \<Rightarrow> CTxMemPool \<Rightarrow> bool" for Envs T where
  reach_empty: "pool_reach Envs T CTxMemPool_empty"
| reach_accept: "pool_reach Envs T p \<Longrightarrow> A \<in> Envs \<Longrightarrow> tx \<in> T \<Longrightarrow>
    accept A rd containsTx pindexBest fCheckInputs tx p lim = (Inr p', lim') \<Longrightarrow> pool_reach Envs T p'"
| reach_remove: "pool_reach Envs T p \<Longrightarrow> A \<in> Envs \<Longrightarrow> tx \<in> T \<Longrightarrow> pool_remove (pe_hash A) tx fRecursive p = Some p' \<Longrightarrow> pool_reach Envs T p'"
| reach_conflicts: "pool_reach Envs T p \<Longrightarrow> A \<in> Envs \<Longrightarrow> tx \<in> T \<Longrightarrow> removeConflicts (pe_hash A) tx p = Some p' \<Longrightarrow> pool_reach Envs T p'"
| reach_clear: "pool_reach Envs T p \<Longrightarrow> pool_reach Envs T (pool_clear p)"

text \<open>No two of the transactions have the same hash, and no chain of them spends itself.\<close>

definition sound_hashes :: "hash_lib \<Rightarrow> CTransaction set \<Rightarrow> bool" where
  "sound_hashes H T \<longleftrightarrow> inj_on (GetHash H) T
     \<and> acyclic {(GetHash H a, GetHash H b) | a b. a \<in> T \<and> b \<in> T \<and> GetHash H a \<in> (op_hash \<circ> prevout) ` set (vin b)}"

lemma sound_acyclic:
  assumes "sound_hashes H T" "pool_inv H p" "ran (map_of (mapTx p)) \<subseteq> T"
  shows "acyclic (children p)"
proof -
  have "children p \<subseteq> {(GetHash H a, GetHash H b) | a b. a \<in> T \<and> b \<in> T \<and> GetHash H a \<in> (op_hash \<circ> prevout) ` set (vin b)}"
  proof
    fix e
    assume "e \<in> children p"
    then obtain h k a b txin where e: "e = (h, k)" "map_of (mapTx p) h = Some a" "map_of (mapTx p) k = Some b" "txin \<in> set (vin b)"
      "op_hash (prevout txin) = h" by (auto simp: children_def)
    have "GetHash H a = h" "GetHash H b = k" "a \<in> T" "b \<in> T" using e(2,3) pool_invD(2) [OF assms(2)] assms(3) by (auto intro: ranI)
    then show "e \<in> {(GetHash H a, GetHash H b) | a b. a \<in> T \<and> b \<in> T \<and> GetHash H a \<in> (op_hash \<circ> prevout) ` set (vin b)}"
      using e by force
  qed
  then show ?thesis using assms(1) by (auto simp: sound_hashes_def intro: acyclic_subset)
qed

lemma sound_lookup:
  assumes "sound_hashes H T" "pool_inv H p" "ran (map_of (mapTx p)) \<subseteq> T" "tx \<in> T"
  shows "map_of (mapTx p) (GetHash H tx) \<in> {None, Some tx}"
proof (cases "map_of (mapTx p) (GetHash H tx)")
  case (Some t)
  then have "GetHash H t = GetHash H tx" "t \<in> T" using pool_invD(2) [OF assms(2)] assms(3) by (auto intro: ranI)
  then show ?thesis using assms(1,4) Some by (auto simp: sound_hashes_def dest: inj_onD)
qed simp

lemma without_ran: "without S p q \<Longrightarrow> ran (map_of (mapTx q)) \<subseteq> ran (map_of (mapTx p))"
  by (auto simp: ran_def without_map)

definition pool_good :: "hash_lib \<Rightarrow> CTransaction set \<Rightarrow> CTxMemPool \<Rightarrow> bool" where
  "pool_good H T p \<longleftrightarrow> pool_inv H p \<and> ran (map_of (mapTx p)) \<subseteq> T"

lemma accept_good:
  assumes "accept A rd containsTx pindexBest fCheckInputs tx p lim = (Inr p', lim')" "pool_good (pe_hash A) T p" "tx \<in> T"
  shows "pool_good (pe_hash A) T p'"
proof -
  note a = accept_Inr [OF assms(1)] and s = CheckTransaction_sizes [OF accept_Inr(1) [OF assms(1)]]
  have "pool_inv (pe_hash A) p'" unfolding a(6) using addUnchecked_inv [OF _ a(4) s(4,1) a(5)] assms(2) by (simp add: pool_good_def)
  moreover have "ran (map_of (mapTx p')) \<subseteq> insert tx (ran (map_of (mapTx p)))" unfolding a(6) by (auto simp: addUnchecked_def ran_def)
  ultimately show ?thesis using assms(2,3) by (auto simp: pool_good_def)
qed

lemma remove_good:
  assumes "pool_good H T p" "sound_hashes H T" "tx \<in> T"
  shows "\<exists>q. pool_remove H tx fRecursive p = Some q \<and> pool_good H T q"
proof -
  have g: "pool_inv H p" "ran (map_of (mapTx p)) \<subseteq> T" using assms(1) by (simp_all add: pool_good_def)
  have h: "map_of (mapTx p) (GetHash H tx) \<in> {None, Some tx}" by (rule sound_lookup [OF assms(2) g assms(3)])
  obtain q S where q: "pool_remove H tx fRecursive p = Some q" "pool_inv H q" "without S p q"
    using pool_remove_ok [OF g(1) sound_acyclic [OF assms(2) g] h] pool_remove_single [OF g(1) h] by (cases fRecursive) auto
  then show ?thesis using g(2) without_ran [OF q(3)] by (auto simp: pool_good_def)
qed

lemma conflicts_good:
  assumes "pool_good H T p" "sound_hashes H T"
  shows "\<exists>q. removeConflicts H tx p = Some q \<and> pool_good H T q"
proof -
  have g: "pool_inv H p" "ran (map_of (mapTx p)) \<subseteq> T" using assms(1) by (simp_all add: pool_good_def)
  obtain q where q: "removeConflicts H tx p = Some q" "pool_inv H q" "without (with_descendants p (conflicts tx (prevout ` set (vin tx)) p)) p q"
    using remove_conflicts_ok [OF g(1) sound_acyclic [OF assms(2) g]] unfolding removeConflicts_def by blast
  then show ?thesis using g(2) without_ran [OF q(3)] by (auto simp: pool_good_def)
qed

lemma pool_reach_good:
  assumes "pool_reach Envs T p" "\<forall>A \<in> Envs. pe_hash A = H" "sound_hashes H T"
  shows "pool_good H T p"
  using assms(1)
proof induction
  case reach_empty
  then show ?case by (simp add: pool_good_def pool_inv_empty) (simp add: CTxMemPool_empty_def)
next
  case (reach_accept p A tx rd containsTx pindexBest fCheckInputs lim p' lim')
  then show ?case using accept_good [OF reach_accept(4)] assms(2) by simp
next
  case (reach_remove p A tx fRecursive p')
  then show ?case using remove_good [OF _ assms(3)] assms(2) by (metis option.inject)
next
  case (reach_conflicts p A tx p')
  then show ?case using conflicts_good [OF _ assms(3)] assms(2) by (metis option.inject)
next
  case (reach_clear p)
  then show ?case by (simp add: pool_good_def pool_inv_clear) (simp add: pool_clear_def)
qed

lemmas pool_reach_inv = pool_reach_good [unfolded pool_good_def]

section \<open>The index of the orphans\<close>

definition waiting :: "orphans \<Rightarrow> uint256 \<Rightarrow> uint256 set" where
  "waiting os prev = {h. \<exists>tx. map_of (mapOrphanTransactions os) h = Some tx \<and> prev \<in> (op_hash \<circ> prevout) ` set (vin tx)}"

definition orphans_inv :: "hash_lib \<Rightarrow> orphans \<Rightarrow> bool" where
  "orphans_inv H os \<longleftrightarrow> sorted_wrt (<) (map fst (mapOrphanTransactions os))
     \<and> (\<forall>h tx. map_of (mapOrphanTransactions os) h = Some tx \<longrightarrow> GetHash H tx = h \<and> size_CTransaction tx \<le> 5000)
     \<and> (\<forall>prev. mapOrphanTransactionsByPrev os prev = (if waiting os prev = {} then None else Some (waiting os prev)))"

definition get_set :: "('k \<rightharpoonup> 'a set) \<Rightarrow> 'k \<Rightarrow> 'a set" where
  "get_set m k = (case m k of None \<Rightarrow> {} | Some S \<Rightarrow> S)"

lemma fold_insert:
  "fold (\<lambda>txin. by_prev_insert hash (op_hash (prevout txin))) ins m prev =
     (if prev \<in> (op_hash \<circ> prevout) ` set ins then Some (insert hash (get_set m prev)) else m prev)"
  by (induction ins arbitrary: m) (auto simp: by_prev_insert_def get_set_def)

lemma fold_erase:
  "fold (\<lambda>txin. by_prev_erase hash (op_hash (prevout txin))) ins m prev =
     (if prev \<in> (op_hash \<circ> prevout) ` set ins
      then (if get_set m prev - {hash} = {} then None else Some (get_set m prev - {hash})) else m prev)"
  by (induction ins arbitrary: m) (auto simp: by_prev_erase_def get_set_def Let_def split: option.splits)

lemma orphans_inv_get: "orphans_inv H os \<Longrightarrow> get_set (mapOrphanTransactionsByPrev os) prev = waiting os prev"
  by (simp add: orphans_inv_def get_set_def)

lemma orphans_inv_empty: "orphans_inv H orphans_empty"
  by (simp add: orphans_inv_def orphans_empty_def waiting_def)

lemma AddOrphanTx_inv:
  assumes "orphans_inv H os"
  shows "orphans_inv H (snd (AddOrphanTx H tx os))"
proof (cases "fst (AddOrphanTx H tx os)")
  case True
  let ?h = "GetHash H tx" and ?os = "snd (AddOrphanTx H tx os)"
  have new: "map_of (mapOrphanTransactions os) ?h = None" and sz: "size_CTransaction tx \<le> 5000"
    using True by (auto simp: AddOrphanTx_def Let_def split: if_splits)
  then have os: "mapOrphanTransactions ?os = map_put ?h tx (mapOrphanTransactions os)"
    "mapOrphanTransactionsByPrev ?os = fold (\<lambda>txin. by_prev_insert ?h (op_hash (prevout txin))) (vin tx) (mapOrphanTransactionsByPrev os)"
    by (simp_all add: AddOrphanTx_def Let_def)
  have "waiting ?os prev = (if prev \<in> (op_hash \<circ> prevout) ` set (vin tx) then insert ?h (waiting os prev) else waiting os prev)" for prev
    using new by (auto simp: waiting_def os)
  moreover have "mapOrphanTransactionsByPrev os prev = (if waiting os prev = {} then None else Some (waiting os prev))" for prev
    using assms by (simp add: orphans_inv_def)
  ultimately have "mapOrphanTransactionsByPrev ?os prev = (if waiting ?os prev = {} then None else Some (waiting ?os prev))" for prev
    by (simp add: os(2) fold_insert orphans_inv_get [OF assms])
  then show ?thesis using assms sz by (auto simp: orphans_inv_def os(1) sorted_put split: if_splits)
qed (use assms in \<open>auto simp: AddOrphanTx_def Let_def split: if_splits\<close>)

lemma EraseOrphanTx_inv:
  assumes "orphans_inv H os"
  shows "orphans_inv H (EraseOrphanTx h os)"
proof (cases "map_of (mapOrphanTransactions os) h")
  case (Some tx)
  let ?os = "EraseOrphanTx h os"
  have os: "mapOrphanTransactions ?os = map_erase h (mapOrphanTransactions os)"
    "mapOrphanTransactionsByPrev ?os = fold (\<lambda>txin. by_prev_erase h (op_hash (prevout txin))) (vin tx) (mapOrphanTransactionsByPrev os)"
    using Some by (simp_all add: EraseOrphanTx_def)
  have "waiting ?os prev = waiting os prev - {h}" for prev by (auto simp: waiting_def os)
  moreover have "prev \<notin> (op_hash \<circ> prevout) ` set (vin tx) \<Longrightarrow> h \<notin> waiting os prev" for prev using Some by (simp add: waiting_def)
  moreover have "mapOrphanTransactionsByPrev os prev = (if waiting os prev = {} then None else Some (waiting os prev))" for prev
    using assms by (simp add: orphans_inv_def)
  ultimately have "mapOrphanTransactionsByPrev ?os prev = (if waiting ?os prev = {} then None else Some (waiting ?os prev))" for prev
    by (auto simp: os(2) fold_erase orphans_inv_get [OF assms])
  then show ?thesis using assms by (auto simp: orphans_inv_def os(1) sorted_erase split: if_splits)
qed (simp add: EraseOrphanTx_def assms)

lemma lower_bound_mem: "lower_bound k m = Some it \<Longrightarrow> it \<in> set m"
  by (induction m) (auto split: if_splits)

lemma length_erase: "distinct (map fst m) \<Longrightarrow> k \<in> fst ` set m \<Longrightarrow> Suc (length (map_erase k m)) = length m"
proof (induction m)
  case (Cons a m)
  have "filter (\<lambda>(k', _). k' \<noteq> k) m = m" if "k \<notin> fst ` set m" using that by (intro filter_True) force
  then show ?case using Cons by (auto simp: map_erase_def)
qed simp

lemma evict_length:
  assumes "orphans_inv H os" "mapOrphanTransactions os \<noteq> []"
  shows "Suc (length (mapOrphanTransactions (EraseOrphanTx (evicted r os) os))) = length (mapOrphanTransactions os)"
proof -
  have m: "evicted r os \<in> fst ` set (mapOrphanTransactions os)"
    using assms(2) lower_bound_mem [of r "mapOrphanTransactions os"] by (force simp: evicted_def split: option.splits)
  then obtain tx where "map_of (mapOrphanTransactions os) (evicted r os) = Some tx" by (metis map_of_eq_None_iff option.exhaust)
  then show ?thesis using length_erase [OF distinct_put m] assms(1) by (simp add: EraseOrphanTx_def orphans_inv_def)
qed

lemma LimitOrphanTxSize_ok:
  "orphans_inv H os \<Longrightarrow> length (mapOrphanTransactions os) \<le> n + length rands \<Longrightarrow>
   \<exists>os'. LimitOrphanTxSize rands n e os = Some (e + word_of_nat (length (mapOrphanTransactions os) - n), os')
     \<and> orphans_inv H os' \<and> length (mapOrphanTransactions os') = min n (length (mapOrphanTransactions os))"
proof (induction rands arbitrary: e os)
  case Nil
  then show ?case by (simp add: LimitOrphanTxSize.simps)
next
  case (Cons r rands)
  show ?case
  proof (cases "length (mapOrphanTransactions os) \<le> n")
    case False
    then have l: "Suc (length (mapOrphanTransactions (EraseOrphanTx (evicted r os) os))) = length (mapOrphanTransactions os)"
      using evict_length [OF Cons(2)] by fastforce
    let ?os = "EraseOrphanTx (evicted r os) os"
    obtain os' where os': "LimitOrphanTxSize rands n (e + 1) ?os = Some (e + 1 + word_of_nat (length (mapOrphanTransactions ?os) - n), os')"
      "orphans_inv H os'" "length (mapOrphanTransactions os') = min n (length (mapOrphanTransactions ?os))"
      using Cons(1) [OF EraseOrphanTx_inv [OF Cons(2), of "evicted r os"], of "e + 1"] Cons(3) l by auto
    have "length (mapOrphanTransactions os) - n = Suc (length (mapOrphanTransactions ?os) - n)" using l False by simp
    then have "e + 1 + word_of_nat (length (mapOrphanTransactions ?os) - n) = e + word_of_nat (length (mapOrphanTransactions os) - n)" by simp
    then show ?thesis using os' False l by (auto simp: LimitOrphanTxSize.simps [of "r # rands"])
  qed (use Cons(2) in \<open>simp add: LimitOrphanTxSize.simps\<close>)
qed

section \<open>Main results\<close>

text \<open>
  C12: in every state that the memory pool reaches, no output is spent twice: two inputs of pool transactions with the same
  outpoint are the same input, \<open>mapNextTx\<close> finds exactly these inputs, and every transaction is stored under its hash.  The
  transactions involved have different hashes and no chain of them spends itself.
\<close>

theorem mempool_no_conflicts:
  assumes "pool_reach Envs T p" "\<forall>A \<in> Envs. s_hash (ce_lib (pe_connect A)) = H" "sound_hashes H T"
  shows "(\<forall>h tx. map_of (mapTx p) h = Some tx \<longrightarrow> GetHash H tx = h)
    \<and> (\<forall>out it. mapNextTx p out = Some it \<longleftrightarrow> spends (map_of (mapTx p)) it out)
    \<and> (\<forall>out it it'. spends (map_of (mapTx p)) it out \<and> spends (map_of (mapTx p)) it' out \<longrightarrow> it = it')"
proof -
  have inv: "pool_inv H p" using pool_reach_inv [OF assms] by blast
  have "mapNextTx p out = Some it \<longleftrightarrow> spends (map_of (mapTx p)) it out" for out it by (rule pool_invD(4) [OF inv])
  moreover from this have "it = it'" if "spends (map_of (mapTx p)) it out" "spends (map_of (mapTx p)) it' out" for out it it'
    using that by (metis option.inject)
  ultimately show ?thesis using pool_invD(2) [OF inv] by blast
qed

text \<open>
  C13: \<open>remove\<close> always returns, without following a dangling pointer: it takes out the transaction alone, or with
  \<open>fRecursive\<close> exactly the transaction and its descendants in the pool, and it keeps the pool consistent.
\<close>

theorem mempool_remove_terminates:
  assumes "pool_inv H p" "acyclic (children p)" "map_of (mapTx p) (GetHash H tx) \<in> {None, Some tx}"
  shows "\<exists>q. pool_remove H tx fRecursive p = Some q \<and> pool_inv H q
    \<and> mapTx q = filter (\<lambda>(h, _). h \<notin> (if fRecursive then descendants p (GetHash H tx) else {GetHash H tx})) (mapTx p)"
  using pool_remove_ok [OF assms] pool_remove_single [OF assms(1,3)] by (cases fRecursive) (simp_all add: without_def)

text \<open>
  C14: \<open>removeConflicts\<close> takes out exactly the transactions that spend an output the given transaction spends, together with
  their descendants, except those that \<open>operator==\<close> calls equal to it; what remains does not conflict with it.
\<close>

theorem mempool_removeConflicts:
  assumes "pool_inv H p" "acyclic (children p)"
  shows "\<exists>q. removeConflicts H tx p = Some q \<and> pool_inv H q
    \<and> mapTx q = filter (\<lambda>(h, _). h \<notin> with_descendants p (conflicts tx (prevout ` set (vin tx)) p)) (mapTx p)
    \<and> (\<forall>txin \<in> set (vin tx). \<forall>it. mapNextTx q (prevout txin) = Some it \<longrightarrow> CTransaction_eq (the (map_of (mapTx q) (ptx it))) tx)"
proof -
  let ?S = "conflicts tx (prevout ` set (vin tx)) p"
  obtain q where q: "remove_conflicts H tx (vin tx) p = Some q" "pool_inv H q" "without (with_descendants p ?S) p q"
    using remove_conflicts_ok [OF assms] by blast
  have "?S \<subseteq> with_descendants p ?S" using descendants_refl by (auto simp: with_descendants_def)
  then have none: "conflicts tx (prevout ` set (vin tx)) q = {}" by (auto simp: conflicts_without [OF q(3)])
  have "CTransaction_eq (the (map_of (mapTx q) (ptx it))) tx" if "txin \<in> set (vin tx)" "mapNextTx q (prevout txin) = Some it" for txin it
  proof -
    from next_spender [OF q(2) that(2)] obtain t where t: "map_of (mapTx q) (ptx it) = Some t" "prevout txin \<in> prevout ` set (vin t)" by blast
    then show ?thesis using none that(1) unfolding conflicts_def by fastforce
  qed
  then show ?thesis using q by (auto simp: removeConflicts_def without_def)
qed

text \<open>
  C39: the rate limiter for free transactions is never consulted: a transaction that gets past the fee check pays at least
  \<open>MIN_RELAY_TX_FEE\<close>, so the outcome does not depend on the limiter, whose state never changes.
\<close>

theorem accept_never_free:
  "snd (accept A rd containsTx pindexBest fCheckInputs tx p lim) = lim
   \<and> fst (accept A rd containsTx pindexBest fCheckInputs tx p lim) = fst (accept A rd containsTx pindexBest fCheckInputs tx p lim')"
proof -
  have "snd (accept_inputs A rd pindexBest tx p l) = l
    \<and> fst (accept_inputs A rd pindexBest tx p l) = fst (accept_inputs A rd pindexBest tx p l')" if "CheckTransaction tx = Inr ()" for l l'
    using accept_fee_lower [OF _ that, of A]
    by (auto simp: accept_inputs_def not_less split: sum.splits prod.splits) fastforce+
  then have "\<exists>r. \<forall>l. accept_inputs A rd pindexBest tx p l = (r, l)" if "CheckTransaction tx = Inr ()" using that by (metis prod.collapse)
  then show ?thesis by (cases "CheckTransaction tx"; cases lim; cases lim') (auto simp: accept_def Let_def split: sum.splits)
qed

text \<open>
  C40: the orphan transactions stay indexed by the transactions they wait for when orphans are added and erased, and
  \<open>LimitOrphanTxSize\<close> returns after evicting exactly the excess, whatever random numbers it draws.
\<close>

theorem orphans_indexed:
  assumes "orphans_inv H os" "length (mapOrphanTransactions os) \<le> nMaxOrphans + length rands"
  shows "orphans_inv H (snd (AddOrphanTx H tx os)) \<and> orphans_inv H (EraseOrphanTx h os)
    \<and> (\<exists>os'. LimitOrphanTxSize rands nMaxOrphans 0 os = Some (word_of_nat (length (mapOrphanTransactions os) - nMaxOrphans), os')
        \<and> orphans_inv H os' \<and> length (mapOrphanTransactions os') = min nMaxOrphans (length (mapOrphanTransactions os)))"
  using AddOrphanTx_inv [OF assms(1)] EraseOrphanTx_inv [OF assms(1)] LimitOrphanTxSize_ok [OF assms, of 0] by simp

section \<open>Instances\<close>

definition sample_child :: CTransaction where
  "sample_child = sample_tx\<lparr> vin := [\<lparr> prevout = \<lparr> op_hash = 74, op_n = 0 \<rparr>, scriptSig = [], nSequence = 0 \<rparr>], strTxComment := [104, 105, 106] \<rparr>"

definition sample_pool_env :: "unit pool_env" where
  "sample_pool_env = \<lparr> pe_connect = sample_env\<lparr> ce_lib := check_lib \<rparr>, pe_disk = (\<lambda>_. None), pe_testnet = True, pe_canonical = True,
     pe_fp = \<lparr> fp_decay = (\<lambda>_ _. ()), fp_above = (\<lambda>_ _. False), fp_add = (\<lambda>_ _. ()) \<rparr>, pe_limit = 15, pe_now = 0, pe_mine = (\<lambda>_. False) \<rparr>"

definition sample_pool :: CTxMemPool where
  "sample_pool = addUnchecked 73 sample_child (addUnchecked 74 sample_tx CTxMemPool_empty)"

lemma sample_child_sel: "vin sample_child = [\<lparr> prevout = \<lparr> op_hash = 74, op_n = 0 \<rparr>, scriptSig = [], nSequence = 0 \<rparr>]" "vout sample_child = vout sample_tx"
  "strTxComment sample_child = [104, 105, 106]" "tx_nVersion sample_child = 2"
  "\<not> IsCoinBase sample_child" "\<not> IsCoinStake sample_child"
  by (simp_all add: sample_child_def sample_tx_sel2 sample_tx_sel IsCoinBase_def IsCoinStake_def COutPoint_IsNull_def)

lemma sample_child_size: "size_CTransaction sample_child = 73"
  by (simp add: sample_child_sel sample_tx_sel sample_size)

lemma sample_child_ok: "CheckTransaction sample_child = Inr ()"
  by (simp add: CheckTransaction_def sample_child_size sample_child_sel sample_tx_sel MoneyRange_def CTxOut_IsEmpty_def COutPoint_IsNull_def)

lemma sample_pool_hashes: "GetHash (s_hash check_lib) sample_tx = 74" "GetHash (s_hash check_lib) sample_child = 73"
  by (simp_all add: sample_hashes sample_sizes sample_child_size)

lemma sample_pool_lib: "s_hash (ce_lib (pe_connect sample_pool_env)) = s_hash check_lib"
  by (simp add: sample_pool_env_def sample_env_def)

lemma sample_pool_sel: "mapTx sample_pool = [(73, sample_child), (74, sample_tx)]"
  "mapNextTx sample_pool = [\<lparr> op_hash = 7, op_n = 1 \<rparr> \<mapsto> \<lparr> ptx = 74, in_n = 0 \<rparr>, \<lparr> op_hash = 74, op_n = 0 \<rparr> \<mapsto> \<lparr> ptx = 73, in_n = 0 \<rparr>]"
  by (simp_all add: sample_pool_def addUnchecked_def CTxMemPool_empty_def sample_child_sel sample_tx_sel)

lemma sample_pool_sound: "sound_hashes (s_hash check_lib) {sample_tx, sample_child}"
proof -
  have rel: "{(GetHash (s_hash check_lib) a, GetHash (s_hash check_lib) b) | a b. a \<in> {sample_tx, sample_child} \<and> b \<in> {sample_tx, sample_child}
      \<and> GetHash (s_hash check_lib) a \<in> (op_hash \<circ> prevout) ` set (vin b)} \<subseteq> {(74, 73)}"
    by (auto simp: sample_pool_hashes sample_child_sel sample_tx_sel)
  have acy: "acyclic {(74 :: uint256, 73 :: uint256)}" by (simp, simp add: acyclic_def)
  have inj: "inj_on (GetHash (s_hash check_lib)) {sample_tx, sample_child}" by (auto simp: sample_pool_hashes)
  show ?thesis unfolding sound_hashes_def by (rule conjI [OF inj acyclic_subset [OF acy rel]])
qed

lemma sample_pool_reach: "pool_reach {sample_pool_env} {sample_tx, sample_child} sample_pool"
proof -
  let ?p = "addUnchecked 74 sample_tx CTxMemPool_empty"
  have "accept sample_pool_env (\<lambda>_. None) (\<lambda>_. False) [] False sample_tx CTxMemPool_empty ((), 0) = (Inr ?p, (), 0)"
    by (simp add: accept_def sample_txs_ok sample_plain sample_pool_lib sample_pool_hashes Let_def CTxMemPool_empty_def pool_exists_def sample_tx_sel)
      (simp add: sample_pool_env_def)
  then have p: "pool_reach {sample_pool_env} {sample_tx, sample_child} ?p" by (rule reach_accept [OF reach_empty, rotated 2]) simp_all
  have "accept sample_pool_env (\<lambda>_. None) (\<lambda>_. False) [] False sample_child ?p ((), 0) = (Inr sample_pool, (), 0)"
    by (simp add: accept_def sample_child_ok sample_child_sel sample_pool_lib sample_pool_hashes Let_def CTxMemPool_empty_def pool_exists_def sample_tx_sel
        sample_pool_def addUnchecked_def) (simp add: sample_pool_env_def)
  then show ?thesis by (rule reach_accept [OF p, rotated 2]) simp_all
qed

lemma sample_pool_inv: "pool_inv (s_hash check_lib) sample_pool" "acyclic (children sample_pool)"
proof -
  have *: "pool_inv (s_hash check_lib) sample_pool \<and> ran (map_of (mapTx sample_pool)) \<subseteq> {sample_tx, sample_child}"
    using pool_reach_inv [OF sample_pool_reach _ sample_pool_sound] by (simp add: sample_pool_lib)
  then show "pool_inv (s_hash check_lib) sample_pool" by blast
  show "acyclic (children sample_pool)" using sound_acyclic [OF sample_pool_sound] * by blast
qed

theorem mempool_no_conflicts_witness:
  "mapNextTx sample_pool \<lparr> op_hash = 74, op_n = 0 \<rparr> = Some \<lparr> ptx = 73, in_n = 0 \<rparr>
   \<and> spends (map_of (mapTx sample_pool)) \<lparr> ptx = 73, in_n = 0 \<rparr> \<lparr> op_hash = 74, op_n = 0 \<rparr>"
proof -
  have "\<forall>A \<in> {sample_pool_env}. s_hash (ce_lib (pe_connect A)) = s_hash check_lib" by (simp add: sample_pool_lib)
  note c = mempool_no_conflicts [OF sample_pool_reach this sample_pool_sound, THEN conjunct2, THEN conjunct1, rule_format]
  have "mapNextTx sample_pool \<lparr> op_hash = 74, op_n = 0 \<rparr> = Some \<lparr> ptx = 73, in_n = 0 \<rparr>" by (simp add: sample_pool_sel(2))
  then show ?thesis using c by blast
qed

lemma sample_descendants: "{73, 74} \<subseteq> descendants sample_pool 74"
proof -
  have "(74, 73) \<in> children sample_pool" by (simp add: children_def sample_pool_sel sample_child_sel sample_tx_sel)
  then show ?thesis using descendants_refl descendants_closed by blast
qed

theorem mempool_remove_terminates_witness:
  "\<exists>q. pool_remove (s_hash check_lib) sample_tx True sample_pool = Some q \<and> mapTx q = []"
proof -
  have "map_of (mapTx sample_pool) (GetHash (s_hash check_lib) sample_tx) \<in> {None, Some sample_tx}" by (simp add: sample_pool_hashes sample_pool_sel)
  from mempool_remove_terminates [OF sample_pool_inv this, of True] show ?thesis
    using sample_descendants by (auto simp: sample_pool_hashes sample_pool_sel)
qed

theorem mempool_removeConflicts_witness:
  "\<exists>q. removeConflicts (s_hash check_lib) (sample_tx\<lparr> tx_nTime := 5 \<rparr>) sample_pool = Some q \<and> mapTx q = []"
proof -
  have "74 \<in> conflicts (sample_tx\<lparr> tx_nTime := 5 \<rparr>) (prevout ` set (vin (sample_tx\<lparr> tx_nTime := 5 \<rparr>))) sample_pool"
    by (simp add: conflicts_def sample_pool_sel sample_tx_sel CTransaction_eq_def)
  then have "{73, 74} \<subseteq> with_descendants sample_pool (conflicts (sample_tx\<lparr> tx_nTime := 5 \<rparr>) (prevout ` set (vin (sample_tx\<lparr> tx_nTime := 5 \<rparr>))) sample_pool)"
    using sample_descendants by (auto simp: with_descendants_def)
  with mempool_removeConflicts [OF sample_pool_inv, of "sample_tx\<lparr> tx_nTime := 5 \<rparr>"] show ?thesis
    by (auto simp: sample_pool_sel)
qed

theorem orphans_indexed_witness:
  "\<exists>os'. LimitOrphanTxSize [5] 1 0 \<lparr> mapOrphanTransactions = [(73, sample_child), (74, sample_tx)], mapOrphanTransactionsByPrev = [7 \<mapsto> {74}, 74 \<mapsto> {73}] \<rparr>
     = Some (1, os') \<and> length (mapOrphanTransactions os') = 1"
proof -
  let ?os = "\<lparr> mapOrphanTransactions = [(73, sample_child), (74, sample_tx)], mapOrphanTransactionsByPrev = [7 \<mapsto> {74}, 74 \<mapsto> {73}] \<rparr>"
  have "waiting ?os prev = (if prev = 7 then {74} else if prev = 74 then {73} else {})" for prev
    by (auto simp: waiting_def sample_child_sel sample_tx_sel split: if_splits)
  then have "orphans_inv (s_hash check_lib) ?os"
    by (auto simp: orphans_inv_def sample_pool_hashes sample_sizes sample_child_size split: if_splits)
  from orphans_indexed [OF this, of 1 "[5]" sample_tx 0] show ?thesis by auto
qed

end
