(* ===== verification/BlockTree.thy ===== *)
theory BlockTree
  imports ConnectBlock
begin

text \<open>
  The block index in memory (\<open>main.cpp\<close>, \<open>main.h\<close>): \<open>mapBlockIndex\<close> as a store of nodes whose \<open>pprev\<close> and \<open>pnext\<close> pointers
  name other nodes by their hash.  The ancestors of a block form a chain; the search for the fork of two chains, the lists
  of blocks that a reorganisation disconnects and connects, and the update of the \<open>pnext\<close> pointers, which mark the main chain.
\<close>

section \<open>Nodes\<close>

record index_node =
  node_bi :: CBlockIndex
  pprev :: "uint256 option"
  pnext :: "uint256 option"

type_synonym block_tree = "uint256 \<rightharpoonup> index_node"

text \<open>Following \<open>pprev\<close>; the height of the first block bounds the number of steps.\<close>

fun ancestors :: "nat \<Rightarrow> block_tree \<Rightarrow> uint256 \<Rightarrow> chain" where
  "ancestors 0 M h = []"
| "ancestors (Suc n) M h = (case M h of None \<Rightarrow> []
     | Some nd \<Rightarrow> node_bi nd # (case pprev nd of None \<Rightarrow> [] | Some k \<Rightarrow> ancestors n M k))"

definition chain_of :: "block_tree \<Rightarrow> uint256 \<Rightarrow> chain" where
  "chain_of M h = (case M h of None \<Rightarrow> [] | Some nd \<Rightarrow> ancestors (Suc (nat (nHeight (node_bi nd)))) M h)"

definition set_pnext :: "uint256 \<Rightarrow> uint256 option \<Rightarrow> block_tree \<Rightarrow> block_tree" where
  "set_pnext h v M = (case M h of None \<Rightarrow> M | Some nd \<Rightarrow> M(h \<mapsto> nd\<lparr> pnext := v \<rparr>))"

definition set_bi :: "uint256 \<Rightarrow> CBlockIndex \<Rightarrow> block_tree \<Rightarrow> block_tree" where
  "set_bi h p M = (case M h of None \<Rightarrow> M | Some nd \<Rightarrow> M(h \<mapsto> nd\<lparr> node_bi := p \<rparr>))"

definition IsInMainChain :: "uint256 option \<Rightarrow> block_tree \<Rightarrow> uint256 \<Rightarrow> bool" where
  "IsInMainChain pindexBest M h \<longleftrightarrow> (case M h of None \<Rightarrow> False | Some nd \<Rightarrow> pnext nd \<noteq> None \<or> pindexBest = Some h)"

text \<open>The hash of \<open>pnext\<close> that \<open>CDiskBlockIndex\<close> stores.\<close>

definition next_hash :: "block_tree \<Rightarrow> uint256 \<Rightarrow> uint256" where
  "next_hash M h = (case M h of None \<Rightarrow> 0 | Some nd \<Rightarrow> (case pnext nd of None \<Rightarrow> 0 | Some k \<Rightarrow> k))"

section \<open>The fork of two chains\<close>

definition same_block :: "chain \<Rightarrow> chain \<Rightarrow> bool" where
  "same_block a b \<longleftrightarrow> phashBlock (hd a) = phashBlock (hd b)"

text \<open>The inner loop, which lowers \<open>plonger\<close> to the height of \<open>pfork\<close>, and the outer one.\<close>

definition lower :: "int \<Rightarrow> chain \<Rightarrow> chain" where
  "lower h plonger = dropWhile (\<lambda>p. nHeight p > h) plonger"

function find_fork :: "chain \<Rightarrow> chain \<Rightarrow> chain option" where
  "find_fork pfork plonger =
     (if pfork = [] \<or> plonger = [] then None
      else if same_block pfork plonger then Some pfork
      else let plonger' = lower (nHeight (hd pfork)) plonger in
        if plonger' = [] then None
        else if same_block pfork plonger' then Some pfork
        else find_fork (tl pfork) plonger')"
  by pat_completeness auto
termination
  by (relation "measure (\<lambda>(a, b). length a)") auto

text \<open>The hashes of the blocks above the fork, from the top down.\<close>

definition above :: "chain \<Rightarrow> chain \<Rightarrow> uint256 list" where
  "above pfork c = takeWhile (\<lambda>h. h \<noteq> phashBlock (hd pfork)) (map phashBlock c)"

text \<open>The loop that postpones the connection of blocks past the first one with more trust than the best chain.\<close>

fun postpone :: "uint256 \<Rightarrow> chain \<Rightarrow> chain \<times> uint256 list" where
  "postpone trust (p # q # r) =
     (if nChainTrust q > trust then (case postpone trust (q # r) of (c, v) \<Rightarrow> (c, phashBlock p # v)) else (p # q # r, []))"
| "postpone trust c = (c, [])"

section \<open>Main chain pointers\<close>

definition unlink :: "block_tree \<Rightarrow> uint256 \<Rightarrow> block_tree" where
  "unlink M h = (case M h of None \<Rightarrow> M | Some nd \<Rightarrow> (case pprev nd of None \<Rightarrow> M | Some k \<Rightarrow> set_pnext k None M))"

definition link :: "block_tree \<Rightarrow> uint256 \<Rightarrow> block_tree" where
  "link M h = (case M h of None \<Rightarrow> M | Some nd \<Rightarrow> (case pprev nd of None \<Rightarrow> M | Some k \<Rightarrow> set_pnext k (Some h) M))"

definition relink :: "uint256 list \<Rightarrow> uint256 list \<Rightarrow> block_tree \<Rightarrow> block_tree" where
  "relink vDisconnect vConnect M = foldl link (foldl unlink M vDisconnect) vConnect"


declare find_fork.simps [simp del]

section \<open>Well-formed trees\<close>

text \<open>Every node is stored under its hash, and heights count the ancestors.\<close>

definition height :: "block_tree \<Rightarrow> uint256 \<Rightarrow> int" where
  "height M h = (case M h of None \<Rightarrow> -1 | Some nd \<Rightarrow> nHeight (node_bi nd))"

definition parent :: "block_tree \<Rightarrow> uint256 \<Rightarrow> uint256 option" where
  "parent M h = (case M h of None \<Rightarrow> None | Some nd \<Rightarrow> pprev nd)"

definition tree_inv :: "block_tree \<Rightarrow> bool" where
  "tree_inv M \<longleftrightarrow> (\<forall>h nd. M h = Some nd \<longrightarrow> phashBlock (node_bi nd) = h \<and> 0 \<le> nHeight (node_bi nd)
     \<and> (case pprev nd of None \<Rightarrow> nHeight (node_bi nd) = 0 | Some k \<Rightarrow> M k \<noteq> None \<and> nHeight (node_bi nd) = height M k + 1))"

abbreviation path :: "block_tree \<Rightarrow> uint256 \<Rightarrow> uint256 list" where
  "path M h \<equiv> map phashBlock (chain_of M h)"

lemma tree_invD:
  assumes "tree_inv M" "M h = Some nd"
  shows "phashBlock (node_bi nd) = h" "0 \<le> nHeight (node_bi nd)" "pprev nd = None \<Longrightarrow> nHeight (node_bi nd) = 0"
    "pprev nd = Some k \<Longrightarrow> M k \<noteq> None \<and> nHeight (node_bi nd) = height M k + 1"
  using assms by (force simp: tree_inv_def)+

lemma height_nonneg: "tree_inv M \<Longrightarrow> M h \<noteq> None \<Longrightarrow> 0 \<le> height M h"
  using tree_invD(2) by (fastforce simp: height_def)

lemma chain_unfold:
  assumes "tree_inv M" "M h = Some nd"
  shows "chain_of M h = node_bi nd # (case pprev nd of None \<Rightarrow> [] | Some k \<Rightarrow> chain_of M k)"
proof (cases "pprev nd")
  case (Some k)
  then obtain nd' where k: "M k = Some nd'" "nHeight (node_bi nd) = nHeight (node_bi nd') + 1"
    using tree_invD(4) [OF assms] by (auto simp: height_def)
  then have "nat (nHeight (node_bi nd)) = Suc (nat (nHeight (node_bi nd')))" using tree_invD(2) [OF assms(1) k(1)] by simp
  then show ?thesis using Some k(1) assms(2) by (simp add: chain_of_def)
qed (use assms(2) in \<open>simp add: chain_of_def\<close>)

lemma chain_Nil: "tree_inv M \<Longrightarrow> chain_of M h = [] \<longleftrightarrow> M h = None"
  by (cases "M h") (simp add: chain_of_def, simp add: chain_unfold)

lemma path_hd: "tree_inv M \<Longrightarrow> M h = Some nd \<Longrightarrow> hd (chain_of M h) = node_bi nd \<and> phashBlock (hd (chain_of M h)) = h"
  by (simp add: chain_unfold tree_invD(1))

lemma chain_tl: "tree_inv M \<Longrightarrow> M h = Some nd \<Longrightarrow> tl (chain_of M h) = (case pprev nd of None \<Rightarrow> [] | Some k \<Rightarrow> chain_of M k)"
  by (simp add: chain_unfold)

lemma path_unfold: "tree_inv M \<Longrightarrow> M h \<noteq> None \<Longrightarrow> path M h = h # (case parent M h of None \<Rightarrow> [] | Some k \<Rightarrow> path M k)"
  by (auto simp: chain_unfold tree_invD(1) parent_def split: option.splits)

lemma parent_height: "tree_inv M \<Longrightarrow> parent M h = Some k \<Longrightarrow> M h \<noteq> None \<and> M k \<noteq> None \<and> height M h = height M k + 1"
  using tree_invD(4) [of M h] by (auto simp: parent_def height_def split: option.splits)

lemma tree_induct [consumes 2, case_names node]:
  assumes "tree_inv M" "M h \<noteq> None" "\<And>h. M h \<noteq> None \<Longrightarrow> (\<And>k. parent M h = Some k \<Longrightarrow> P k) \<Longrightarrow> P h"
  shows "P h"
  using assms(2)
proof (induction "nat (height M h)" arbitrary: h rule: less_induct)
  case less
  show ?case
  proof (rule assms(3) [OF less(2)])
    fix k assume k: "parent M h = Some k"
    have "M k \<noteq> None" "height M h = height M k + 1" "0 \<le> height M k" using parent_height [OF assms(1) k] height_nonneg [OF assms(1)] by auto
    then show "P k" using less(1) [of k] by simp
  qed
qed

lemma path_mem:
  assumes "tree_inv M" "M h \<noteq> None"
  shows "k \<in> set (path M h) \<Longrightarrow> M k \<noteq> None \<and> height M k \<le> height M h \<and> (\<exists>xs. chain_of M h = xs @ chain_of M k \<and> (\<forall>p \<in> set xs. height M k < height M (phashBlock p)))"
  using assms
proof (induction h rule: tree_induct)
  case (node h)
  obtain nd where nd: "M h = Some nd" using node(1) by blast
  show ?case
  proof (cases "k = h")
    case False
    then obtain q where q: "parent M h = Some q" "k \<in> set (path M q)" using node(3) path_unfold [OF assms(1) node(1)] by (auto split: option.splits)
    have c: "chain_of M h = node_bi nd # chain_of M q" using chain_unfold [OF assms(1) nd] q(1) nd by (simp add: parent_def)
    have "height M h = height M q + 1" using parent_height [OF assms(1) q(1)] by blast
    with node(2) [OF q] obtain xs where xs: "M k \<noteq> None" "height M k \<le> height M q" "chain_of M q = xs @ chain_of M k"
      "\<forall>p \<in> set xs. height M k < height M (phashBlock p)" by blast
    then show ?thesis using c \<open>height M h = height M q + 1\<close> tree_invD(1) [OF assms(1) nd] by (intro conjI exI [of _ "node_bi nd # xs"]) auto
  qed (use node(1) in auto)
qed

lemma path_unique:
  assumes "tree_inv M" "M h \<noteq> None" "j \<in> set (path M h)" "k \<in> set (path M h)" "height M j = height M k"
  shows "j = k"
proof -
  obtain xs where xs: "M k \<noteq> None" "chain_of M h = xs @ chain_of M k" "\<forall>p \<in> set xs. height M k < height M (phashBlock p)"
    using path_mem [OF assms(1,2,4)] by blast
  then have "j \<in> set (path M k)" using assms(3,5) by auto
  then obtain ys where ys: "chain_of M k = ys @ chain_of M j" "\<forall>p \<in> set ys. height M j < height M (phashBlock p)" "M j \<noteq> None"
    using path_mem [OF assms(1) xs(1)] by blast
  have k: "hd (path M k) = k" using path_unfold [OF assms(1) xs(1)] by simp
  have j: "hd (path M j) = j" using path_unfold [OF assms(1) ys(3)] by simp
  show ?thesis
  proof (cases ys)
    case Nil
    then show ?thesis using ys(1) j k by simp
  next
    case (Cons y r)
    then have "k = phashBlock y" using ys(1) k by simp
    then show ?thesis using ys(2) Cons assms(5) by simp
  qed
qed

lemma path_trans: "tree_inv M \<Longrightarrow> M h \<noteq> None \<Longrightarrow> k \<in> set (path M h) \<Longrightarrow> set (path M k) \<subseteq> set (path M h)"
  using path_mem by fastforce

lemma path_height:
  assumes "tree_inv M" "M h \<noteq> None"
  shows "p \<in> set (chain_of M h) \<Longrightarrow> nHeight p = height M (phashBlock p)"
  using assms
proof (induction h rule: tree_induct)
  case (node h)
  then obtain nd where nd: "M h = Some nd" by blast
  then show ?case using node(2,3) chain_unfold [OF assms(1) nd] tree_invD(1) [OF assms(1) nd]
    by (auto simp: parent_def height_def split: option.splits)
qed

section \<open>Finding the fork\<close>

lemma lower_chain:
  assumes "tree_inv M" "M b \<noteq> None" "0 \<le> H"
  shows "\<exists>b' ys. M b' \<noteq> None \<and> lower H (chain_of M b) = chain_of M b' \<and> height M b' = min H (height M b)
    \<and> chain_of M b = ys @ chain_of M b' \<and> (\<forall>p \<in> set ys. H < height M (phashBlock p))"
  using assms(1,2)
proof (induction b rule: tree_induct)
  case (node b)
  obtain nd where nd: "M b = Some nd" using node(1) by blast
  have h: "height M b = nHeight (node_bi nd)" "phashBlock (node_bi nd) = b" using nd tree_invD(1) [OF assms(1)] by (simp_all add: height_def)
  show ?case
  proof (cases "H < height M b")
    case True
    then have "pprev nd \<noteq> None" using tree_invD(3) [OF assms(1) nd] h(1) assms(3) by auto
    then obtain k where k: "pprev nd = Some k" by blast
    then have pk: "parent M b = Some k" using nd by (simp add: parent_def)
    have c: "chain_of M b = node_bi nd # chain_of M k" using chain_unfold [OF assms(1) nd] k by simp
    obtain b' ys where b': "M b' \<noteq> None" "lower H (chain_of M k) = chain_of M b'" "height M b' = min H (height M k)"
      "chain_of M k = ys @ chain_of M b'" "\<forall>p \<in> set ys. H < height M (phashBlock p)" using node(2) [OF pk] by blast
    have "height M b = height M k + 1" using parent_height [OF assms(1) pk] by blast
    moreover have "lower H (chain_of M b) = lower H (chain_of M k)" using True h(1) by (simp add: lower_def c)
    ultimately show ?thesis using b' True h by (intro exI [of _ b'] exI [of _ "node_bi nd # ys"]) (auto simp: c)
  next
    case False
    then have "lower H (chain_of M b) = chain_of M b" using h(1) by (simp add: lower_def chain_unfold [OF assms(1) nd])
    then show ?thesis using False nd by (intro exI [of _ b] exI [of _ "[]"]) auto
  qed
qed

definition fork_at :: "block_tree \<Rightarrow> uint256 \<Rightarrow> uint256 \<Rightarrow> uint256 \<Rightarrow> bool" where
  "fork_at M a b k \<longleftrightarrow> M k \<noteq> None \<and> (\<exists>xs ys. chain_of M a = xs @ chain_of M k \<and> chain_of M b = ys @ chain_of M k
     \<and> phashBlock ` set xs \<inter> set (path M b) = {} \<and> phashBlock ` set ys \<inter> set (path M a) = {})"

lemma find_fork_ok:
  assumes "tree_inv M" "M a \<noteq> None"
  shows "M b \<noteq> None \<Longrightarrow> set (path M a) \<inter> set (path M b) \<noteq> {} \<Longrightarrow>
    \<exists>k. find_fork (chain_of M a) (chain_of M b) = Some (chain_of M k) \<and> fork_at M a b k"
  using assms
proof (induction a arbitrary: b rule: tree_induct)
  case (node a)
  obtain na nb where n: "M a = Some na" "M b = Some nb" using node by blast
  have hda: "hd (chain_of M a) = node_bi na" "phashBlock (node_bi na) = a" "nHeight (node_bi na) = height M a"
    using path_hd [OF assms(1) n(1)] n(1) by (auto simp: height_def)
  have ne: "chain_of M a \<noteq> []" "chain_of M b \<noteq> []" using n chain_Nil [OF assms(1)] by auto
  have same: "same_block (chain_of M a) (chain_of M c) \<longleftrightarrow> a = c" if "M c \<noteq> None" for c
    using hda path_hd [OF assms(1), of c] that by (force simp: same_block_def)
  obtain b' ys where b': "M b' \<noteq> None" "lower (height M a) (chain_of M b) = chain_of M b'" "height M b' = min (height M a) (height M b)"
    "chain_of M b = ys @ chain_of M b'" "\<forall>p \<in> set ys. height M a < height M (phashBlock p)"
    using lower_chain [OF assms(1) node(3) height_nonneg [OF assms(1) node(1)]] by blast
  have ys: "phashBlock ` set ys \<inter> set (path M a) = {}" using b'(5) path_mem [OF assms(1) node(1)] by fastforce
  show ?case
  proof (cases "a = b \<or> a = b'")
    case True
    then have "find_fork (chain_of M a) (chain_of M b) = Some (chain_of M a)"
      using same [OF node(3)] same [OF b'(1)] b'(1,2) ne hda chain_Nil [OF assms(1)] by (subst find_fork.simps) (auto simp: Let_def)
    moreover have "fork_at M a b a" using True node(1) b'(4) ys unfolding fork_at_def by (metis Int_empty_left append_Nil empty_set image_empty)
    ultimately show ?thesis by blast
  next
    case False
    have anb: "a \<notin> set (path M b)"
    proof
      assume a: "a \<in> set (path M b)"
      then have "height M a \<le> height M b" using path_mem [OF assms(1) node(3)] by blast
      moreover have "b' \<in> set (path M b)" using b'(4) path_unfold [OF assms(1) b'(1)] by (metis list.set_intros(1) map_append UnCI set_append)
      ultimately show False using path_unique [OF assms(1) node(3) a] b'(3) False by auto
    qed
    then have "parent M a \<noteq> None" using node(4) path_unfold [OF assms(1) node(1)] by (auto split: option.splits)
    then obtain a' where a': "parent M a = Some a'" by blast
    have ca: "chain_of M a = node_bi na # chain_of M a'" using chain_unfold [OF assms(1) n(1)] a' n(1) by (simp add: parent_def)
    have ff: "find_fork (chain_of M a) (chain_of M b) = find_fork (chain_of M a') (chain_of M b')"
      using same [OF node(3)] same [OF b'(1)] b'(1,2) ne hda chain_Nil [OF assms(1)] False ca by (subst find_fork.simps) (auto simp: Let_def)
    have pa: "set (path M a) = insert a (set (path M a'))" using path_unfold [OF assms(1) node(1)] a' by simp
    have pb: "set (path M b) = phashBlock ` set ys \<union> set (path M b')" using b'(4) by simp
    have "set (path M a') \<inter> set (path M b') \<noteq> {}" using node(4) anb ys unfolding pa pb by fast
    from node(2) [OF a' b'(1) this] obtain k where k: "find_fork (chain_of M a') (chain_of M b') = Some (chain_of M k)" "fork_at M a' b' k" by blast
    then obtain us vs where f: "M k \<noteq> None" "chain_of M a' = us @ chain_of M k" "chain_of M b' = vs @ chain_of M k"
      "phashBlock ` set us \<inter> set (path M b') = {}" "phashBlock ` set vs \<inter> set (path M a') = {}" unfolding fork_at_def by blast
    have "phashBlock ` set (node_bi na # us) \<inter> set (path M b) = {}" using f(2,4) anb pb ys pa hda(2) by auto
    moreover have "phashBlock ` set (ys @ vs) \<inter> set (path M a) = {}" using f(3,5) anb pb ys pa by auto
    ultimately have "fork_at M a b k" unfolding fork_at_def
      using f(1-3) ca b'(4) by (intro conjI exI [of _ "node_bi na # us"] exI [of _ "ys @ vs"]) auto
    then show ?thesis using k(1) ff by auto
  qed
qed

lemma above_fork:
  assumes "tree_inv M" "M k \<noteq> None" "chain_of M a = xs @ chain_of M k" "k \<notin> phashBlock ` set xs"
  shows "above (chain_of M k) (chain_of M a) = map phashBlock xs"
proof -
  have k: "phashBlock (hd (chain_of M k)) = k" "path M k = k # tl (path M k)"
    using assms(2) path_hd [OF assms(1)] path_unfold [OF assms(1,2)] by auto
  have "takeWhile (\<lambda>h. h \<noteq> k) (map phashBlock xs @ k # tl (path M k)) = map phashBlock xs"
    using assms(4) by (subst takeWhile_append2) (auto simp: image_iff)
  then show ?thesis using k assms(3) by (simp add: above_def flip: k(2))
qed

section \<open>The main chain\<close>

text \<open>The \<open>pnext\<close> pointers name exactly the children on the best chain.\<close>

definition next_of :: "block_tree \<Rightarrow> uint256 \<Rightarrow> uint256 option" where
  "next_of M h = (case M h of None \<Rightarrow> None | Some nd \<Rightarrow> pnext nd)"

definition pnext_inv :: "block_tree \<Rightarrow> uint256 \<Rightarrow> bool" where
  "pnext_inv M best \<longleftrightarrow> (\<forall>h k. next_of M h = Some k \<longleftrightarrow> k \<in> set (path M best) \<and> parent M k = Some h)"

text \<open>Changing \<open>pnext\<close> pointers keeps the tree.\<close>

definition same_tree :: "block_tree \<Rightarrow> block_tree \<Rightarrow> bool" where
  "same_tree M M' \<longleftrightarrow> (\<forall>h. map_option (\<lambda>nd. (node_bi nd, pprev nd)) (M h) = map_option (\<lambda>nd. (node_bi nd, pprev nd)) (M' h))"

lemma same_tree_refl: "same_tree M M"
  by (simp add: same_tree_def)

lemma same_tree_trans: "same_tree M M' \<Longrightarrow> same_tree M' M'' \<Longrightarrow> same_tree M M''"
  by (simp add: same_tree_def)

lemma same_tree_parent:
  assumes "same_tree M M'"
  shows "parent M' h = parent M h" "height M' h = height M h" "M' h = None \<longleftrightarrow> M h = None"
  using assms [unfolded same_tree_def, rule_format, of h] by (auto simp: parent_def height_def split: option.splits)

lemma same_tree_ancestors: "same_tree M M' \<Longrightarrow> ancestors n M' h = ancestors n M h"
proof (induction n arbitrary: h)
  case (Suc n)
  then show ?case using Suc(2) [unfolded same_tree_def, rule_format, of h] by (auto split: option.splits)
qed simp

lemma same_tree_node: "same_tree M M' \<Longrightarrow> M h = Some nd \<Longrightarrow> \<exists>nd'. M' h = Some nd' \<and> node_bi nd' = node_bi nd \<and> pprev nd' = pprev nd"
  by (drule same_tree_def [THEN iffD1, rule_format, of _ _ h]) (cases "M' h", auto)

lemma same_tree_chain: "same_tree M M' \<Longrightarrow> chain_of M' h = chain_of M h"
proof -
  assume s: "same_tree M M'"
  show ?thesis
  proof (cases "M h")
    case None
    then show ?thesis using same_tree_parent(3) [OF s, of h] by (simp add: chain_of_def)
  next
    case (Some nd)
    then obtain nd' where "M' h = Some nd'" "node_bi nd' = node_bi nd" using same_tree_node [OF s] by blast
    then show ?thesis using Some same_tree_ancestors [OF s] by (simp add: chain_of_def del: ancestors.simps)
  qed
qed

lemma same_tree_inv: "same_tree M M' \<Longrightarrow> tree_inv M \<Longrightarrow> tree_inv M'"
proof -
  assume s: "same_tree M M'" and t: "tree_inv M"
  show "tree_inv M'" unfolding tree_inv_def
  proof (intro allI impI)
    fix h nd assume h: "M' h = Some nd"
    then obtain nd0 where nd0: "M h = Some nd0" "node_bi nd0 = node_bi nd" "pprev nd0 = pprev nd"
      using s [unfolded same_tree_def, rule_format, of h] by auto
    then show "phashBlock (node_bi nd) = h \<and> 0 \<le> nHeight (node_bi nd)
      \<and> (case pprev nd of None \<Rightarrow> nHeight (node_bi nd) = 0 | Some k \<Rightarrow> M' k \<noteq> None \<and> nHeight (node_bi nd) = height M' k + 1)"
      using tree_invD [OF t nd0(1)] by (auto simp: same_tree_parent [OF s] split: option.splits)
  qed
qed

lemma set_pnext_same: "same_tree M (set_pnext h v M)"
  by (auto simp: same_tree_def set_pnext_def split: option.splits)

lemma unlink_same: "same_tree M (unlink M h)"
  by (auto simp: unlink_def set_pnext_same same_tree_refl split: option.splits)

lemma link_same: "same_tree M (link M h)"
  by (auto simp: link_def set_pnext_same same_tree_refl split: option.splits)

lemma foldl_unlink_same: "same_tree M (foldl unlink M hs)"
  by (induction hs arbitrary: M) (auto intro: same_tree_refl same_tree_trans unlink_same)

lemma foldl_link_same: "same_tree M (foldl link M hs)"
  by (induction hs arbitrary: M) (auto intro: same_tree_refl same_tree_trans link_same)

lemma next_of_unlink: "tree_inv M \<Longrightarrow> next_of (unlink M h) x = (if parent M h = Some x then None else next_of M x)"
  using parent_height [of M h x] by (auto simp: unlink_def set_pnext_def next_of_def parent_def split: option.splits)

lemma next_of_link: "tree_inv M \<Longrightarrow> next_of (link M h) x = (if parent M h = Some x then Some h else next_of M x)"
  using parent_height [of M h x] by (auto simp: link_def set_pnext_def next_of_def parent_def split: option.splits)

lemma next_of_unlinks: "tree_inv M \<Longrightarrow> next_of (foldl unlink M hs) x = (if \<exists>h \<in> set hs. parent M h = Some x then None else next_of M x)"
proof (induction hs arbitrary: M)
  case (Cons h hs)
  have "tree_inv (unlink M h)" by (rule same_tree_inv [OF unlink_same Cons(2)])
  then show ?case using Cons(1) [of "unlink M h"] Cons(2) by (auto simp: next_of_unlink same_tree_parent(1) [OF unlink_same])
qed simp

lemma next_of_links:
  "tree_inv M \<Longrightarrow> (\<forall>h \<in> set hs. \<forall>h' \<in> set hs. parent M h = parent M h' \<and> parent M h \<noteq> None \<longrightarrow> h = h') \<Longrightarrow>
   next_of (foldl link M hs) x = Some k \<longleftrightarrow> (if \<exists>h \<in> set hs. parent M h = Some x then k \<in> set hs \<and> parent M k = Some x else next_of M x = Some k)"
proof (induction hs arbitrary: M)
  case (Cons h hs)
  have t: "tree_inv (link M h)" by (rule same_tree_inv [OF link_same Cons(2)])
  have p: "parent (link M h) k = parent M k" for k by (rule same_tree_parent(1) [OF link_same])
  have "next_of (foldl link (link M h) hs) x = Some k \<longleftrightarrow>
    (if \<exists>h \<in> set hs. parent M h = Some x then k \<in> set hs \<and> parent M k = Some x else next_of (link M h) x = Some k)"
    by (rule Cons(1) [OF t, unfolded p]) (use Cons(3) in \<open>simp, blast\<close>)
  also have "\<dots> \<longleftrightarrow> (if \<exists>h \<in> set (h # hs). parent M h = Some x then k \<in> set (h # hs) \<and> parent M k = Some x else next_of M x = Some k)"
    using Cons(3) next_of_link [OF Cons(2), of h x] by auto
  finally show ?case by simp
qed simp

lemma path_child_unique:
  assumes "tree_inv M" "M b \<noteq> None" "h \<in> set (path M b)" "h' \<in> set (path M b)" "parent M h = Some x" "parent M h' = Some x"
  shows "h = h'"
  using path_unique [OF assms(1-4)] parent_height [OF assms(1,5)] parent_height [OF assms(1,6)] by simp

lemma relink_inv:
  assumes "tree_inv M" "M a \<noteq> None" "M b \<noteq> None" "fork_at M a b k" "pnext_inv M a"
  shows "pnext_inv (relink (above (chain_of M k) (chain_of M a)) (rev (above (chain_of M k) (chain_of M b))) M) b"
    "same_tree M (relink (above (chain_of M k) (chain_of M a)) (rev (above (chain_of M k) (chain_of M b))) M)"
proof -
  obtain xs ys where f: "M k \<noteq> None" "chain_of M a = xs @ chain_of M k" "chain_of M b = ys @ chain_of M k"
    "phashBlock ` set xs \<inter> set (path M b) = {}" "phashBlock ` set ys \<inter> set (path M a) = {}" using assms(4) unfolding fork_at_def by blast
  define D C F where "D = phashBlock ` set xs" and "C = phashBlock ` set ys" and "F = set (path M k)"
  have k: "k \<in> F" unfolding F_def using path_unfold [OF assms(1) f(1)] by simp
  have A: "set (path M a) = D \<union> F" and B: "set (path M b) = C \<union> F" by (simp_all add: f(2,3) D_def C_def F_def image_Un)
  have kx: "k \<notin> phashBlock ` set xs" "k \<notin> phashBlock ` set ys" using f(4,5) k A B unfolding D_def C_def by auto
  have av: "set (above (chain_of M k) (chain_of M a)) = D" "set (rev (above (chain_of M k) (chain_of M b))) = C"
    using above_fork [OF assms(1) f(1,2) kx(1)] above_fork [OF assms(1) f(1,3) kx(2)] by (simp_all add: D_def C_def)
  define M1 where "M1 = foldl unlink M (above (chain_of M k) (chain_of M a))"
  have s1: "same_tree M M1" unfolding M1_def by (rule foldl_unlink_same)
  then show s: "same_tree M (relink (above (chain_of M k) (chain_of M a)) (rev (above (chain_of M k) (chain_of M b))) M)"
    unfolding relink_def M1_def by (rule same_tree_trans [OF _ foldl_link_same])
  have p1: "parent M1 h = parent M h" for h by (rule same_tree_parent(1) [OF s1])
  have n1: "next_of M1 x = (if \<exists>h \<in> D. parent M h = Some x then None else next_of M x)" for x
    unfolding M1_def next_of_unlinks [OF assms(1)] av ..
  have uniq: "\<forall>h \<in> C. \<forall>h' \<in> C. parent M1 h = parent M1 h' \<and> parent M1 h \<noteq> None \<longrightarrow> h = h'"
    using path_child_unique [OF assms(1,3)] unfolding p1 B by (metis UnI1 not_None_eq)
  have n2: "next_of (relink (above (chain_of M k) (chain_of M a)) (rev (above (chain_of M k) (chain_of M b))) M) x = Some q \<longleftrightarrow>
    (if \<exists>h \<in> C. parent M h = Some x then q \<in> C \<and> parent M q = Some x else next_of M1 x = Some q)" for x q
    using next_of_links [OF same_tree_inv [OF s1 assms(1)], of "rev (above (chain_of M k) (chain_of M b))" x q] uniq
    unfolding relink_def M1_def [symmetric] av p1 by blast
  have old: "next_of M x = Some q \<longleftrightarrow> q \<in> D \<union> F \<and> parent M q = Some x" for x q using assms(5) unfolding pnext_inv_def A by blast
  have dis: "C \<inter> F = {}" "D \<inter> F = {}" "D \<inter> C = {}" using f(4,5) unfolding A B D_def C_def by blast+
  have CF: "\<not> (h \<in> C \<and> q \<in> F \<and> parent M h = Some x \<and> parent M q = Some x)" for h q x
    using path_child_unique [OF assms(1,3)] dis(1) unfolding B by (metis UnI1 UnI2 disjoint_iff)
  have DF: "\<not> (h \<in> D \<and> q \<in> F \<and> parent M h = Some x \<and> parent M q = Some x)" for h q x
    using path_child_unique [OF assms(1,2)] dis(2) unfolding A by (metis UnI1 UnI2 disjoint_iff)
  have "next_of (relink (above (chain_of M k) (chain_of M a)) (rev (above (chain_of M k) (chain_of M b))) M) x = Some q
    \<longleftrightarrow> q \<in> C \<union> F \<and> parent M q = Some x" for x q
  proof (cases "\<exists>h \<in> C. parent M h = Some x")
    case True
    then show ?thesis unfolding n2 using CF by (simp, blast)
  next
    case False
    then show ?thesis unfolding n2 n1 using old [of x q] DF by (cases "\<exists>h \<in> D. parent M h = Some x") (simp, blast)+
  qed
  then show "pnext_inv (relink (above (chain_of M k) (chain_of M a)) (rev (above (chain_of M k) (chain_of M b))) M) b"
    unfolding pnext_inv_def same_tree_chain [OF s] same_tree_parent [OF s] B by blast
qed

end
