(* ===== verification/Checkpoints.thy ===== *)
theory Checkpoints
  imports BlockTree
begin

text \<open>
  Checkpoints (\<open>checkpoints.cpp\<close>, \<open>checkpoints.h\<close>): the hardened checkpoints compiled into the program, the messages that carry
  synchronized checkpoints, and the checks of the synchronized checkpoint against the block index.  The operations that replace it
  are in \<open>SyncCheckpoints\<close>.
\<close>

section \<open>Hardened checkpoints\<close>

definition hashGenesisBlock :: uint256 where
  "hashGenesisBlock = 0x0000d31a9c2fe162db1175626d062ef06c235baf4986464bdd40e51da037375b"

definition hashGenesisBlockTestNet :: uint256 where
  "hashGenesisBlockTestNet = 0x0001171dc6387bcdd83d845590ced3bcb6e31d7d08f0a193755d0f5694e5dca2"

definition mapCheckpoints :: "(int \<times> uint256) list" where
  "mapCheckpoints =
    [(0, hashGenesisBlock),
     (32750, 0xd8e33a97d49289a039833e7e5885cc1ca4787aa912137f62bc24a3ca08515056),
     (39000, 0x097e3ef51348ca5b21262acf6f2b1b460d823587f68554958a45a0bece25c277),
     (63000, 0xcaf2efdffebbc6b959e8c859b7b6eaa1b9c36bf6c15b1d63640f2d268dd52c83),
     (87500, 0xf66088039152f8da7b0f7ee883e95e46855bdcc0828199f090344584b5bcefa6)]"

definition mapCheckpointsTestnet :: "(int \<times> uint256) list" where
  "mapCheckpointsTestnet = [(0, hashGenesisBlockTestNet)]"

definition checkpoints :: "bool \<Rightarrow> (int \<times> uint256) list" where
  "checkpoints fTest = (if fTest then mapCheckpointsTestnet else mapCheckpoints)"

definition CheckHardened :: "bool \<Rightarrow> int \<Rightarrow> uint256 \<Rightarrow> bool" where
  "CheckHardened fTest h hash = (case map_of (checkpoints fTest) h of None \<Rightarrow> True | Some i \<Rightarrow> hash = i)"

definition GetTotalBlocksEstimate :: "bool \<Rightarrow> int" where
  "GetTotalBlocksEstimate fTest = fst (List.last (checkpoints fTest))"

definition GetLastCheckpoint :: "bool \<Rightarrow> block_tree \<Rightarrow> uint256 option" where
  "GetLastCheckpoint fTest M = List.find (\<lambda>hash. M hash \<noteq> None) (map snd (rev (checkpoints fTest)))"

section \<open>The synchronized checkpoint\<close>

record CSyncCheckpoint =
  cp_nVersion :: u32
  cp_hashCheckpoint :: uint256
  cp_vchMsg :: "byte list"
  cp_vchSig :: "byte list"

definition CSyncCheckpoint_null :: CSyncCheckpoint where
  "CSyncCheckpoint_null = \<lparr> cp_nVersion = 1, cp_hashCheckpoint = 0, cp_vchMsg = [], cp_vchSig = [] \<rparr>"

definition unser_CUnsignedSyncCheckpoint :: "byte list \<Rightarrow> ((u32 \<times> uint256) \<times> byte list) option" where
  "unser_CUnsignedSyncCheckpoint bs = do { (nVersion, r1) \<leftarrow> unser_word bs; (h, r2) \<leftarrow> unser_word r1; Some ((nVersion, h), r2) }"

definition strMasterPubKey :: "byte list" where
  "strMasterPubKey =
    [0x04, 0x4a, 0xcd, 0x64, 0xa1, 0xc6, 0x2f, 0x42, 0xb0, 0xb2, 0xec, 0x0b, 0xf4, 0x13, 0x23,
     0x28, 0x09, 0x4c, 0xa1, 0x58, 0xa1, 0xeb, 0x27, 0x6b, 0xaf, 0x87, 0x6c, 0x88, 0x28, 0x8f,
     0x34, 0x41, 0x4f, 0xf3, 0xe0, 0xba, 0xfa, 0x48, 0x51, 0xb6, 0x92, 0xab, 0xaf, 0xdf, 0xd9,
     0xa5, 0x82, 0x8b, 0x1a, 0xf1, 0xe2, 0x80, 0x33, 0xf0, 0x86, 0x51, 0x62, 0x64, 0xca, 0x90,
     0x68, 0x78, 0xf1, 0xad, 0x2c]"

text \<open>A verified message is unserialized into its own fields; a message that is too short throws.\<close>

definition CheckSignature :: "script_lib \<Rightarrow> CSyncCheckpoint \<Rightarrow> CSyncCheckpoint checked" where
  "CheckSignature L m =
     (if \<not> s_verify L strMasterPubKey (Hash (s_hash L) (cp_vchMsg m)) (cp_vchSig m) then Inl (DoS 0 ''verify signature failed'')
      else case unser_CUnsignedSyncCheckpoint (cp_vchMsg m) of
        None \<Rightarrow> Inl (Throw ''end of data'')
      | Some ((nVersion, h), _) \<Rightarrow> Inr (m\<lparr> cp_nVersion := nVersion, cp_hashCheckpoint := h \<rparr>))"

record sync_state =
  hashSyncCheckpoint :: uint256
  hashPendingCheckpoint :: uint256
  checkpointMessage :: CSyncCheckpoint
  checkpointMessagePending :: CSyncCheckpoint
  hashInvalidCheckpoint :: uint256

definition sync_init :: sync_state where
  "sync_init = \<lparr> hashSyncCheckpoint = 0xf66088039152f8da7b0f7ee883e95e46855bdcc0828199f090344584b5bcefa6,
     hashPendingCheckpoint = 0xf66088039152f8da7b0f7ee883e95e46855bdcc0828199f090344584b5bcefa6,
     checkpointMessage = CSyncCheckpoint_null, checkpointMessagePending = CSyncCheckpoint_null, hashInvalidCheckpoint = 0 \<rparr>"

definition GetLastSyncCheckpoint :: "block_tree \<Rightarrow> sync_state \<Rightarrow> uint256 option" where
  "GetLastSyncCheckpoint M ss = (if M (hashSyncCheckpoint ss) = None then None else Some (hashSyncCheckpoint ss))"

text \<open>
  The loops that trace back from a block to a height; running out of ancestors is the empty chain.  \<open>ValidateSyncCheckpoint\<close> answers
  whether a checkpoint may replace the current one, and records a conflicting one as invalid.
\<close>

fun trace_back :: "int \<Rightarrow> chain \<Rightarrow> chain" where
  "trace_back h [] = []"
| "trace_back h (p # r) = (if nHeight p > h then trace_back h r else p # r)"

definition ValidateSyncCheckpoint :: "block_tree \<Rightarrow> uint256 \<Rightarrow> sync_state \<Rightarrow> bool \<times> sync_state" where
  "ValidateSyncCheckpoint M hashCheckpoint ss =
     (case (M (hashSyncCheckpoint ss), M hashCheckpoint) of
        (Some ndSync, Some ndRecv) \<Rightarrow>
          (if nHeight (node_bi ndRecv) \<le> nHeight (node_bi ndSync)
           then (case trace_back (nHeight (node_bi ndRecv)) (chain_of M (hashSyncCheckpoint ss)) of
                   [] \<Rightarrow> (False, ss)
                 | p # _ \<Rightarrow> if phashBlock p \<noteq> hashCheckpoint then (False, ss\<lparr> hashInvalidCheckpoint := hashCheckpoint \<rparr>) else (False, ss))
           else (case trace_back (nHeight (node_bi ndSync)) (chain_of M hashCheckpoint) of
                   [] \<Rightarrow> (False, ss)
                 | p # _ \<Rightarrow> if phashBlock p \<noteq> hashSyncCheckpoint ss then (False, ss\<lparr> hashInvalidCheckpoint := hashCheckpoint \<rparr>) else (True, ss)))
      | _ \<Rightarrow> (False, ss))"

text \<open>\<open>CheckSync\<close> asserts that the checkpoint is in the index: without it there is no result.\<close>

definition CheckSync :: "bool \<Rightarrow> block_tree \<Rightarrow> sync_state \<Rightarrow> uint256 \<Rightarrow> uint256 \<Rightarrow> bool option" where
  "CheckSync fTest M ss hashBlock hashPrev =
     (if fTest then Some True
      else case (M (hashSyncCheckpoint ss), M hashPrev) of
        (Some ndSync, Some ndPrev) \<Rightarrow>
          (let nHeightNew = nHeight (node_bi ndPrev) + 1; hSync = nHeight (node_bi ndSync) in
           if nHeightNew > hSync
           then (case trace_back hSync (chain_of M hashPrev) of
                   [] \<Rightarrow> Some False
                 | p # _ \<Rightarrow> Some (\<not> (nHeight p < hSync \<or> phashBlock p \<noteq> hashSyncCheckpoint ss)))
           else if nHeightNew = hSync \<and> hashBlock \<noteq> hashSyncCheckpoint ss then Some False
           else if nHeightNew < hSync \<and> M hashBlock = None then Some False
           else Some True)
      | _ \<Rightarrow> None)"

definition CHECKPOINT_MAX_SPAN :: int where
  "CHECKPOINT_MAX_SPAN = 60 * 60"

fun auto_select :: "CBlockIndex \<Rightarrow> chain \<Rightarrow> CBlockIndex option" where
  "auto_select best [] = None"
| "auto_select best (p # r) =
     (if r \<noteq> [] \<and> (bi_GetBlockTime p + CHECKPOINT_MAX_SPAN > bi_GetBlockTime best \<or> nHeight p + 8 > nHeight best)
      then auto_select best r else Some p)"

definition AutoSelectSyncCheckpoint :: "chain \<Rightarrow> uint256 option" where
  "AutoSelectSyncCheckpoint c = (case c of [] \<Rightarrow> None | best # _ \<Rightarrow> map_option phashBlock (auto_select best c))"

definition IsMatureSyncCheckpoint :: "block_tree \<Rightarrow> sync_state \<Rightarrow> int \<Rightarrow> params \<Rightarrow> int \<Rightarrow> bool option" where
  "IsMatureSyncCheckpoint M ss nBestHeight P adjustedTime =
     (case M (hashSyncCheckpoint ss) of None \<Rightarrow> None
      | Some nd \<Rightarrow> Some (nBestHeight \<ge> nHeight (node_bi nd) + nCoinbaseMaturity P
          \<or> bi_GetBlockTime (node_bi nd) + nStakeMinAge P < adjustedTime))"



section \<open>Only descendants of the checkpoint\<close>

lemma trace_back_lower: "trace_back h c = lower h c"
  by (induction c) (auto simp: lower_def)

lemma trace_back_hits:
  assumes "tree_inv M" "M b \<noteq> None" "M k \<noteq> None" "height M k \<le> height M b"
  shows "\<exists>p r. trace_back (height M k) (chain_of M b) = p # r \<and> nHeight p = height M k \<and> (phashBlock p = k \<longleftrightarrow> k \<in> set (path M b))"
proof -
  obtain b' ys where b': "M b' \<noteq> None" "lower (height M k) (chain_of M b) = chain_of M b'" "height M b' = height M k"
    "chain_of M b = ys @ chain_of M b'"
    using lower_chain [OF assms(1,2) height_nonneg [OF assms(1,3)]] assms(4) by (metis min.absorb1)
  obtain nd where nd: "M b' = Some nd" using b'(1) by blast
  have mem: "b' \<in> set (path M b)" using b'(4) path_unfold [OF assms(1) b'(1)] by simp
  have "b' = k \<longleftrightarrow> k \<in> set (path M b)" using path_unique [OF assms(1,2) mem] b'(3) mem by blast
  moreover have "chain_of M b' = node_bi nd # tl (chain_of M b')" "phashBlock (node_bi nd) = b'" "nHeight (node_bi nd) = height M b'"
    using chain_unfold [OF assms(1) nd] tree_invD(1) [OF assms(1) nd] nd by (simp_all add: height_def)
  ultimately show ?thesis using b'(2,3) unfolding trace_back_lower by metis
qed

text \<open>A block of the index that is strictly above another block on its chain.\<close>

definition descends :: "block_tree \<Rightarrow> uint256 \<Rightarrow> uint256 \<Rightarrow> bool" where
  "descends M k a \<longleftrightarrow> M k \<noteq> None \<and> k \<noteq> a \<and> a \<in> set (map phashBlock (chain_of M k))"

lemma path_below: "tree_inv M \<Longrightarrow> M b \<noteq> None \<Longrightarrow> k \<in> set (path M b) \<Longrightarrow> height M k \<le> height M b"
  using path_mem by blast

lemma CheckSync_iff:
  assumes "tree_inv M" "M (hashSyncCheckpoint ss) \<noteq> None" "M hashPrev \<noteq> None"
  shows "CheckSync False M ss hashBlock hashPrev = Some (hashSyncCheckpoint ss \<in> set (map phashBlock (chain_of M hashPrev))
      \<or> height M hashPrev + 1 = height M (hashSyncCheckpoint ss) \<and> hashBlock = hashSyncCheckpoint ss
      \<or> height M hashPrev + 1 < height M (hashSyncCheckpoint ss) \<and> M hashBlock \<noteq> None)"
proof -
  let ?s = "hashSyncCheckpoint ss"
  obtain ns np where n: "M ?s = Some ns" "M hashPrev = Some np" "nHeight (node_bi ns) = height M ?s" "nHeight (node_bi np) = height M hashPrev"
    using assms(2,3) by (auto simp: height_def)
  show ?thesis
  proof (cases "height M ?s \<le> height M hashPrev")
    case True
    from trace_back_hits [OF assms(1,3,2) this] show ?thesis using True n by (auto simp: CheckSync_def Let_def)
  next
    case False
    then show ?thesis using n path_below [OF assms(1,3), of ?s] by (auto simp: CheckSync_def Let_def)
  qed
qed

lemma ValidateSyncCheckpoint_iff:
  assumes "tree_inv M" "M (hashSyncCheckpoint ss) \<noteq> None"
  shows "fst (ValidateSyncCheckpoint M hashCheckpoint ss) \<longleftrightarrow> descends M hashCheckpoint (hashSyncCheckpoint ss)"
proof (cases "M hashCheckpoint")
  case None
  then show ?thesis using assms(2) by (auto simp: ValidateSyncCheckpoint_def descends_def)
next
  case (Some nc)
  let ?s = "hashSyncCheckpoint ss"
  obtain ns where n: "M ?s = Some ns" "nHeight (node_bi ns) = height M ?s" using assms(2) by (auto simp: height_def)
  have c: "M hashCheckpoint \<noteq> None" "nHeight (node_bi nc) = height M hashCheckpoint" using Some by (simp_all add: height_def)
  show ?thesis
  proof (cases "height M hashCheckpoint \<le> height M ?s")
    case True
    have "hashCheckpoint \<in> set (path M hashCheckpoint)" using path_unfold [OF assms(1) c(1)] by simp
    then have "?s \<in> set (path M hashCheckpoint) \<Longrightarrow> ?s = hashCheckpoint"
      using path_unique [OF assms(1) c(1), of ?s hashCheckpoint] path_below [OF assms(1) c(1), of ?s] True by simp
    then show ?thesis using True n c Some by (auto simp: ValidateSyncCheckpoint_def descends_def split: list.splits)
  next
    case False
    then have "hashCheckpoint \<noteq> ?s" by auto
    moreover from trace_back_hits [OF assms(1) c(1) assms(2)] False obtain p r where "trace_back (height M ?s) (chain_of M hashCheckpoint) = p # r"
      "phashBlock p = ?s \<longleftrightarrow> ?s \<in> set (path M hashCheckpoint)" by auto
    ultimately show ?thesis using False n c Some by (simp add: ValidateSyncCheckpoint_def descends_def)
  qed
qed

text \<open>Validating changes only the record of the last conflicting checkpoint.\<close>

lemma ValidateSyncCheckpoint_state:
  "ValidateSyncCheckpoint M k ss = (ok, ss') \<Longrightarrow> \<exists>i. ss' = ss\<lparr> hashInvalidCheckpoint := i \<rparr>"
proof -
  assume v: "ValidateSyncCheckpoint M k ss = (ok, ss')"
  have "ss' = ss \<or> ss' = ss\<lparr> hashInvalidCheckpoint := k \<rparr>"
    using v by (auto simp: ValidateSyncCheckpoint_def split: option.splits list.splits if_splits)
  then show ?thesis by (elim disjE) (auto intro: exI [of _ "hashInvalidCheckpoint ss"])
qed

definition sample_tree :: block_tree where
  "sample_tree = [0 \<mapsto> \<lparr> node_bi = sample_index 0 1432620000 0, pprev = None, pnext = Some 1 \<rparr>,
     1 \<mapsto> \<lparr> node_bi = sample_index 1 1432620100 0, pprev = Some 0, pnext = Some 2 \<rparr>,
     2 \<mapsto> \<lparr> node_bi = sample_index 2 1432620300 0, pprev = Some 1, pnext = None \<rparr>]"

lemma sample_tree_inv: "tree_inv sample_tree"
  by (auto simp: tree_inv_def sample_tree_def sample_index_def height_def)

end
