(* ===== verification/BestChain.thy ===== *)
theory BestChain
  imports Checkpoints Mempool
begin

text \<open>
  The best chain (\<open>main.cpp\<close>): \<open>Reorganize\<close>, \<open>CBlock::SetBestChainInner\<close>, \<open>CBlock::SetBestChain\<close> and \<open>InvalidChainFound\<close>, over the
  state of the node: the block index, the best block, the memory pool and the database.  The functions return the state also
  when they fail, because a failed reorganisation leaves changes in memory.  Notifications of the wallets and of the
  user interface, the warning about new block versions and the command run for a new block are left out.
\<close>

section \<open>State\<close>

record 'd chain_env =
  xe_block :: block_env
  xe_pool :: "'d pool_env"
  xe_fast :: bool

record 'd node =
  mapBlockIndex :: block_tree
  pindexGenesisBlock :: "uint256 option"
  pindexBest :: "uint256 option"
  hashBestChain :: uint256
  nBestHeight :: int
  nBestChainTrust :: uint256
  nBestInvalidTrust :: uint256
  nTimeBestReceived :: int
  setStakeSeen :: "(COutPoint \<times> u32) set"
  mempool :: CTxMemPool
  free_limit :: "'d \<times> int"
  mapTurbo :: turbo_cache
  pblockindexFBBHLast :: "uint256 option"
  txdb :: CTxDB

abbreviation (input) xe_kernel :: "'d chain_env \<Rightarrow> kernel_env" where "xe_kernel E \<equiv> be_kernel (xe_block E)"
abbreviation (input) xe_hash :: "'d chain_env \<Rightarrow> hash_lib" where "xe_hash E \<equiv> s_hash (ke_lib (xe_kernel E))"
abbreviation (input) xe_test :: "'d chain_env \<Rightarrow> bool" where "xe_test E \<equiv> fTestNet (ke_params (xe_kernel E))"
abbreviation (input) block_hash :: "'d chain_env \<Rightarrow> CBlock \<Rightarrow> uint256" where
  "block_hash E b \<equiv> CBlock_GetHash (xe_hash E) (ke_hash9 (xe_kernel E)) b"

definition genesis_hash :: "bool \<Rightarrow> uint256" where
  "genesis_hash fTest = (if fTest then hashGenesisBlockTestNet else hashGenesisBlock)"

text \<open>What \<open>ConnectBlock\<close> reads of the state: the pool, and whether signatures are checked.\<close>

definition state_env :: "'d chain_env \<Rightarrow> 'd node \<Rightarrow> block_env" where
  "state_env E s = (xe_block E)\<lparr> be_pool := pool_lookup (mempool s),
     be_connect := (be_connect (xe_block E))\<lparr> ce_skip_sigs := nBestHeight s < GetTotalBlocksEstimate (xe_test E) \<rparr> \<rparr>"

definition write_index :: "'d chain_env \<Rightarrow> CDiskBlockIndex \<Rightarrow> CTxDB \<Rightarrow> (bool \<times> CTxDB) option" where
  "write_index E = WriteBlockIndex (xe_hash E) (ke_hash9 (xe_kernel E)) (xe_fast E) (be_time (xe_block E))"

definition ReadFromDisk :: "'d chain_env \<Rightarrow> CBlockIndex \<Rightarrow> CBlock option" where
  "ReadFromDisk E p = (case be_blk (xe_block E) (nFile p) (nBlockPos p) of None \<Rightarrow> None
     | Some b \<Rightarrow> if block_hash E b \<noteq> phashBlock p then None else Some b)"

section \<open>Reorganisation\<close>

definition to_resurrect :: "'d chain_env \<Rightarrow> CBlockIndex \<Rightarrow> CBlock \<Rightarrow> CTransaction list" where
  "to_resurrect E p b = (if nHeight p > GetTotalBlocksEstimate (xe_test E)
     then filter (\<lambda>tx. \<not> (IsCoinBase tx \<or> IsCoinStake tx)) (vtx b) else [])"

fun reorg_disconnect :: "'d chain_env \<Rightarrow> uint256 list \<Rightarrow> CTransaction list \<Rightarrow> 'd node \<Rightarrow> CTransaction list checked \<times> 'd node" where
  "reorg_disconnect E [] vResurrect s = (Inr vResurrect, s)"
| "reorg_disconnect E (h # r) vResurrect s =
     (let c = chain_of (mapBlockIndex s) h in
      case ReadFromDisk E (hd c) of None \<Rightarrow> (Inl (DoS 0 ''ReadFromDisk for disconnect failed''), s)
      | Some b \<Rightarrow>
        case DisconnectBlock (xe_hash E) ReadTxIndex UpdateTxIndex EraseTxIndex (write_index E) c b (txdb s) of
          Inl v \<Rightarrow> (Inl (tx_fail v), s)
        | Inr db \<Rightarrow> reorg_disconnect E r (to_resurrect E (hd c) b @ vResurrect) (s\<lparr> txdb := db \<rparr>))"

definition connect_at :: "'d chain_env \<Rightarrow> uint256 \<Rightarrow> CBlock \<Rightarrow> 'd node \<Rightarrow> unit checked \<times> 'd node" where
  "connect_at E h b s =
     (case ConnectBlock (state_env E s) ReadTxIndex UpdateTxIndex (write_index E) (chain_of (mapBlockIndex s) h)
             (next_hash (mapBlockIndex s) h) False b (mapTurbo s) (txdb s) of
        (Inl v, cache) \<Rightarrow> (Inl v, s\<lparr> mapTurbo := cache \<rparr>)
      | (Inr (p, db), cache) \<Rightarrow> (Inr (), s\<lparr> mapBlockIndex := set_bi h p (mapBlockIndex s), mapTurbo := cache, txdb := db \<rparr>))"

fun reorg_connect :: "'d chain_env \<Rightarrow> uint256 list \<Rightarrow> CTransaction list \<Rightarrow> 'd node \<Rightarrow> CTransaction list checked \<times> 'd node" where
  "reorg_connect E [] vDelete s = (Inr vDelete, s)"
| "reorg_connect E (h # r) vDelete s =
     (case ReadFromDisk E (hd (chain_of (mapBlockIndex s) h)) of None \<Rightarrow> (Inl (DoS 0 ''ReadFromDisk for connect failed''), s)
      | Some b \<Rightarrow>
        case connect_at E h b s of
          (Inl v, s') \<Rightarrow> (Inl (tx_fail v), s')
        | (Inr _, s') \<Rightarrow> reorg_connect E r (vDelete @ vtx b) s')"

text \<open>Recording the new best block and committing; a failed assertion of the database is \<open>Throw\<close>.\<close>

definition commit_db :: "'d node \<Rightarrow> unit checked \<times> 'd node" where
  "commit_db s = (case TxnCommit (txdb s) of None \<Rightarrow> (Inl (Throw ''assert(activeBatch)''), s)
     | Some (ok, db) \<Rightarrow> (if ok then Inr () else Inl (DoS 0 ''TxnCommit failed''), s\<lparr> txdb := db \<rparr>))"

definition write_best :: "uint256 \<Rightarrow> 'd node \<Rightarrow> unit checked \<times> 'd node" where
  "write_best h s = (case WriteHashBestChain h (txdb s) of None \<Rightarrow> (Inl (Throw ''assert''), s)
     | Some (ok, db) \<Rightarrow> (if ok then Inr () else Inl (DoS 0 ''WriteHashBestChain failed''), s\<lparr> txdb := db \<rparr>))"

fun resurrect :: "'d chain_env \<Rightarrow> CTransaction list \<Rightarrow> 'd node \<Rightarrow> 'd node" where
  "resurrect E [] s = s"
| "resurrect E (tx # r) s =
     (case accept (xe_pool E) (ReadTxIndex (txdb s)) (\<lambda>h. ContainsTx h (txdb s)) (case pindexBest s of None \<Rightarrow> [] | Some h \<Rightarrow> chain_of (mapBlockIndex s) h)
             False tx (mempool s) (free_limit s) of
        (Inl _, lm) \<Rightarrow> resurrect E r (s\<lparr> free_limit := lm \<rparr>)
      | (Inr p, lm) \<Rightarrow> resurrect E r (s\<lparr> mempool := p, free_limit := lm \<rparr>))"

fun delete_txs :: "hash_lib \<Rightarrow> bool \<Rightarrow> CTransaction list \<Rightarrow> CTxMemPool \<Rightarrow> CTxMemPool option" where
  "delete_txs H conflicting [] p = Some p"
| "delete_txs H conflicting (tx # r) p = do {
     p1 \<leftarrow> pool_remove H tx False p;
     p2 \<leftarrow> (if conflicting then removeConflicts H tx p1 else Some p1);
     delete_txs H conflicting r p2 }"

definition delete_from_pool :: "'d chain_env \<Rightarrow> bool \<Rightarrow> CTransaction list \<Rightarrow> 'd node \<Rightarrow> unit checked \<times> 'd node" where
  "delete_from_pool E conflicting txs s = (case delete_txs (pe_hash (xe_pool E)) conflicting txs (mempool s) of
     None \<Rightarrow> (Inl (Throw ''dangling pointer''), s) | Some p \<Rightarrow> (Inr (), s\<lparr> mempool := p \<rparr>))"

definition Reorganize :: "'d chain_env \<Rightarrow> uint256 \<Rightarrow> 'd node \<Rightarrow> unit checked \<times> 'd node" where
  "Reorganize E hNew s =
     (case pindexBest s of None \<Rightarrow> (Inl (Throw ''null pindexBest''), s) | Some hBest \<Rightarrow>
      let cBest = chain_of (mapBlockIndex s) hBest; cNew = chain_of (mapBlockIndex s) hNew in
      case find_fork cBest cNew of None \<Rightarrow> (Inl (DoS 0 ''pprev is null''), s) | Some pfork \<Rightarrow>
      let vDisconnect = above pfork cBest; vConnect = rev (above pfork cNew) in
      case reorg_disconnect E vDisconnect [] s of (Inl v, s1) \<Rightarrow> (Inl v, s1) | (Inr vResurrect, s1) \<Rightarrow>
      case reorg_connect E vConnect [] s1 of (Inl v, s2) \<Rightarrow> (Inl v, s2) | (Inr vDelete, s2) \<Rightarrow>
      case write_best hNew s2 of (Inl v, s3) \<Rightarrow> (Inl v, s3) | (Inr _, s3) \<Rightarrow>
      case commit_db s3 of (Inl v, s4) \<Rightarrow> (Inl v, s4) | (Inr _, s4) \<Rightarrow>
        delete_from_pool E True vDelete
          (resurrect E vResurrect (s4\<lparr> mapBlockIndex := relink vDisconnect vConnect (mapBlockIndex s4) \<rparr>)))"

section \<open>Setting the best chain\<close>

definition invalid_key :: "byte list" where
  "invalid_key = ser_string (str_bytes ''bnBestInvalidTrust'')"

definition WriteBestInvalidTrust :: "bn_lib \<Rightarrow> int \<Rightarrow> CTxDB \<Rightarrow> (bool \<times> CTxDB) option" where
  "WriteBestInvalidTrust L n db = db_Write invalid_key (ser_bytes (getvch L n)) db"

text \<open>The database is written through an object of its own, without a transaction.\<close>

definition InvalidChainFound :: "'d chain_env \<Rightarrow> uint256 \<Rightarrow> 'd node \<Rightarrow> 'd node" where
  "InvalidChainFound E h s =
     (let trust = nChainTrust (hd (chain_of (mapBlockIndex s) h)) in
      if trust > nBestInvalidTrust s
      then s\<lparr> nBestInvalidTrust := trust,
             txdb := (case WriteBestInvalidTrust (ke_bn (xe_kernel E)) (uint trust) (txdb s) of None \<Rightarrow> txdb s | Some (_, db) \<Rightarrow> db) \<rparr>
      else s)"

definition abort_db :: "'d node \<Rightarrow> 'd node" where
  "abort_db s = s\<lparr> txdb := snd (TxnAbort (txdb s)) \<rparr>"

text \<open>The destructor of \<open>CTxDB\<close>, which runs when the object of the caller goes out of scope.\<close>

definition drop_batch :: "'d node \<Rightarrow> 'd node" where
  "drop_batch s = s\<lparr> txdb := (txdb s)\<lparr> activeBatch := None \<rparr> \<rparr>"

definition begin_db :: "'d node \<Rightarrow> unit checked \<times> 'd node" where
  "begin_db s = (case TxnBegin (txdb s) of None \<Rightarrow> (Inl (Throw ''assert(!activeBatch)''), s)
     | Some (ok, db) \<Rightarrow> (if ok then Inr () else Inl (DoS 0 ''TxnBegin failed''), s\<lparr> txdb := db \<rparr>))"

definition SetBestChainInner :: "'d chain_env \<Rightarrow> CBlock \<Rightarrow> uint256 \<Rightarrow> 'd node \<Rightarrow> unit checked \<times> 'd node" where
  "SetBestChainInner E b h s =
     (case (case connect_at E h b s of (Inl v, s1) \<Rightarrow> (Inl v, s1) | (Inr _, s1) \<Rightarrow> write_best (block_hash E b) s1) of
        (Inl v, s1) \<Rightarrow> (Inl v, if thrown v then s1 else InvalidChainFound E h (abort_db s1))
      | (Inr _, s1) \<Rightarrow>
          case commit_db s1 of (Inl v, s2) \<Rightarrow> (Inl v, s2) | (Inr _, s2) \<Rightarrow>
            delete_from_pool E False (vtx b) (s2\<lparr> mapBlockIndex := link (mapBlockIndex s2) h \<rparr>))"

fun connect_further :: "'d chain_env \<Rightarrow> uint256 list \<Rightarrow> 'd node \<Rightarrow> unit checked \<times> 'd node" where
  "connect_further E [] s = (Inr (), s)"
| "connect_further E (h # r) s =
     (case ReadFromDisk E (hd (chain_of (mapBlockIndex s) h)) of None \<Rightarrow> (Inr (), s)
      | Some b \<Rightarrow>
        case begin_db s of (Inl v, s1) \<Rightarrow> (if thrown v then Inl v else Inr (), s1) | (Inr _, s1) \<Rightarrow>
        case SetBestChainInner E b h s1 of (Inl v, s2) \<Rightarrow> (if thrown v then Inl v else Inr (), s2) | (Inr _, s2) \<Rightarrow> connect_further E r s2)"

definition set_best :: "'d chain_env \<Rightarrow> uint256 \<Rightarrow> uint256 \<Rightarrow> 'd node \<Rightarrow> 'd node" where
  "set_best E hash h s =
     (let p = hd (chain_of (mapBlockIndex s) h) in
      s\<lparr> hashBestChain := hash, pindexBest := Some h, nBestHeight := nHeight p, nBestChainTrust := nChainTrust p,
         pblockindexFBBHLast := None, nTimeBestReceived := pe_now (xe_pool E), mempool := (mempool s)\<lparr> nTransactionsUpdated := nTransactionsUpdated (mempool s) + 1 \<rparr> \<rparr>)"

definition switch_chain :: "'d chain_env \<Rightarrow> uint256 \<Rightarrow> 'd node \<Rightarrow> unit checked \<times> 'd node" where
  "switch_chain E h s =
     (case pindexBest s of None \<Rightarrow> (Inl (Throw ''null pindexBest''), s) | Some hBest \<Rightarrow>
      case postpone (nChainTrust (hd (chain_of (mapBlockIndex s) hBest))) (chain_of (mapBlockIndex s) h) of (cIntermediate, vSecondary) \<Rightarrow>
      case Reorganize E (phashBlock (hd cIntermediate)) s of
        (Inl v, s1) \<Rightarrow> (Inl v, if thrown v then s1 else InvalidChainFound E h (abort_db s1))
      | (Inr _, s1) \<Rightarrow> connect_further E (rev vSecondary) s1)"

definition SetBestChain :: "'d chain_env \<Rightarrow> CBlock \<Rightarrow> uint256 \<Rightarrow> 'd node \<Rightarrow> unit checked \<times> 'd node" where
  "SetBestChain E b h s =
     (let hash = block_hash E b in
      case begin_db s of (Inl v, s0) \<Rightarrow> (Inl v, s0) | (Inr _, s0) \<Rightarrow>
      case (if pindexGenesisBlock s0 = None \<and> hash = genesis_hash (xe_test E)
            then (case commit_db (snd (write_best hash s0)) of (Inl v, s1) \<Rightarrow> (Inl v, s1) | (Inr _, s1) \<Rightarrow> (Inr (), s1\<lparr> pindexGenesisBlock := Some h \<rparr>))
            else if hashPrevBlock b = hashBestChain s0 then SetBestChainInner E b h s0
            else switch_chain E h s0) of
        (Inl v, s1) \<Rightarrow> (Inl v, s1)
      | (Inr _, s1) \<Rightarrow> (Inr (), set_best E hash h s1))"


section \<open>Trees up to mint and \<open>pnext\<close>\<close>

text \<open>Connecting a block records its mint in the index; this and the \<open>pnext\<close> pointers do not change the shape of the tree.\<close>

definition bare_bi :: "CBlockIndex \<Rightarrow> CBlockIndex" where
  "bare_bi p = p\<lparr> nMint := 0, nMoneySupply := 0 \<rparr>"

definition bare :: "block_tree \<Rightarrow> block_tree" where
  "bare M h = map_option (\<lambda>nd. \<lparr> node_bi = bare_bi (node_bi nd), pprev = pprev nd, pnext = None \<rparr>) (M h)"

lemma bare_bi_sel [simp]: "phashBlock (bare_bi p) = phashBlock p" "nHeight (bare_bi p) = nHeight p" "nFile (bare_bi p) = nFile p"
  "nBlockPos (bare_bi p) = nBlockPos p" "nChainTrust (bare_bi p) = nChainTrust p"
  by (simp_all add: bare_bi_def)

lemma bare_bi_mint [simp]: "bare_bi (with_mint c t) = bare_bi (hd c)"
  by (simp add: bare_bi_def with_mint_def)

lemma ReadFromDisk_bare [simp]: "ReadFromDisk E (bare_bi p) = ReadFromDisk E p"
  by (simp add: ReadFromDisk_def cong: option.case_cong)

lemma parent_bare [simp]: "parent (bare M) h = parent M h"
  by (auto simp: parent_def bare_def split: option.splits)

lemma height_bare [simp]: "height (bare M) h = height M h"
  by (auto simp: height_def bare_def split: option.splits)

lemma bare_None [simp]: "bare M h = None \<longleftrightarrow> M h = None"
  by (simp add: bare_def)

lemma tree_inv_bare [simp]: "tree_inv (bare M) \<longleftrightarrow> tree_inv M"
proof -
  have all: "(\<forall>nd. bare M h = Some nd \<longrightarrow> Q nd) \<longleftrightarrow> (\<forall>nd. M h = Some nd \<longrightarrow> Q \<lparr> node_bi = bare_bi (node_bi nd), pprev = pprev nd, pnext = None \<rparr>)" for h Q
    by (cases "M h") (simp_all add: bare_def)
  show ?thesis unfolding tree_inv_def height_bare all bare_None by (simp cong: option.case_cong)
qed

lemma ancestors_bare: "ancestors n (bare M) h = map bare_bi (ancestors n M h)"
  by (induction n arbitrary: h) (auto simp: bare_def split: option.splits)

lemma chain_bare: "chain_of (bare M) h = map bare_bi (chain_of M h)"
proof (cases "M h")
  case (Some nd)
  then have "bare M h = Some \<lparr> node_bi = bare_bi (node_bi nd), pprev = pprev nd, pnext = None \<rparr>" by (simp add: bare_def)
  then show ?thesis using Some ancestors_bare by (simp add: chain_of_def del: ancestors.simps)
qed (simp add: chain_of_def bare_def)

lemma path_bare [simp]: "path (bare M) h = path M h"
  by (simp add: chain_bare)

lemma bare_node:
  assumes "bare M = bare M'" "M h = Some nd"
  shows "\<exists>nd'. M' h = Some nd' \<and> pprev nd' = pprev nd \<and> bare_bi (node_bi nd') = bare_bi (node_bi nd)"
  using fun_cong [OF assms(1), of h] assms(2) by (cases "M' h") (simp_all add: bare_def)

lemma bare_tree:
  assumes "bare M = bare M'"
  shows "tree_inv M' = tree_inv M" "path M' h = path M h" "parent M' h = parent M h" "height M' h = height M h" "M' h = None \<longleftrightarrow> M h = None"
  using assms by (metis tree_inv_bare, metis path_bare, metis parent_bare, metis height_bare, metis bare_None)

lemma bare_same_tree: "same_tree M M' \<Longrightarrow> bare M = bare M'"
proof
  fix h assume "same_tree M M'"
  then have "map_option (\<lambda>nd. (node_bi nd, pprev nd)) (M h) = map_option (\<lambda>nd. (node_bi nd, pprev nd)) (M' h)" by (simp add: same_tree_def)
  then show "bare M h = bare M' h" by (cases "M h"; cases "M' h") (simp_all add: bare_def)
qed

lemma bare_set_bi: "M h = Some nd \<Longrightarrow> bare_bi p = bare_bi (node_bi nd) \<Longrightarrow> bare (set_bi h p M) = bare M"
  by (auto simp: bare_def set_bi_def fun_eq_iff)

lemma next_of_set_bi: "next_of (set_bi h p M) = next_of M"
  by (auto simp: next_of_def set_bi_def fun_eq_iff split: option.splits)

lemma pnext_inv_cong: "bare M = bare M' \<Longrightarrow> next_of M' = next_of M \<Longrightarrow> pnext_inv M' a = pnext_inv M a"
  unfolding pnext_inv_def by (simp only: bare_tree(2,3) [of M M'])

section \<open>The ledger of a chain\<close>

text \<open>
  \<open>ledger_at E M h V\<close>: connecting the blocks from the genesis block, whose transactions are not indexed, up to the block \<open>h\<close>
  gives the transaction index \<open>V\<close>, in which every transaction is recorded at its position in the block file.
\<close>

definition in_place :: "'d chain_env \<Rightarrow> CBlockIndex \<Rightarrow> CBlock \<Rightarrow> ledger \<Rightarrow> ledger \<Rightarrow> bool" where
  "in_place E p b V V' \<longleftrightarrow> placed (xe_hash E) (nFile p) (nBlockPos p) (first_tx_pos [p] False b) (vtx b) V V'"

lemma in_place_connected: "in_place E p b V V' \<Longrightarrow> nFile p \<noteq> -1 \<Longrightarrow> connected (xe_hash E) (vtx b) V V'"
  by (simp add: in_place_def placed_connected)

lemma in_place_bare: "in_place E (bare_bi p) b = in_place E p b"
  by (simp add: in_place_def fun_eq_iff first_tx_pos_def)

inductive ledger_at :: "'d chain_env \<Rightarrow> block_tree \<Rightarrow> uint256 \<Rightarrow> ledger \<Rightarrow> bool" for E M where
  ledger_genesis: "M h = Some nd \<Longrightarrow> pprev nd = None \<Longrightarrow> ledger_at E M h Map.empty"
| ledger_block: "M h = Some nd \<Longrightarrow> pprev nd = Some k \<Longrightarrow> ledger_at E M k V \<Longrightarrow> ReadFromDisk E (node_bi nd) = Some b \<Longrightarrow>
    nFile (node_bi nd) \<noteq> -1 \<Longrightarrow> in_place E (node_bi nd) b V V' \<Longrightarrow> distinct (map (GetHash (xe_hash E)) (vtx b)) \<Longrightarrow> ledger_at E M h V'"

lemma ledger_at_step:
  assumes "ledger_at E M h V'" "M h = Some nd" "pprev nd = Some k"
  shows "\<exists>V b. ledger_at E M k V \<and> ReadFromDisk E (node_bi nd) = Some b \<and> connected (xe_hash E) (vtx b) V V' \<and> distinct (map (GetHash (xe_hash E)) (vtx b))"
  using assms(1)
proof (cases rule: ledger_at.cases)
  case (ledger_block nd' k' V b)
  then show ?thesis using assms(2,3) in_place_connected by force
qed (use assms(2,3) in simp)

lemma ledger_at_bare:
  assumes "bare M = bare M'"
  shows "ledger_at E M h V \<Longrightarrow> ledger_at E M' h V"
proof (induction rule: ledger_at.induct)
  case (ledger_genesis h nd)
  then show ?case using bare_node [OF assms] by (metis ledger_at.ledger_genesis)
next
  case (ledger_block h nd k V b V')
  then obtain nd' where "M' h = Some nd'" "pprev nd' = Some k" "bare_bi (node_bi nd') = bare_bi (node_bi nd)" using bare_node [OF assms] by metis
  then show ?case using ledger_block by (metis ledger_at.ledger_block ReadFromDisk_bare in_place_bare bare_bi_sel(3))
qed

lemma connected_canonical: "connected H txs V V' \<Longrightarrow> canonical V \<Longrightarrow> canonical V'"
  by (induction txs arbitrary: V) (auto dest: canonical_add)

lemma connected_dom: "connected H txs V V' \<Longrightarrow> dom V' = dom V \<union> GetHash H ` set txs"
proof (induction txs arbitrary: V)
  case (Cons tx r)
  then obtain p where "connected H r (add_tx H p tx V) V'" by auto
  from Cons(1) [OF this] show ?case by (simp add: dom_add)
qed simp

lemma ledger_canonical: "ledger_at E M h V \<Longrightarrow> canonical V"
  by (induction rule: ledger_at.induct) (auto simp: canonical_def [of Map.empty] dest: connected_canonical in_place_connected)

text \<open>The hashes of the transactions in the blocks of a chain; no block repeats a transaction of one of its ancestors.\<close>

definition tx_ids :: "'d chain_env \<Rightarrow> chain \<Rightarrow> uint256 set" where
  "tx_ids E c = (\<Union>p \<in> set c. case ReadFromDisk E p of None \<Rightarrow> {} | Some b \<Rightarrow> GetHash (xe_hash E) ` set (vtx b))"

definition no_repeats :: "'d chain_env \<Rightarrow> block_tree \<Rightarrow> bool" where
  "no_repeats E M \<longleftrightarrow> (\<forall>h nd k. M h = Some nd \<longrightarrow> pprev nd = Some k \<longrightarrow> tx_ids E [node_bi nd] \<inter> tx_ids E (chain_of M k) = {})"

lemma tx_ids_bare [simp]: "tx_ids E (map bare_bi c) = tx_ids E c"
  by (simp add: tx_ids_def)

lemma no_repeats_bare:
  assumes "bare M = bare M'" "no_repeats E M"
  shows "no_repeats E M'"
  unfolding no_repeats_def
proof (intro allI impI)
  fix h nd k assume n: "M' h = Some nd" "pprev nd = Some k"
  then obtain nd' where nd': "M h = Some nd'" "pprev nd' = Some k" "bare_bi (node_bi nd') = bare_bi (node_bi nd)"
    using bare_node [OF assms(1) [symmetric]] by metis
  have "tx_ids E (chain_of M' k) = tx_ids E (chain_of M k)" using assms(1) by (metis chain_bare tx_ids_bare)
  moreover have "tx_ids E [node_bi nd] = tx_ids E [node_bi nd']" using nd'(3) tx_ids_bare [of E "[node_bi nd]"] tx_ids_bare [of E "[node_bi nd']"] by simp
  ultimately show "tx_ids E [node_bi nd] \<inter> tx_ids E (chain_of M' k) = {}" using assms(2) nd'(1,2) by (simp add: no_repeats_def)
qed

lemma ledger_dom: "ledger_at E M h V \<Longrightarrow> tree_inv M \<Longrightarrow> dom V \<subseteq> tx_ids E (chain_of M h)"
proof (induction rule: ledger_at.induct)
  case (ledger_block h nd k V b V')
  then have c: "chain_of M h = node_bi nd # chain_of M k" by (simp add: chain_unfold)
  have "tx_ids E (chain_of M h) = GetHash (xe_hash E) ` set (vtx b) \<union> tx_ids E (chain_of M k)"
    unfolding c using ledger_block.hyps(4) by (simp add: tx_ids_def)
  then show ?case using ledger_block.IH [OF ledger_block.prems] connected_dom [OF in_place_connected [OF ledger_block.hyps(6,5)]] by auto
qed simp

lemma ledger_fresh:
  assumes "ledger_at E M k V" "tree_inv M" "no_repeats E M" "M h = Some nd" "pprev nd = Some k" "ReadFromDisk E (node_bi nd) = Some b"
  shows "\<forall>tx \<in> set (vtx b). V (GetHash (xe_hash E) tx) = None"
proof
  fix tx assume "tx \<in> set (vtx b)"
  then have "GetHash (xe_hash E) tx \<in> tx_ids E [node_bi nd]" using assms(6) by (simp add: tx_ids_def)
  moreover have "tx_ids E [node_bi nd] \<inter> tx_ids E (chain_of M k) = {}" using assms(3-5) by (simp add: no_repeats_def)
  ultimately have "GetHash (xe_hash E) tx \<notin> dom V" using ledger_dom [OF assms(1,2)] by blast
  then show "V (GetHash (xe_hash E) tx) = None" by blast
qed

section \<open>Disconnecting and connecting a branch\<close>

fun climbs :: "block_tree \<Rightarrow> uint256 \<Rightarrow> uint256 list \<Rightarrow> bool" where
  "climbs M k [] = True"
| "climbs M k (h # r) \<longleftrightarrow> parent M h = Some k \<and> climbs M h r"

lemma climbs_snoc: "climbs M k (cs @ [h]) \<longleftrightarrow> climbs M k cs \<and> parent M h = Some (last (k # cs))"
  by (induction cs arbitrary: k) auto

lemma climbs_bare: "bare M = bare M' \<Longrightarrow> climbs M' k cs = climbs M k cs"
proof (induction cs arbitrary: k)
  case (Cons h cs)
  then show ?case using bare_tree(3) [OF Cons(2), of h] by simp
qed simp

lemma parent_node: "parent M h = Some k \<longleftrightarrow> (\<exists>nd. M h = Some nd \<and> pprev nd = Some k)"
  by (auto simp: parent_def split: option.splits)

lemma branch_climbs:
  assumes "tree_inv M" "M k \<noteq> None"
  shows "M a \<noteq> None \<Longrightarrow> chain_of M a = xs @ chain_of M k \<Longrightarrow>
    climbs M k (rev (map phashBlock xs)) \<and> last (k # rev (map phashBlock xs)) = a"
proof (induction xs arbitrary: a)
  case Nil
  have "phashBlock (hd (chain_of M a)) = a" "phashBlock (hd (chain_of M k)) = k" using path_hd [OF assms(1)] Nil(1) assms(2) by blast+
  then have "k = a" using Nil(2) by (metis append_Nil)
  then show ?case by simp
next
  case (Cons x xs)
  obtain nd where nd: "M a = Some nd" using Cons(2) by blast
  have ne: "chain_of M k \<noteq> []" using assms chain_Nil by simp
  have c: "chain_of M a = node_bi nd # (case pprev nd of None \<Rightarrow> [] | Some q \<Rightarrow> chain_of M q)" by (rule chain_unfold [OF assms(1) nd])
  then obtain q where q: "pprev nd = Some q" "chain_of M q = xs @ chain_of M k" "x = node_bi nd" using Cons(3) ne by (cases "pprev nd") auto
  have "parent M a = Some q" using nd q(1) by (simp add: parent_def)
  moreover from parent_height [OF assms(1) this] have "M q \<noteq> None" by blast
  ultimately show ?case using Cons(1) [OF _ q(2)] q(3) tree_invD(1) [OF assms(1) nd] by (simp add: climbs_snoc)
qed

lemma state_env_sel [simp]: "be_kernel (state_env E s) = be_kernel (xe_block E)"
  by (simp add: state_env_def)

lemma connect_at_view:
  assumes "connect_at E h b s = (r, s')" "in_txn P (txdb s)" "tree_inv (mapBlockIndex s)" "mapBlockIndex s h = Some nd" "nFile (node_bi nd) \<noteq> -1"
  shows "\<exists>M c db. s' = s\<lparr> mapBlockIndex := M, mapTurbo := c, txdb := db \<rparr> \<and> bare M = bare (mapBlockIndex s) \<and> next_of M = next_of (mapBlockIndex s)
    \<and> in_txn P db \<and> (r = Inr () \<longrightarrow> in_place E (node_bi nd) b (ReadTxIndex (txdb s)) (ReadTxIndex db) \<and> distinct (map (GetHash (xe_hash E)) (vtx b)))"
proof -
  let ?c = "chain_of (mapBlockIndex s) h"
  have hd: "hd ?c = node_bi nd" using path_hd [OF assms(3,4)] by blast
  obtain res cache where cb: "ConnectBlock (state_env E s) ReadTxIndex UpdateTxIndex (write_index E) ?c (next_hash (mapBlockIndex s) h) False b (mapTurbo s) (txdb s)
    = (res, cache)" by (metis surj_pair)
  show ?thesis
  proof (cases res)
    case (Inl v)
    then have "s' = s\<lparr> mapTurbo := cache \<rparr>" "r = Inl v" using assms(1) cb by (simp_all add: connect_at_def)
    then show ?thesis using assms(2) by (intro exI [of _ "mapBlockIndex s"] exI [of _ cache] exI [of _ "txdb s"]) simp
  next
    case (Inr pd)
    obtain p db where pd: "pd = (p, db)" by (cases pd)
    have s': "s' = s\<lparr> mapBlockIndex := set_bi h p (mapBlockIndex s), mapTurbo := cache, txdb := db \<rparr>" using assms(1) cb Inr pd by (simp add: connect_at_def)
    obtain t where "p = with_mint ?c t" using ConnectBlock_Inr cb Inr pd by metis
    then have "bare_bi p = bare_bi (node_bi nd)" using hd by simp
    then have "bare (set_bi h p (mapBlockIndex s)) = bare (mapBlockIndex s)" using bare_set_bi [where M = "mapBlockIndex s" and h = h] assms(4) by blast
    moreover have "in_txn P db \<and> in_place E (node_bi nd) b (ReadTxIndex (txdb s)) (ReadTxIndex db) \<and> distinct (map (GetHash (xe_hash E)) (vtx b))"
      using chaintxn.ConnectBlock_view [OF cb [unfolded Inr pd write_index_def] assms(2)] assms(5) hd by (simp add: in_place_def first_tx_pos_def)
    ultimately show ?thesis using s' next_of_set_bi by blast
  qed
qed

abbreviation (input) on_disk :: "block_tree \<Rightarrow> bool" where
  "on_disk M \<equiv> (\<forall>h nd. M h = Some nd \<longrightarrow> nFile (node_bi nd) \<noteq> -1)"

lemma on_disk_bare:
  assumes "bare M = bare M'" "on_disk M"
  shows "on_disk M'"
proof (intro allI impI)
  fix h nd assume "M' h = Some nd"
  then obtain nd' where "M h = Some nd'" "bare_bi (node_bi nd') = bare_bi (node_bi nd)" using bare_node [OF assms(1) [symmetric]] by metis
  then show "nFile (node_bi nd) \<noteq> -1" using assms(2) bare_bi_sel(3) by metis
qed

lemma reorg_connect_view:
  assumes "tree_inv (mapBlockIndex s)" "on_disk (mapBlockIndex s)"
  shows "reorg_connect E hs acc s = (r, s') \<Longrightarrow> in_txn P (txdb s) \<Longrightarrow> climbs (mapBlockIndex s) k hs \<Longrightarrow> ledger_at E (mapBlockIndex s) k (ReadTxIndex (txdb s)) \<Longrightarrow>
    \<exists>M c db. s' = s\<lparr> mapBlockIndex := M, mapTurbo := c, txdb := db \<rparr> \<and> bare M = bare (mapBlockIndex s) \<and> next_of M = next_of (mapBlockIndex s)
    \<and> in_txn P db \<and> (is_ok r \<longrightarrow> ledger_at E M (last (k # hs)) (ReadTxIndex db))"
  using assms
proof (induction hs arbitrary: k acc s)
  case Nil
  then show ?case by (intro exI [of _ "mapBlockIndex s"] exI [of _ "mapTurbo s"] exI [of _ "txdb s"]) auto
next
  case (Cons h hs)
  let ?M = "mapBlockIndex s"
  obtain nd where nd: "?M h = Some nd" "pprev nd = Some k" using Cons.prems(3) by (auto simp: parent_node)
  have hd: "hd (chain_of ?M h) = node_bi nd" using path_hd [OF Cons.prems(5) nd(1)] by blast
  show ?case
  proof (cases "ReadFromDisk E (node_bi nd)")
    case None
    then show ?thesis using Cons.prems(1,2) hd by (intro exI [of _ ?M] exI [of _ "mapTurbo s"] exI [of _ "txdb s"]) auto
  next
    case (Some b)
    obtain r1 s1 where c: "connect_at E h b s = (r1, s1)" by (metis surj_pair)
    from connect_at_view [OF c Cons.prems(2,5) nd(1)] Cons.prems(6) nd(1) obtain M1 c1 db1 where
      s1: "s1 = s\<lparr> mapBlockIndex := M1, mapTurbo := c1, txdb := db1 \<rparr>" "bare M1 = bare ?M" "next_of M1 = next_of ?M" "in_txn P db1"
      "r1 = Inr () \<Longrightarrow> in_place E (node_bi nd) b (ReadTxIndex (txdb s)) (ReadTxIndex db1) \<and> distinct (map (GetHash (xe_hash E)) (vtx b))" by blast
    show ?thesis
    proof (cases r1)
      case (Inl v)
      then show ?thesis using Cons.prems(1) Some hd c s1 by (intro exI [of _ M1] exI [of _ c1] exI [of _ db1]) auto
    next
      case (Inr u)
      then have rec: "reorg_connect E hs (acc @ vtx b) s1 = (r, s')" using Cons.prems(1) Some hd c by simp
      have M1: "mapBlockIndex s1 = M1" "txdb s1 = db1" using s1(1) by simp_all
      have "ledger_at E ?M h (ReadTxIndex db1)" using ledger_block [where M = ?M and h = h, OF nd Cons.prems(4) Some] s1(5) Inr Cons.prems(6) nd(1) by simp
      then have l: "ledger_at E M1 h (ReadTxIndex db1)" by (rule ledger_at_bare [OF s1(2) [symmetric]])
      have "climbs M1 h hs" using Cons.prems(3) climbs_bare [OF s1(2) [symmetric]] by simp
      moreover have "tree_inv M1" using Cons.prems(5) bare_tree(1) [OF s1(2) [symmetric]] by blast
      moreover have "on_disk M1" by (rule on_disk_bare [OF s1(2) [symmetric] Cons.prems(6)])
      ultimately obtain M c db where "s' = s1\<lparr> mapBlockIndex := M, mapTurbo := c, txdb := db \<rparr>" "bare M = bare M1" "next_of M = next_of M1" "in_txn P db"
        "is_ok r \<longrightarrow> ledger_at E M (last (h # hs)) (ReadTxIndex db)"
        using Cons.IH [OF rec, of h] l s1(4) unfolding M1 by blast
      then show ?thesis using s1 by (intro exI [of _ M] exI [of _ c] exI [of _ db]) simp
    qed
  qed
qed

lemma reorg_disconnect_view:
  assumes "tree_inv M" "no_repeats E M"
  shows "mapBlockIndex s = M \<Longrightarrow> in_txn P (txdb s) \<Longrightarrow> climbs M k cs \<Longrightarrow> ledger_at E M (last (k # cs)) (ReadTxIndex (txdb s)) \<Longrightarrow>
    \<exists>res db. reorg_disconnect E (rev cs) acc s = (Inr res, s\<lparr> txdb := db \<rparr>) \<and> in_txn P db \<and> ledger_at E M k (ReadTxIndex db)"
proof (induction cs arbitrary: acc s rule: rev_induct)
  case Nil
  then show ?case by (intro exI [of _ acc] exI [of _ "txdb s"]) simp
next
  case (snoc h cs)
  have par: "parent M h = Some (last (k # cs))" "climbs M k cs" using snoc.prems(3) by (simp_all add: climbs_snoc)
  then obtain nd where nd: "M h = Some nd" "pprev nd = Some (last (k # cs))" by (auto simp: parent_node)
  have hd: "hd (chain_of M h) = node_bi nd" using path_hd [OF assms(1) nd(1)] by blast
  have "ledger_at E M h (ReadTxIndex (txdb s))" using snoc.prems(4) by simp
  from ledger_at_step [OF this nd] obtain V b where b: "ledger_at E M (last (k # cs)) V" "ReadFromDisk E (node_bi nd) = Some b"
    "connected (xe_hash E) (vtx b) V (ReadTxIndex (txdb s))" "distinct (map (GetHash (xe_hash E)) (vtx b))"
    by blast
  from chaintxn.DisconnectBlock_view [OF b(3) ledger_canonical [OF b(1)] ledger_fresh [OF b(1) assms nd b(2)] b(4) snoc.prems(2),
      where pindex = "chain_of M h", folded write_index_def]
  obtain db where db: "DisconnectBlock (xe_hash E) ReadTxIndex UpdateTxIndex EraseTxIndex (write_index E) (chain_of M h) b (txdb s) = Inr db"
    "in_txn P db" "ReadTxIndex db = V" unfolding write_index_def by blast
  have l: "ledger_at E M (last (k # cs)) (ReadTxIndex (txdb (s\<lparr> txdb := db \<rparr>)))" using b(1) db(3) by simp
  from snoc.IH [OF _ _ par(2) l, of "to_resurrect E (node_bi nd) b @ acc"] snoc.prems(1) db(2) obtain res db' where
    "reorg_disconnect E (rev cs) (to_resurrect E (node_bi nd) b @ acc) (s\<lparr> txdb := db \<rparr>) = (Inr res, s\<lparr> txdb := db' \<rparr>)" "in_txn P db'"
    "ledger_at E M k (ReadTxIndex db')" by auto
  then show ?case using snoc.prems(1) b(2) hd db(1) by (intro exI [of _ res] exI [of _ db']) (simp add: Let_def)
qed

section \<open>The effect of a reorganisation\<close>

text \<open>The state inside the database transaction of \<open>SetBestChain\<close>, before anything was changed.\<close>

definition best_inv :: "'d chain_env \<Rightarrow> 'd node \<Rightarrow> bool" where
  "best_inv E s \<longleftrightarrow> tree_inv (mapBlockIndex s) \<and> on_disk (mapBlockIndex s) \<and> pindexGenesisBlock s \<noteq> None
     \<and> (\<forall>h nd. mapBlockIndex s h = Some nd \<longrightarrow> pprev nd = None \<longrightarrow> pindexGenesisBlock s = Some h)
     \<and> pindexBest s = Some (hashBestChain s) \<and> mapBlockIndex s (hashBestChain s) \<noteq> None \<and> pnext_inv (mapBlockIndex s) (hashBestChain s)
     \<and> nBestHeight s = height (mapBlockIndex s) (hashBestChain s)
     \<and> nBestChainTrust s = nChainTrust (hd (chain_of (mapBlockIndex s) (hashBestChain s)))
     \<and> ReadHashBestChain (txdb s) = Some (hashBestChain s) \<and> ledger_at E (mapBlockIndex s) (hashBestChain s) (ReadTxIndex (txdb s))"

definition chain_inv :: "'d chain_env \<Rightarrow> 'd node \<Rightarrow> bool" where
  "chain_inv E s \<longleftrightarrow> best_inv E s \<and> db_inv (txdb s) \<and> activeBatch (txdb s) = None"

text \<open>
  The block index on disk, \<open>pnext\<close>, the best block recorded in the database and the transaction index all belong to the chain
  of the block \<open>a\<close>; memory may name another best block.
\<close>

definition at_block :: "'d chain_env \<Rightarrow> uint256 \<Rightarrow> 'd node \<Rightarrow> bool" where
  "at_block E a s \<longleftrightarrow> tree_inv (mapBlockIndex s) \<and> on_disk (mapBlockIndex s) \<and> mapBlockIndex s a \<noteq> None \<and> pnext_inv (mapBlockIndex s) a
     \<and> ReadHashBestChain (txdb s) = Some a \<and> ledger_at E (mapBlockIndex s) a (ReadTxIndex (txdb s))"

lemma best_inv_at: "best_inv E s \<Longrightarrow> at_block E (hashBestChain s) s"
  by (simp add: best_inv_def at_block_def)

text \<open>What a failed step may have changed: the mint of some blocks, the cache of addresses, and the batch.\<close>

definition batch_only :: "(byte list \<rightharpoonup> byte list) \<Rightarrow> 'd node \<Rightarrow> 'd node \<Rightarrow> bool" where
  "batch_only P s s' \<longleftrightarrow> (\<exists>M c db. s' = s\<lparr> mapBlockIndex := M, mapTurbo := c, txdb := db \<rparr> \<and> bare M = bare (mapBlockIndex s)
     \<and> next_of M = next_of (mapBlockIndex s) \<and> in_txn P db)"

text \<open>What a successful switch to \<open>h\<close> has achieved before the best block is recorded in memory.\<close>

definition switched :: "'d chain_env \<Rightarrow> CTransaction set \<Rightarrow> uint256 \<Rightarrow> 'd node \<Rightarrow> 'd node \<Rightarrow> bool" where
  "switched E T h s s' \<longleftrightarrow> (\<exists>M c p f t db. s' = s\<lparr> mapBlockIndex := M, mapTurbo := c, mempool := p, free_limit := f, nBestInvalidTrust := t, txdb := db \<rparr>
     \<and> bare M = bare (mapBlockIndex s) \<and> pnext_inv M h \<and> db_inv db \<and> activeBatch db = None
     \<and> ReadHashBestChain db = Some h \<and> ledger_at E M h (ReadTxIndex db) \<and> pool_good (xe_hash E) T p)"

lemma write_best_view:
  assumes "in_txn P (txdb s)"
  shows "\<exists>db. write_best h s = (Inr (), s\<lparr> txdb := db \<rparr>) \<and> in_txn P db \<and> ReadTxIndex db = ReadTxIndex (txdb s) \<and> ReadHashBestChain db = Some h"
  using chaintxn.whb_rd [OF assms, of h] by (auto simp: write_best_def)

lemma commit_db_view:
  assumes "in_txn P (txdb s)"
  shows "\<exists>db. commit_db s = (Inr (), s\<lparr> txdb := db \<rparr>) \<and> db_inv db \<and> activeBatch db = None
    \<and> ReadTxIndex db = ReadTxIndex (txdb s) \<and> ReadHashBestChain db = ReadHashBestChain (txdb s)"
proof -
  from TxnCommit_txn [OF assms] obtain db where "TxnCommit (txdb s) = Some (True, db)" "db_inv db" "activeBatch db = None"
    "ReadTxIndex db = ReadTxIndex (txdb s)" "ReadHashBestChain db = ReadHashBestChain (txdb s)" by blast
  then show ?thesis by (intro exI [of _ db]) (simp add: commit_db_def)
qed

text \<open>All transactions are of a set \<open>T\<close> without collisions of hashes: those of the blocks on disk and those of the pool.\<close>

definition txs_of :: "'d chain_env \<Rightarrow> CTransaction set \<Rightarrow> bool" where
  "txs_of E T \<longleftrightarrow> pe_hash (xe_pool E) = xe_hash E \<and> sound_hashes (xe_hash E) T \<and> (\<forall>f n b. be_blk (xe_block E) f n = Some b \<longrightarrow> set (vtx b) \<subseteq> T)"

lemma txs_of_block: "txs_of E T \<Longrightarrow> ReadFromDisk E p = Some b \<Longrightarrow> set (vtx b) \<subseteq> T"
  by (auto simp: txs_of_def ReadFromDisk_def split: option.splits if_splits)

lemma disconnect_txs: "txs_of E T \<Longrightarrow> reorg_disconnect E hs acc s = (Inr res, s') \<Longrightarrow> set acc \<subseteq> T \<Longrightarrow> set res \<subseteq> T"
proof (induction hs arbitrary: acc s)
  case (Cons h hs)
  from Cons.prems(2) obtain b db where b: "ReadFromDisk E (hd (chain_of (mapBlockIndex s) h)) = Some b"
    "reorg_disconnect E hs (to_resurrect E (hd (chain_of (mapBlockIndex s) h)) b @ acc) (s\<lparr> txdb := db \<rparr>) = (Inr res, s')"
    by (auto simp: Let_def split: option.splits sum.splits)
  have "set (to_resurrect E (hd (chain_of (mapBlockIndex s) h)) b @ acc) \<subseteq> T"
    using txs_of_block [OF Cons.prems(1) b(1)] Cons.prems(3) by (auto simp: to_resurrect_def)
  then show ?case by (rule Cons.IH [OF Cons.prems(1) b(2)])
qed simp

lemma connect_txs_of: "txs_of E T \<Longrightarrow> reorg_connect E hs acc s = (Inr res, s') \<Longrightarrow> set acc \<subseteq> T \<Longrightarrow> set res \<subseteq> T"
proof (induction hs arbitrary: acc s)
  case (Cons h hs)
  from Cons.prems(2) obtain b s1 where b: "ReadFromDisk E (hd (chain_of (mapBlockIndex s) h)) = Some b"
    "reorg_connect E hs (acc @ vtx b) s1 = (Inr res, s')"
    by (auto split: option.splits prod.splits sum.splits)
  have "set (acc @ vtx b) \<subseteq> T" using txs_of_block [OF Cons.prems(1) b(1)] Cons.prems(3) by simp
  then show ?case by (rule Cons.IH [OF Cons.prems(1) b(2)])
qed simp

lemma resurrect_view:
  assumes "txs_of E T"
  shows "set txs \<subseteq> T \<Longrightarrow> pool_good (xe_hash E) T (mempool s) \<Longrightarrow> \<exists>p f. resurrect E txs s = s\<lparr> mempool := p, free_limit := f \<rparr> \<and> pool_good (xe_hash E) T p"
proof (induction txs arbitrary: s)
  case Nil
  then show ?case by (intro exI [of _ "mempool s"] exI [of _ "free_limit s"]) simp
next
  case (Cons tx r)
  obtain x y where a: "accept (xe_pool E) (ReadTxIndex (txdb s)) (\<lambda>h. ContainsTx h (txdb s))
      (case pindexBest s of None \<Rightarrow> [] | Some h \<Rightarrow> chain_of (mapBlockIndex s) h) False tx (mempool s) (free_limit s) = (x, y)" by (metis surj_pair)
  show ?case
  proof (cases x)
    case (Inl v)
    then have "resurrect E (tx # r) s = resurrect E r (s\<lparr> free_limit := y \<rparr>)" using a by simp
    then show ?thesis using Cons.IH [of "s\<lparr> free_limit := y \<rparr>"] Cons.prems by auto
  next
    case (Inr p)
    then have "resurrect E (tx # r) s = resurrect E r (s\<lparr> mempool := p, free_limit := y \<rparr>)" using a by simp
    moreover have "pool_good (xe_hash E) T p" using accept_good [OF a [unfolded Inr], of T] Cons.prems assms by (simp add: txs_of_def)
    ultimately show ?thesis using Cons.IH [of "s\<lparr> mempool := p, free_limit := y \<rparr>"] Cons.prems by auto
  qed
qed

lemma delete_txs_ok:
  assumes "sound_hashes H T"
  shows "set txs \<subseteq> T \<Longrightarrow> pool_good H T p \<Longrightarrow> \<exists>q. delete_txs H conflicting txs p = Some q \<and> pool_good H T q"
proof (induction txs arbitrary: p)
  case (Cons tx r)
  obtain p1 where p1: "pool_remove H tx False p = Some p1" "pool_good H T p1" using remove_good [OF Cons.prems(2) assms, of tx False] Cons.prems(1) by auto
  obtain p2 where p2: "(if conflicting then removeConflicts H tx p1 else Some p1) = Some p2" "pool_good H T p2"
    using conflicts_good [OF p1(2) assms] p1(2) by (cases conflicting) auto
  show ?case using Cons.IH [OF _ p2(2)] Cons.prems(1) p1(1) p2(1) by simp
qed simp

lemma delete_from_pool_view:
  assumes "txs_of E T" "set txs \<subseteq> T" "pool_good (xe_hash E) T (mempool s)"
  shows "\<exists>p. delete_from_pool E conflicting txs s = (Inr (), s\<lparr> mempool := p \<rparr>) \<and> pool_good (xe_hash E) T p"
proof -
  have "pe_hash (xe_pool E) = xe_hash E" "sound_hashes (xe_hash E) T" using assms(1) by (simp_all add: txs_of_def)
  then show ?thesis using delete_txs_ok [of "xe_hash E" T txs "mempool s" conflicting] assms(2,3) by (auto simp: delete_from_pool_def)
qed

lemma root_in_path:
  assumes "tree_inv M" "M h \<noteq> None"
  shows "\<exists>g nd. g \<in> set (path M h) \<and> M g = Some nd \<and> pprev nd = None"
  using assms
proof (induction h rule: tree_induct)
  case (node h)
  obtain nd where nd: "M h = Some nd" using node(1) by blast
  note u = path_unfold [OF assms(1) node(1)]
  show ?case
  proof (cases "pprev nd")
    case None
    then show ?thesis using nd u by auto
  next
    case (Some k)
    then have p: "parent M h = Some k" using nd by (simp add: parent_def)
    have "set (path M k) \<subseteq> set (path M h)" unfolding u p by auto
    then show ?thesis using node(2) [OF p] by blast
  qed
qed

lemma best_fork:
  assumes "best_inv E s" "mapBlockIndex s h \<noteq> None"
  shows "\<exists>k. find_fork (chain_of (mapBlockIndex s) (hashBestChain s)) (chain_of (mapBlockIndex s) h) = Some (chain_of (mapBlockIndex s) k)
    \<and> fork_at (mapBlockIndex s) (hashBestChain s) h k"
proof -
  let ?M = "mapBlockIndex s"
  have t: "tree_inv ?M" "?M (hashBestChain s) \<noteq> None" and g: "\<And>h nd. ?M h = Some nd \<Longrightarrow> pprev nd = None \<Longrightarrow> pindexGenesisBlock s = Some h"
    using assms(1) by (simp_all add: best_inv_def)
  have "set (path ?M (hashBestChain s)) \<inter> set (path ?M h) \<noteq> {}"
    using root_in_path [OF t] root_in_path [OF t(1) assms(2)] g by (metis disjoint_iff option.inject)
  then show ?thesis by (rule find_fork_ok [OF t assms(2)])
qed

lemma next_of_relink:
  assumes "tree_inv M" "bare M = bare M'" "next_of M' = next_of M"
  shows "next_of (relink D C M') = next_of (relink D C M)"
proof -
  have step: "bare (f M h) = bare (f M' h) \<and> next_of (f M' h) = next_of (f M h) \<and> tree_inv (f M h)"
    if "tree_inv M" "bare M = bare M'" "next_of M' = next_of M" and f: "f = unlink \<or> f = link" for f M M' h
  proof -
    have t': "tree_inv M'" using that(1) bare_tree(1) [OF that(2)] by blast
    have s: "same_tree M (f M h)" "same_tree M' (f M' h)" using f unlink_same link_same by auto
    have "next_of (f M' h) x = next_of (f M h) x" for x
      using f next_of_unlink [OF that(1)] next_of_unlink [OF t'] next_of_link [OF that(1)] next_of_link [OF t'] bare_tree(3) [OF that(2)] that(3) by auto
    then show ?thesis using bare_same_tree [OF s(1)] bare_same_tree [OF s(2)] that(2) same_tree_inv [OF s(1) that(1)] by auto
  qed
  have fold: "bare (foldl f M hs) = bare (foldl f M' hs) \<and> next_of (foldl f M' hs) = next_of (foldl f M hs) \<and> tree_inv (foldl f M hs)"
    if "tree_inv M" "bare M = bare M'" "next_of M' = next_of M" "f = unlink \<or> f = link" for f M M' hs
    using that
  proof (induction hs arbitrary: M M')
    case (Cons h hs)
    show ?case using Cons.IH step [OF Cons.prems, of h] Cons.prems(4) by simp
  qed simp
  from fold [OF assms, of unlink D] have u: "bare (foldl unlink M D) = bare (foldl unlink M' D)" "next_of (foldl unlink M' D) = next_of (foldl unlink M D)"
    "tree_inv (foldl unlink M D)" by auto
  show ?thesis using fold [OF u(3,1,2), of link C] by (simp add: relink_def)
qed

lemma relink_moved:
  assumes "tree_inv M" "M a \<noteq> None" "M b \<noteq> None" "fork_at M a b k" "pnext_inv M a" "bare M' = bare M" "next_of M' = next_of M"
  shows "pnext_inv (relink (above (chain_of M k) (chain_of M a)) (rev (above (chain_of M k) (chain_of M b))) M') b"
    "bare (relink (above (chain_of M k) (chain_of M a)) (rev (above (chain_of M k) (chain_of M b))) M') = bare M"
proof -
  let ?r = "relink (above (chain_of M k) (chain_of M a)) (rev (above (chain_of M k) (chain_of M b)))"
  note r = relink_inv [OF assms(1-5)]
  have "same_tree M' (?r M')" unfolding relink_def by (rule same_tree_trans [OF foldl_unlink_same foldl_link_same])
  then show b: "bare (?r M') = bare M" using bare_same_tree assms(6) by metis
  have "bare (?r M) = bare M" using bare_same_tree r(2) by metis
  then have "bare (?r M) = bare (?r M')" using b by simp
  moreover have "next_of (?r M') = next_of (?r M)" using next_of_relink [OF assms(1)] assms(6,7) by metis
  ultimately show "pnext_inv (?r M') b" using pnext_inv_cong r(1) by blast
qed

lemma batch_onlyI: "s' = s\<lparr> mapBlockIndex := M, mapTurbo := c, txdb := db \<rparr> \<Longrightarrow> bare M = bare (mapBlockIndex s) \<Longrightarrow> next_of M = next_of (mapBlockIndex s) \<Longrightarrow>
    in_txn P db \<Longrightarrow> batch_only P s s'"
  unfolding batch_only_def by blast

lemma Reorganize_ok:
  assumes "best_inv E s" "in_txn P (txdb s)" "no_repeats E (mapBlockIndex s)" "mapBlockIndex s h \<noteq> None" "Reorganize E h s = (r, s')"
    "txs_of E T" "pool_good (xe_hash E) T (mempool s)"
  shows "(r = Inr () \<longrightarrow> switched E T h s s') \<and> (\<forall>v. r = Inl v \<longrightarrow> batch_only P s s')"
proof -
  let ?M = "mapBlockIndex s" and ?a = "hashBestChain s"
  have inv: "tree_inv ?M" "on_disk ?M" "pindexBest s = Some ?a" "?M ?a \<noteq> None" "pnext_inv ?M ?a" "ledger_at E ?M ?a (ReadTxIndex (txdb s))"
    using assms(1) by (simp_all add: best_inv_def)
  obtain k where k: "find_fork (chain_of ?M ?a) (chain_of ?M h) = Some (chain_of ?M k)" "fork_at ?M ?a h k" using best_fork [OF assms(1,4)] by blast
  obtain xs ys where f: "?M k \<noteq> None" "chain_of ?M ?a = xs @ chain_of ?M k" "chain_of ?M h = ys @ chain_of ?M k"
    "phashBlock ` set xs \<inter> set (path ?M h) = {}" "phashBlock ` set ys \<inter> set (path ?M ?a) = {}" using k(2) unfolding fork_at_def by blast
  have "k \<in> set (path ?M k)" using path_unfold [OF inv(1) f(1)] by simp
  then have kx: "k \<notin> phashBlock ` set xs" "k \<notin> phashBlock ` set ys" using f(4,5) unfolding f(2,3) by auto
  note D = above_fork [OF inv(1) f(1,2) kx(1)] and C = above_fork [OF inv(1) f(1,3) kx(2)]
  note da = branch_climbs [OF inv(1) f(1) inv(4) f(2)] and db = branch_climbs [OF inv(1) f(1) assms(4) f(3)]
  from reorg_disconnect_view [OF inv(1) assms(3) refl assms(2) conjunct1 [OF da], of "[]"] inv(6) da obtain res db1 where
    d: "reorg_disconnect E (above (chain_of ?M k) (chain_of ?M ?a)) [] s = (Inr res, s\<lparr> txdb := db1 \<rparr>)" "in_txn P db1" "ledger_at E ?M k (ReadTxIndex db1)"
    unfolding D by auto
  let ?s1 = "s\<lparr> txdb := db1 \<rparr>"
  obtain r2 s2 where c: "reorg_connect E (rev (above (chain_of ?M k) (chain_of ?M h))) [] ?s1 = (r2, s2)" by (metis surj_pair)
  have cl: "climbs (mapBlockIndex ?s1) k (rev (map phashBlock ys))" "last (k # rev (map phashBlock ys)) = h" using db by simp_all
  from reorg_connect_view [OF _ _ c [unfolded C], of P k] inv(1,2) d(2,3) cl obtain M2 c2 db2 where
    s2: "s2 = s\<lparr> mapBlockIndex := M2, mapTurbo := c2, txdb := db2 \<rparr>" "bare M2 = bare ?M" "next_of M2 = next_of ?M" "in_txn P db2"
      "is_ok r2 \<Longrightarrow> ledger_at E M2 h (ReadTxIndex db2)" by auto
  show ?thesis
  proof (cases r2)
    case (Inl v)
    then have "r = Inl v" "s' = s2" using assms(5) inv(3) k(1) d(1) c by (simp_all add: Reorganize_def)
    then show ?thesis using batch_onlyI [OF s2(1-4)] by simp
  next
    case (Inr vD)
    from write_best_view [of P s2 h] s2(1,4) obtain db3 where
      w: "write_best h s2 = (Inr (), s2\<lparr> txdb := db3 \<rparr>)" "in_txn P db3" "ReadTxIndex db3 = ReadTxIndex db2" "ReadHashBestChain db3 = Some h" by auto
    from commit_db_view [of P "s2\<lparr> txdb := db3 \<rparr>"] w(2) obtain db4 where
      m: "commit_db (s2\<lparr> txdb := db3 \<rparr>) = (Inr (), s2\<lparr> txdb := db4 \<rparr>)" "db_inv db4" "activeBatch db4 = None" "ReadTxIndex db4 = ReadTxIndex db3"
        "ReadHashBestChain db4 = ReadHashBestChain db3" by auto
    let ?R = "relink (above (chain_of ?M k) (chain_of ?M ?a)) (rev (above (chain_of ?M k) (chain_of ?M h))) M2"
    note R = relink_moved [OF inv(1,4) assms(4) k(2) inv(5) s2(2,3)]
    let ?s5 = "s2\<lparr> txdb := db4, mapBlockIndex := ?R \<rparr>"
    have res: "set res \<subseteq> T" "set vD \<subseteq> T"
      using disconnect_txs [OF assms(6) d(1)] connect_txs_of [OF assms(6) c [unfolded Inr]] by simp_all
    obtain p fl where rs: "resurrect E res ?s5 = ?s5\<lparr> mempool := p, free_limit := fl \<rparr>" "pool_good (xe_hash E) T p"
      using resurrect_view [OF assms(6) res(1), of ?s5] assms(7) s2(1) by auto
    have M4: "mapBlockIndex (s2\<lparr> txdb := db4 \<rparr>) = M2" using s2(1) by simp
    have R5: "Reorganize E h s = delete_from_pool E True vD (?s5\<lparr> mempool := p, free_limit := fl \<rparr>)"
      unfolding Reorganize_def Let_def inv(3) option.case k(1) d(1) prod.case sum.case c Inr w(1) m(1) M4 rs(1) ..
    have "pool_good (xe_hash E) T (mempool (?s5\<lparr> mempool := p, free_limit := fl \<rparr>))" using rs(2) by simp
    from delete_from_pool_view [OF assms(6) res(2) this, of True] obtain p' where
      dp: "delete_from_pool E True vD (?s5\<lparr> mempool := p, free_limit := fl \<rparr>) = (Inr (), ?s5\<lparr> mempool := p, free_limit := fl, mempool := p' \<rparr>)"
        "pool_good (xe_hash E) T p'" by blast
    have s': "r = Inr ()" "s' = ?s5\<lparr> mempool := p, free_limit := fl, mempool := p' \<rparr>"
      using assms(5) unfolding R5 dp(1) prod.inject by simp_all
    have "ledger_at E M2 h (ReadTxIndex db4)" using s2(5) Inr m(4) w(3) by simp
    then have "ledger_at E ?R h (ReadTxIndex db4)" using ledger_at_bare s2(2) R(2) by metis
    then have "switched E T h s s'" unfolding switched_def using s'(2) dp(2) s2(1) R m(2-5) w(4)
      by (intro exI [of _ ?R] exI [of _ c2] exI [of _ p'] exI [of _ fl] exI [of _ "nBestInvalidTrust s"] exI [of _ db4]) simp
    then show ?thesis using s'(1) by auto
  qed
qed


section \<open>Failure\<close>

text \<open>What a failed call leaves: the transaction is aborted, and only the trust of the best invalid chain is written.\<close>

definition restored :: "'d node \<Rightarrow> 'd node \<Rightarrow> bool" where
  "restored s s' \<longleftrightarrow> (\<exists>M c t db. s' = s\<lparr> mapBlockIndex := M, mapTurbo := c, nBestInvalidTrust := t, txdb := db \<rparr>
     \<and> bare M = bare (mapBlockIndex s) \<and> next_of M = next_of (mapBlockIndex s) \<and> db_inv db \<and> activeBatch db = None
     \<and> ReadTxIndex db = ReadTxIndex (txdb s) \<and> ReadHashBestChain db = ReadHashBestChain (txdb s))"

lemma invalid_key_distinct: "tx_key h \<noteq> invalid_key" "best_key \<noteq> invalid_key"
proof -
  have "length invalid_key = 19" by (simp add: invalid_key_def ser_string_def str_bytes_def length_WriteCompactSize GetSizeOfCompactSize_def)
  then show "tx_key h \<noteq> invalid_key" "best_key \<noteq> invalid_key" using key_length(1) [of h] key_length(3) by auto
qed

lemma WriteBestInvalidTrust_view:
  assumes "db_inv d"
  shows "\<exists>d'. WriteBestInvalidTrust L n d = Some (True, d') \<and> db_inv d' \<and> (activeBatch d' = None \<longleftrightarrow> activeBatch d = None)
    \<and> ReadTxIndex d' = ReadTxIndex d \<and> ReadHashBestChain d' = ReadHashBestChain d"
proof -
  obtain d' where d': "db_Write invalid_key (ser_bytes (getvch L n)) d = Some (True, d')" "db_inv d'"
    "kv d' = (kv d)(invalid_key \<mapsto> ser_bytes (getvch L n))" "activeBatch d' = None \<longleftrightarrow> activeBatch d = None" 
    using db_Write_kv [OF assms, of invalid_key "ser_bytes (getvch L n)"] by (elim exE conjE)
  have "ReadTxIndex d' = ReadTxIndex d" by (rule ReadTxIndex_kv_cong [OF assms d'(2)]) (simp add: d'(3) invalid_key_distinct)
  moreover have "ReadHashBestChain d' = ReadHashBestChain d" using invalid_key_distinct(2) by (simp add: ReadHashBestChain_kv assms d'(2,3))
  ultimately show ?thesis using d' by (simp add: WriteBestInvalidTrust_def)
qed

lemma InvalidChainFound_restored: "restored s s1 \<Longrightarrow> restored s (InvalidChainFound E h s1)"
proof -
  assume "restored s s1"
  then obtain M c t db where s1: "s1 = s\<lparr> mapBlockIndex := M, mapTurbo := c, nBestInvalidTrust := t, txdb := db \<rparr>"
    and b: "bare M = bare (mapBlockIndex s)" "next_of M = next_of (mapBlockIndex s)" "db_inv db" "activeBatch db = None"
      "ReadTxIndex db = ReadTxIndex (txdb s)" "ReadHashBestChain db = ReadHashBestChain (txdb s)" unfolding restored_def by blast
  let ?t = "nChainTrust (hd (chain_of M h))"
  from WriteBestInvalidTrust_view [OF b(3)] obtain d' where d': "WriteBestInvalidTrust (ke_bn (xe_kernel E)) (uint ?t) db = Some (True, d')" "db_inv d'"
    "activeBatch d' = None" "ReadTxIndex d' = ReadTxIndex db" "ReadHashBestChain d' = ReadHashBestChain db" using b(4) by blast
  show ?thesis
  proof (cases "?t > t")
    case True
    then have "InvalidChainFound E h s1 = s\<lparr> mapBlockIndex := M, mapTurbo := c, nBestInvalidTrust := ?t, txdb := d' \<rparr>"
      using d'(1) unfolding s1 by (simp add: InvalidChainFound_def)
    then show ?thesis using b d' unfolding restored_def by (intro exI [of _ M] exI [of _ c] exI [of _ ?t] exI [of _ d']) simp
  next
    case False
    then have "InvalidChainFound E h s1 = s1" unfolding s1 by (simp add: InvalidChainFound_def)
    then show ?thesis using \<open>restored s s1\<close> by simp
  qed
qed

lemma drop_restored:
  assumes "restored s s'"
  shows "restored s (drop_batch s')"
proof -
  from assms have "activeBatch (txdb s') = None" by (auto simp: restored_def)
  then have "drop_batch s' = s'" by (simp add: drop_batch_def)
  then show ?thesis using assms by simp
qed

lemma drop_abort: "drop_batch s = abort_db s"
  by (simp add: drop_batch_def abort_db_def TxnAbort_def)

lemma abort_restored:
  assumes "batch_only (pdb (txdb s)) (s\<lparr> txdb := db0 \<rparr>) s1" "db_inv (txdb s)" "activeBatch (txdb s) = None"
  shows "restored s (abort_db s1)"
proof -
  obtain M c db where s1: "s1 = s\<lparr> mapBlockIndex := M, mapTurbo := c, txdb := db \<rparr>" "bare M = bare (mapBlockIndex s)"
    "next_of M = next_of (mapBlockIndex s)" "in_txn (pdb (txdb s)) db" using assms(1) unfolding batch_only_def by auto
  have a: "abort_db s1 = s\<lparr> mapBlockIndex := M, mapTurbo := c, nBestInvalidTrust := nBestInvalidTrust s, txdb := snd (TxnAbort db) \<rparr>"
    unfolding abort_db_def s1(1) by simp
  then show ?thesis using s1(2,3) TxnAbort_txn [OF s1(4) assms(2,3)] unfolding restored_def by blast
qed

section \<open>Extending the best chain\<close>

lemma child_fork:
  assumes "tree_inv M" "M h = Some nd" "pprev nd = Some a"
  shows "fork_at M a h a" "above (chain_of M a) (chain_of M a) = []" "rev (above (chain_of M a) (chain_of M h)) = [h]"
proof -
  have p: "parent M h = Some a" using assms(2,3) by (simp add: parent_def)
  note ph = parent_height [OF assms(1) p]
  have c: "chain_of M h = [node_bi nd] @ chain_of M a" using chain_unfold [OF assms(1,2)] assms(3) by simp
  have h: "phashBlock (node_bi nd) = h" by (rule tree_invD(1) [OF assms(1,2)])
  have n: "h \<notin> set (path M a)" using path_mem [OF assms(1), of a h] ph by force
  then show "fork_at M a h a" unfolding fork_at_def using ph c h by (intro conjI exI [of _ "[]"] exI [of _ "[node_bi nd]"]) simp_all
  show "above (chain_of M a) (chain_of M a) = []" using above_fork [OF assms(1), of a a "[]"] ph by simp
  have "a \<in> set (path M a)" using path_unfold [OF assms(1), of a] ph by simp
  then have "a \<noteq> h" using n by blast
  then show "rev (above (chain_of M a) (chain_of M h)) = [h]" using above_fork [OF assms(1) _ c] ph h by simp
qed

lemma SetBestChainInner_ok:
  assumes "at_block E a s" "in_txn P (txdb s)" "mapBlockIndex s h = Some nd" "pprev nd = Some a" "ReadFromDisk E (node_bi nd) = Some b"
    "SetBestChainInner E b h s = (r, s')" "txs_of E T" "pool_good (xe_hash E) T (mempool s)"
  shows "(r = Inr () \<longrightarrow> switched E T h s s') \<and> (\<forall>v. r = Inl v \<longrightarrow> (\<exists>s1. batch_only P s s1 \<and> s' = (if thrown v then s1 else InvalidChainFound E h (abort_db s1))))"
proof -
  let ?M = "mapBlockIndex s"
  have inv: "tree_inv ?M" "on_disk ?M" "?M a \<noteq> None" "pnext_inv ?M a" "ledger_at E ?M a (ReadTxIndex (txdb s))"
    using assms(1) by (simp_all add: at_block_def)
  have hash: "block_hash E b = h" using assms(5) tree_invD(1) [OF inv(1) assms(3)] by (auto simp: ReadFromDisk_def split: option.splits if_splits)
  obtain r1 s1 where c: "connect_at E h b s = (r1, s1)" by (metis surj_pair)
  from connect_at_view [OF c assms(2) inv(1) assms(3)] inv(2) assms(3) obtain M1 c1 db1 where
    s1: "s1 = s\<lparr> mapBlockIndex := M1, mapTurbo := c1, txdb := db1 \<rparr>" "bare M1 = bare ?M" "next_of M1 = next_of ?M" "in_txn P db1"
    "r1 = Inr () \<Longrightarrow> in_place E (node_bi nd) b (ReadTxIndex (txdb s)) (ReadTxIndex db1) \<and> distinct (map (GetHash (xe_hash E)) (vtx b))" by blast
  show ?thesis
  proof (cases r1)
    case (Inl v)
    then have "r = Inl v" "s' = (if thrown v then s1 else InvalidChainFound E h (abort_db s1))" using assms(6) c by (auto simp: SetBestChainInner_def)
    then show ?thesis using batch_onlyI [OF s1(1-4)] by auto
  next
    case (Inr u)
    from write_best_view [of P s1 h] s1(1,4) obtain db3 where
      w: "write_best h s1 = (Inr (), s1\<lparr> txdb := db3 \<rparr>)" "in_txn P db3" "ReadTxIndex db3 = ReadTxIndex db1" "ReadHashBestChain db3 = Some h" by auto
    from commit_db_view [of P "s1\<lparr> txdb := db3 \<rparr>"] w(2) obtain db4 where
      m: "commit_db (s1\<lparr> txdb := db3 \<rparr>) = (Inr (), s1\<lparr> txdb := db4 \<rparr>)" "db_inv db4" "activeBatch db4 = None" "ReadTxIndex db4 = ReadTxIndex db3"
        "ReadHashBestChain db4 = ReadHashBestChain db3" by auto
    have M4: "mapBlockIndex (s1\<lparr> txdb := db4 \<rparr>) = M1" using s1(1) by simp
    let ?s5 = "s1\<lparr> txdb := db4, mapBlockIndex := link M1 h \<rparr>"
    have R5: "SetBestChainInner E b h s = delete_from_pool E False (vtx b) ?s5"
      unfolding SetBestChainInner_def hash c Inr prod.case sum.case w(1) m(1) M4 ..
    have "pool_good (xe_hash E) T (mempool ?s5)" using assms(8) s1(1) by simp
    from delete_from_pool_view [OF assms(7) txs_of_block [OF assms(7,5)] this, of False] obtain p where
      dp: "delete_from_pool E False (vtx b) ?s5 = (Inr (), ?s5\<lparr> mempool := p \<rparr>)" "pool_good (xe_hash E) T p" by blast
    have s': "r = Inr ()" "s' = ?s5\<lparr> mempool := p \<rparr>" using assms(6) unfolding R5 dp(1) prod.inject by simp_all
    note f = child_fork [OF inv(1) assms(3,4)]
    have R: "pnext_inv (link M1 h) h" "bare (link M1 h) = bare ?M"
      using relink_moved [OF inv(1,3) _ f(1) inv(4) s1(2,3)] assms(3) unfolding f(2,3) by (simp_all add: relink_def)
    have "ledger_at E ?M h (ReadTxIndex db1)" using ledger_block [where M = ?M and h = h, OF assms(3,4) inv(5) assms(5)] s1(5) Inr inv(2) assms(3) by simp
    then have "ledger_at E (link M1 h) h (ReadTxIndex db4)" using ledger_at_bare R(2) m(4) w(3) by metis
    then have "switched E T h s s'" unfolding switched_def using s'(2) dp(2) s1(1) R m(2-5) w(4)
      by (intro exI [of _ "link M1 h"] exI [of _ c1] exI [of _ p] exI [of _ "free_limit s"] exI [of _ "nBestInvalidTrust s"] exI [of _ db4]) simp
    then show ?thesis using s'(1) by auto
  qed
qed

section \<open>The invariant\<close>

lemma roots_bare:
  assumes "bare M = bare M'" "\<forall>h nd. M h = Some nd \<longrightarrow> pprev nd = None \<longrightarrow> Q h" "M' h = Some nd" "pprev nd = None"
  shows "Q h"
  using bare_node [OF assms(1) [symmetric] assms(3)] assms(2,4) by metis

lemma trust_bare:
  assumes "bare M = bare M'" "tree_inv M" "M h \<noteq> None"
  shows "nChainTrust (hd (chain_of M' h)) = nChainTrust (hd (chain_of M h))"
proof -
  obtain nd where nd: "M h = Some nd" using assms(3) by blast
  then obtain nd' where "M' h = Some nd'" "bare_bi (node_bi nd') = bare_bi (node_bi nd)" using bare_node [OF assms(1)] by blast
  then show ?thesis using nd path_hd [OF assms(2) nd] path_hd [of M' h nd'] assms(2) bare_tree(1) [OF assms(1)] bare_bi_sel(5) by metis
qed

lemma restored_inv:
  assumes "chain_inv E s" "restored s s'"
  shows "chain_inv E s' \<and> hashBestChain s' = hashBestChain s \<and> mempool s' = mempool s \<and> ReadTxIndex (txdb s') = ReadTxIndex (txdb s)"
proof -
  from assms(2) obtain M c t db where s': "s' = s\<lparr> mapBlockIndex := M, mapTurbo := c, nBestInvalidTrust := t, txdb := db \<rparr>"
    and b: "bare (mapBlockIndex s) = bare M" "next_of M = next_of (mapBlockIndex s)" "db_inv db" "activeBatch db = None"
      "ReadTxIndex db = ReadTxIndex (txdb s)" "ReadHashBestChain db = ReadHashBestChain (txdb s)" unfolding restored_def by auto
  have i: "best_inv E s" using assms(1) by (simp add: chain_inv_def)
  note i = i [unfolded best_inv_def]
  have t: "tree_inv M" "M (hashBestChain s) \<noteq> None" "height M (hashBestChain s) = height (mapBlockIndex s) (hashBestChain s)"
    using i bare_tree(1,4,5) [OF b(1)] by auto
  have d: "on_disk M" by (rule on_disk_bare [OF b(1)]) (use i in blast)
  have g: "\<forall>h nd. M h = Some nd \<longrightarrow> pprev nd = None \<longrightarrow> pindexGenesisBlock s = Some h"
    using roots_bare [OF b(1), where Q = "\<lambda>h. pindexGenesisBlock s = Some h"] i by blast
  have p: "pnext_inv M (hashBestChain s)" using pnext_inv_cong [OF b(1,2)] i by blast
  have l: "ledger_at E M (hashBestChain s) (ReadTxIndex (txdb s))" using ledger_at_bare [OF b(1)] i by blast
  have n: "nChainTrust (hd (chain_of M (hashBestChain s))) = nChainTrust (hd (chain_of (mapBlockIndex s) (hashBestChain s)))"
    by (rule trust_bare [OF b(1)]) (use i in simp_all)
  have "best_inv E s'" using i unfolding best_inv_def s' by (simp add: t d g p l n b(5,6))
  then show ?thesis using b by (simp add: chain_inv_def s')
qed

lemma switched_inv:
  assumes "best_inv E s" "mapBlockIndex s h \<noteq> None" "switched E T h s s1"
  shows "chain_inv E (drop_batch (set_best E h h s1)) \<and> hashBestChain (drop_batch (set_best E h h s1)) = h
    \<and> pool_good (xe_hash E) T (mempool (drop_batch (set_best E h h s1)))"
proof -
  from assms(3) obtain M c p f t db where s1: "s1 = s\<lparr> mapBlockIndex := M, mapTurbo := c, mempool := p, free_limit := f, nBestInvalidTrust := t, txdb := db \<rparr>"
    and b: "bare (mapBlockIndex s) = bare M" "pnext_inv M h" "db_inv db" "activeBatch db = None" "ReadHashBestChain db = Some h"
      "ledger_at E M h (ReadTxIndex db)" "pool_good (xe_hash E) T p" unfolding switched_def by auto
  have d: "drop_batch (set_best E h h s1) = set_best E h h s1" using b(4) by (simp add: drop_batch_def set_best_def s1 Let_def)
  have g: "pool_good (xe_hash E) T (p\<lparr> nTransactionsUpdated := n \<rparr>)" for n using b(7) by (simp add: pool_good_def pool_inv_def)
  note i = assms(1) [unfolded best_inv_def]
  have t: "tree_inv M" "M h \<noteq> None" using i assms(2) bare_tree(1,5) [OF b(1)] by auto
  then have h: "nHeight (hd (chain_of M h)) = height M h" using path_hd by (fastforce simp: height_def)
  have od: "on_disk M" by (rule on_disk_bare [OF b(1)]) (use i in blast)
  have r: "\<forall>h nd. M h = Some nd \<longrightarrow> pprev nd = None \<longrightarrow> pindexGenesisBlock s = Some h"
    using roots_bare [OF b(1), where Q = "\<lambda>h. pindexGenesisBlock s = Some h"] i by blast
  have "best_inv E (set_best E h h s1)" using i unfolding best_inv_def s1 set_best_def Let_def by (simp add: t od r h b)
  then show ?thesis unfolding d using b g by (simp add: chain_inv_def s1 set_best_def Let_def)
qed

lemma begin_db_at:
  assumes "at_block E a s" "db_inv (txdb s)" "activeBatch (txdb s) = None"
  shows "\<exists>db. begin_db s = (Inr (), s\<lparr> txdb := db \<rparr>) \<and> in_txn (pdb (txdb s)) db \<and> at_block E a (s\<lparr> txdb := db \<rparr>)
    \<and> ReadTxIndex db = ReadTxIndex (txdb s) \<and> ReadHashBestChain db = ReadHashBestChain (txdb s)"
proof -
  from TxnBegin_txn [OF assms(2,3)] obtain db where db: "TxnBegin (txdb s) = Some (True, db)" "in_txn (pdb (txdb s)) db"
    "ReadTxIndex db = ReadTxIndex (txdb s)" "ReadHashBestChain db = ReadHashBestChain (txdb s)" by blast
  have "at_block E a (s\<lparr> txdb := db \<rparr>)" using assms(1) by (simp add: at_block_def db(3,4))
  then show ?thesis using db by (intro exI [of _ db]) (simp add: begin_db_def)
qed

lemma begin_db_view:
  assumes "chain_inv E s"
  shows "\<exists>db. begin_db s = (Inr (), s\<lparr> txdb := db \<rparr>) \<and> in_txn (pdb (txdb s)) db \<and> best_inv E (s\<lparr> txdb := db \<rparr>)"
proof -
  have c: "best_inv E s" "db_inv (txdb s)" "activeBatch (txdb s) = None" using assms by (simp_all add: chain_inv_def)
  from begin_db_at [OF best_inv_at [OF c(1)] c(2,3)] obtain db where db: "begin_db s = (Inr (), s\<lparr> txdb := db \<rparr>)" "in_txn (pdb (txdb s)) db"
    "ReadTxIndex db = ReadTxIndex (txdb s)" "ReadHashBestChain db = ReadHashBestChain (txdb s)" by blast
  have "best_inv E (s\<lparr> txdb := db \<rparr>)" using c(1) by (simp add: best_inv_def db(3,4))
  then show ?thesis using db(1,2) by blast
qed

section \<open>Postponed blocks\<close>

lemma switched_refl:
  assumes "at_block E a s" "db_inv (txdb s)" "activeBatch (txdb s) = None" "pool_good (xe_hash E) T (mempool s)"
  shows "switched E T a s s"
  unfolding switched_def using assms
  by (intro exI [of _ "mapBlockIndex s"] exI [of _ "mapTurbo s"] exI [of _ "mempool s"] exI [of _ "free_limit s"] exI [of _ "nBestInvalidTrust s"] exI [of _ "txdb s"])
    (simp add: at_block_def)

lemma switched_at:
  assumes "switched E T h s s'" "tree_inv (mapBlockIndex s)" "on_disk (mapBlockIndex s)" "mapBlockIndex s h \<noteq> None"
  shows "at_block E h s' \<and> db_inv (txdb s') \<and> activeBatch (txdb s') = None \<and> pool_good (xe_hash E) T (mempool s') \<and> bare (mapBlockIndex s') = bare (mapBlockIndex s)"
proof -
  from assms(1) obtain M c p f t db where s': "s' = s\<lparr> mapBlockIndex := M, mapTurbo := c, mempool := p, free_limit := f, nBestInvalidTrust := t, txdb := db \<rparr>"
    and b: "bare (mapBlockIndex s) = bare M" "pnext_inv M h" "db_inv db" "activeBatch db = None" "ReadHashBestChain db = Some h"
      "ledger_at E M h (ReadTxIndex db)" "pool_good (xe_hash E) T p" unfolding switched_def by auto
  have "tree_inv M" "M h \<noteq> None" using bare_tree(1,5) [OF b(1)] assms(2,4) by simp_all
  moreover have "on_disk M" using on_disk_bare [OF b(1) assms(3)] .
  ultimately show ?thesis using b unfolding s' by (simp add: at_block_def)
qed

lemma switched_trans: "switched E T k s s1 \<Longrightarrow> switched E T h s1 s2 \<Longrightarrow> switched E T h s s2"
  unfolding switched_def by fastforce

lemma switched_restored:
  assumes "switched E T k s s1" "restored s1 s2"
  shows "switched E T k s s2"
proof -
  from assms(1) obtain M c p f t db where s1: "s1 = s\<lparr> mapBlockIndex := M, mapTurbo := c, mempool := p, free_limit := f, nBestInvalidTrust := t, txdb := db \<rparr>"
    and b: "bare M = bare (mapBlockIndex s)" "pnext_inv M k" "ReadHashBestChain db = Some k"
      "ledger_at E M k (ReadTxIndex db)" "pool_good (xe_hash E) T p" unfolding switched_def by auto
  from assms(2) obtain M2 c2 t2 db2 where s2: "s2 = s1\<lparr> mapBlockIndex := M2, mapTurbo := c2, nBestInvalidTrust := t2, txdb := db2 \<rparr>"
    and d: "bare M2 = bare M" "next_of M2 = next_of M" "db_inv db2" "activeBatch db2 = None" "ReadTxIndex db2 = ReadTxIndex db"
      "ReadHashBestChain db2 = ReadHashBestChain db" unfolding restored_def s1 by auto
  have "pnext_inv M2 k" using pnext_inv_cong [OF d(1) [symmetric] d(2)] b(2) by blast
  moreover have "ledger_at E M2 k (ReadTxIndex db2)" using ledger_at_bare [OF d(1) [symmetric] b(4)] d(5) by simp
  ultimately show ?thesis unfolding switched_def s2 s1 using b d
    by (intro exI [of _ M2] exI [of _ c2] exI [of _ p] exI [of _ f] exI [of _ t2] exI [of _ db2]) simp
qed

lemma switched_txdb: "switched E T h (s\<lparr> txdb := db \<rparr>) s' \<Longrightarrow> switched E T h s s'"
  unfolding switched_def by fastforce

lemma failed_restored:
  assumes "batch_only (pdb (txdb s)) (s\<lparr> txdb := db \<rparr>) s1" "s' = (if thrown v then s1 else InvalidChainFound E h (abort_db s1))"
    "db_inv (txdb s)" "activeBatch (txdb s) = None"
  shows "restored s (drop_batch s')"
proof -
  have "restored s (abort_db s1)" by (rule abort_restored [OF assms(1,3,4)])
  then show ?thesis unfolding assms(2) by (cases "thrown v") (simp_all add: drop_abort drop_restored [unfolded drop_abort] InvalidChainFound_restored)
qed

abbreviation (input) trust_of :: "block_tree \<Rightarrow> uint256 \<Rightarrow> uint256" where
  "trust_of M h \<equiv> nChainTrust (hd (chain_of M h))"

lemma postpone_chain:
  assumes "tree_inv M" "M h \<noteq> None"
  shows "\<exists>k v. postpone t (chain_of M h) = (chain_of M k, v) \<and> M k \<noteq> None \<and> climbs M k (rev v) \<and> last (k # rev v) = h
    \<and> set (k # v) \<subseteq> set (path M h) \<and> (\<forall>d \<in> set v. \<exists>p. parent M d = Some p \<and> trust_of M p > t) \<and> (v = [] \<longleftrightarrow> \<not> (\<exists>p. parent M h = Some p \<and> trust_of M p > t))"
  using assms
proof (induction h rule: tree_induct)
  case (node h)
  obtain nd where nd: "M h = Some nd" using node(1) by blast
  note c = chain_unfold [OF assms(1) nd] and u = path_unfold [OF assms(1) node(1)]
  have h: "phashBlock (node_bi nd) = h" by (rule tree_invD(1) [OF assms(1) nd])
  show ?case
  proof (cases "pprev nd")
    case None
    then show ?thesis using c nd u by (intro exI [of _ h] exI [of _ "[]"]) (simp add: parent_def)
  next
    case (Some q)
    then have q: "parent M h = Some q" using nd by (simp add: parent_def)
    have Mq: "M q \<noteq> None" using parent_height [OF assms(1) q] by simp
    then obtain x cs where cs: "chain_of M q = x # cs" using chain_Nil [OF assms(1)] by (metis list.exhaust)
    have ch: "chain_of M h = node_bi nd # x # cs" using c Some cs by simp
    show ?thesis
    proof (cases "trust_of M q > t")
      case True
      from node(2) [OF q] obtain k v where k: "postpone t (chain_of M q) = (chain_of M k, v)" "M k \<noteq> None" "climbs M k (rev v)" "last (k # rev v) = q"
        "set (k # v) \<subseteq> set (path M q)" "\<forall>d \<in> set v. \<exists>p. parent M d = Some p \<and> trust_of M p > t" by blast
      have "postpone t (chain_of M h) = (chain_of M k, h # v)" unfolding ch using True k(1) cs h by simp
      then show ?thesis using k(2-6) True q u node(1) climbs_snoc [of M k "rev v" h] by (intro exI [of _ k] exI [of _ "h # v"]) auto
    next
      case False
      then have "postpone t (chain_of M h) = (chain_of M h, [])" unfolding ch using cs by simp
      then show ?thesis using False q u node(1) by (intro exI [of _ h] exI [of _ "[]"]) simp
    qed
  qed
qed

text \<open>The block could not be read, or connecting it on top of the state failed.\<close>

definition refuses :: "'d chain_env \<Rightarrow> uint256 \<Rightarrow> 'd node \<Rightarrow> bool" where
  "refuses E d s \<longleftrightarrow> (case ReadFromDisk E (hd (chain_of (mapBlockIndex s) d)) of None \<Rightarrow> True
     | Some b \<Rightarrow> \<not> is_ok (fst (SetBestChainInner E b d (snd (begin_db s)))))"

text \<open>Connecting postponed blocks ends at the last one, or below one that is refused; only an exception leaves the loop as a failure.\<close>

definition stops :: "'d chain_env \<Rightarrow> block_tree \<Rightarrow> uint256 list \<Rightarrow> uint256 \<Rightarrow> unit checked \<Rightarrow> bool" where
  "stops E M hs c r \<longleftrightarrow> (r = Inr () \<or> (\<exists>v. r = Inl v \<and> thrown v))
     \<and> (\<exists>d \<in> set hs. parent M d = Some c \<and> (\<exists>sc. at_block E c sc \<and> bare (mapBlockIndex sc) = bare M \<and> refuses E d sc))"

lemma connect_further_ok:
  assumes "txs_of E T"
  shows "at_block E k s \<Longrightarrow> db_inv (txdb s) \<Longrightarrow> activeBatch (txdb s) = None \<Longrightarrow> climbs (mapBlockIndex s) k hs \<Longrightarrow>
    pool_good (xe_hash E) T (mempool s) \<Longrightarrow> connect_further E hs s = (r, s') \<Longrightarrow>
    \<exists>c. switched E T c s (drop_batch s') \<and> c \<in> set (k # hs) \<and> (c = last (k # hs) \<and> r = Inr () \<or> stops E (mapBlockIndex s) hs c r)"
proof (induction hs arbitrary: k s)
  case Nil
  have "drop_batch s = s" using Nil.prems(3) by (simp add: drop_batch_def)
  then show ?case using switched_refl [OF Nil.prems(1-3,5)] Nil.prems(6) by auto
next
  case (Cons h hs)
  let ?M = "mapBlockIndex s"
  note refl = switched_refl [OF Cons.prems(1-3,5)]
  have t: "tree_inv ?M" "on_disk ?M" using Cons.prems(1) by (simp_all add: at_block_def)
  obtain nd where nd: "?M h = Some nd" "pprev nd = Some k" using Cons.prems(4) by (auto simp: parent_node)
  have hd: "hd (chain_of ?M h) = node_bi nd" using path_hd [OF t(1) nd(1)] by blast
  have here: "c = k \<Longrightarrow> refuses E h s \<Longrightarrow> r = Inr () \<or> (\<exists>v. r = Inl v \<and> thrown v) \<Longrightarrow> stops E ?M (h # hs) c r" for c
    using Cons.prems(1,4) unfolding stops_def by auto
  show ?case
  proof (cases "ReadFromDisk E (node_bi nd)")
    case None
    then have "r = Inr ()" "s' = s" "refuses E h s" using Cons.prems(6) hd by (simp_all add: refuses_def)
    moreover have "drop_batch s = s" using Cons.prems(3) by (simp add: drop_batch_def)
    ultimately show ?thesis using refl here [of k] by auto
  next
    case (Some b)
    from begin_db_at [OF Cons.prems(1-3)] obtain db where db: "begin_db s = (Inr (), s\<lparr> txdb := db \<rparr>)" "in_txn (pdb (txdb s)) db"
      "at_block E k (s\<lparr> txdb := db \<rparr>)" by blast
    obtain r1 s1 where i: "SetBestChainInner E b h (s\<lparr> txdb := db \<rparr>) = (r1, s1)" by (metis surj_pair)
    note ok = SetBestChainInner_ok [OF db(3) _ _ nd(2) Some i assms, of "pdb (txdb s)"]
    show ?thesis
    proof (cases r1)
      case (Inl v)
      then have r: "s' = s1" "r = (if thrown v then Inl v else Inr ())" "refuses E h s"
        using Cons.prems(6) hd Some db(1) i by (simp_all add: refuses_def)
      obtain s2 where s2: "batch_only (pdb (txdb s)) (s\<lparr> txdb := db \<rparr>) s2" "s1 = (if thrown v then s2 else InvalidChainFound E h (abort_db s2))"
        using ok db(2) nd(1) Cons.prems(5) Inl by auto
      have "restored s (drop_batch s')" unfolding r(1) by (rule failed_restored [OF s2 Cons.prems(2,3)])
      then show ?thesis using switched_restored [OF refl] here [of k] r(2,3) by (cases "thrown v") auto
    next
      case (Inr u)
      then have cf: "connect_further E hs s1 = (r, s')" using Cons.prems(6) hd Some db(1) i by simp
      have sw: "switched E T h s s1" using ok db(2) nd(1) Cons.prems(5) Inr switched_txdb by simp
      note at = switched_at [OF sw t] 
      have cl: "climbs (mapBlockIndex s1) h hs" using climbs_bare at nd(1) Cons.prems(4) by (metis climbs.simps(2) option.distinct(1))
      from Cons.IH [OF _ _ _ cl _ cf] at nd(1) obtain c where
        c: "switched E T c s1 (drop_batch s')" "c \<in> set (h # hs)" "c = last (h # hs) \<and> r = Inr () \<or> stops E (mapBlockIndex s1) hs c r" by auto
      have "stops E (mapBlockIndex s1) hs c r \<Longrightarrow> stops E ?M (h # hs) c r"
        using bare_tree(3) [of "mapBlockIndex s1" ?M] at nd(1) unfolding stops_def by auto
      then show ?thesis using c switched_trans [OF sw c(1)] by (intro exI [of _ c]) auto
    qed
  qed
qed

section \<open>The whole of \<open>SetBestChain\<close>\<close>

text \<open>Where a successful reorganisation towards \<open>h\<close> ends: at \<open>h\<close>, or below a postponed block that is refused.\<close>

definition reached :: "'d chain_env \<Rightarrow> 'd node \<Rightarrow> uint256 \<Rightarrow> uint256 \<Rightarrow> unit checked \<Rightarrow> bool" where
  "reached E s h c r \<longleftrightarrow> c \<in> set (path (mapBlockIndex s) h) \<and> (c = h \<and> r = Inr () \<or> nBestChainTrust s < trust_of (mapBlockIndex s) c
     \<and> (\<exists>p. parent (mapBlockIndex s) h = Some p \<and> nBestChainTrust s < trust_of (mapBlockIndex s) p)
     \<and> (\<exists>hs. set hs \<subseteq> set (path (mapBlockIndex s) h) \<and> stops E (mapBlockIndex s) hs c r))"

lemma reached_stuck:
  assumes "reached E s h c r" "\<not> (c = h \<and> r = Inr ())"
  shows "\<exists>d sc. d \<in> set (path (mapBlockIndex s) h) \<and> parent (mapBlockIndex s) d = Some c \<and> at_block E c sc \<and> refuses E d sc"
    "nBestChainTrust s < trust_of (mapBlockIndex s) c" "\<exists>p. parent (mapBlockIndex s) h = Some p \<and> nBestChainTrust s < trust_of (mapBlockIndex s) p"
proof -
  from assms obtain hs where hs: "set hs \<subseteq> set (path (mapBlockIndex s) h)" "stops E (mapBlockIndex s) hs c r" unfolding reached_def by blast
  then show "\<exists>d sc. d \<in> set (path (mapBlockIndex s) h) \<and> parent (mapBlockIndex s) d = Some c \<and> at_block E c sc \<and> refuses E d sc"
    unfolding stops_def by blast
qed (use assms in \<open>unfold reached_def, blast+\<close>)

text \<open>A call that failed before the database committed anything.\<close>

definition undone :: "'d chain_env \<Rightarrow> (byte list \<rightharpoonup> byte list) \<Rightarrow> uint256 \<Rightarrow> 'd node \<Rightarrow> unit checked \<times> 'd node \<Rightarrow> bool" where
  "undone E P h s rs \<longleftrightarrow> (\<exists>v s1. batch_only P s s1 \<and> rs = (Inl v, if thrown v then s1 else InvalidChainFound E h (abort_db s1)))"

lemma switch_chain_ok:
  assumes "best_inv E s" "in_txn P (txdb s)" "no_repeats E (mapBlockIndex s)" "mapBlockIndex s h \<noteq> None" "switch_chain E h s = (r, s')"
    "txs_of E T" "pool_good (xe_hash E) T (mempool s)"
  shows "undone E P h s (r, s') \<or> (\<exists>c. switched E T c s (drop_batch s') \<and> reached E s h c r)"
proof -
  let ?M = "mapBlockIndex s"
  have t: "tree_inv ?M" "on_disk ?M" "pindexBest s = Some (hashBestChain s)" "nBestChainTrust s = trust_of ?M (hashBestChain s)"
    using assms(1) by (simp_all add: best_inv_def)
  from postpone_chain [OF t(1) assms(4), of "nBestChainTrust s"] obtain k v where
    k: "postpone (nBestChainTrust s) (chain_of ?M h) = (chain_of ?M k, v)" "?M k \<noteq> None" "climbs ?M k (rev v)" "last (k # rev v) = h"
      "set (k # v) \<subseteq> set (path ?M h)" "\<forall>d \<in> set v. \<exists>p. parent ?M d = Some p \<and> trust_of ?M p > nBestChainTrust s"
      "v = [] \<longleftrightarrow> \<not> (\<exists>p. parent ?M h = Some p \<and> trust_of ?M p > nBestChainTrust s)" by blast
  have hk: "phashBlock (hd (chain_of ?M k)) = k" using path_hd [OF t(1)] k(2) by blast
  obtain r1 s1 where R: "Reorganize E k s = (r1, s1)" by (metis surj_pair)
  note ok = Reorganize_ok [OF assms(1-3) k(2) R assms(6,7)]
  show ?thesis
  proof (cases r1)
    case (Inl w)
    then have "(r, s') = (Inl w, if thrown w then s1 else InvalidChainFound E h (abort_db s1))"
      using assms(5) t(3,4) k(1) hk R by (simp add: switch_chain_def split: if_splits)
    then show ?thesis using ok Inl unfolding undone_def by auto
  next
    case (Inr u)
    then have cf: "connect_further E (rev v) s1 = (r, s')" and sw: "switched E T k s s1"
      using assms(5) t(3,4) k(1) hk R ok by (simp_all add: switch_chain_def)
    note at = switched_at [OF sw t(1,2) k(2)]
    have b: "bare ?M = bare (mapBlockIndex s1)" using at by simp
    have cl: "climbs (mapBlockIndex s1) k (rev v)" using k(3) climbs_bare [OF b] by simp
    have a: "at_block E k s1" "db_inv (txdb s1)" "activeBatch (txdb s1) = None" "pool_good (xe_hash E) T (mempool s1)" using at by simp_all
    from connect_further_ok [OF assms(6) a(1-3) cl a(4) cf, unfolded k(4)] obtain c where
      c: "switched E T c s1 (drop_batch s')" "c \<in> set (k # rev v)" "c = h \<and> r = Inr () \<or> stops E (mapBlockIndex s1) (rev v) c r" by blast
    have st: "stops E ?M (rev v) c r" if "stops E (mapBlockIndex s1) (rev v) c r"
      using that bare_tree(3) [OF b] b unfolding stops_def by auto
    have "reached E s h c r"
    proof (cases "c = h \<and> r = Inr ()")
      case False
      then have "stops E ?M (rev v) c r" using c(3) st by blast
      moreover from this obtain d where "d \<in> set v" "parent ?M d = Some c" by (auto simp: stops_def)
      moreover from this have "v \<noteq> []" by auto
      ultimately show ?thesis using k(5-7) c(2) unfolding reached_def by (auto intro!: exI [of _ "rev v"])
    qed (use c(2) k(5) in \<open>auto simp: reached_def\<close>)
    then show ?thesis using switched_trans [OF sw c(1)] by blast
  qed
qed

text \<open>The part of \<open>SetBestChain\<close> that moves the best chain, inside the database transaction.\<close>

definition advance :: "'d chain_env \<Rightarrow> CBlock \<Rightarrow> uint256 \<Rightarrow> 'd node \<Rightarrow> unit checked \<times> 'd node" where
  "advance E b h s = (if hashPrevBlock b = hashBestChain s then SetBestChainInner E b h s else switch_chain E h s)"

lemma advance_ok:
  assumes "best_inv E s" "in_txn P (txdb s)" "no_repeats E (mapBlockIndex s)" "mapBlockIndex s h = Some nd" "ReadFromDisk E (node_bi nd) = Some b"
    "pprev nd = Some (hashPrevBlock b)" "advance E b h s = (r, s')" "txs_of E T" "pool_good (xe_hash E) T (mempool s)"
  shows "undone E P h s (r, s') \<or> (\<exists>c. switched E T c s (drop_batch s') \<and> reached E s h c r)"
proof (cases "hashPrevBlock b = hashBestChain s")
  case True
  then have i: "SetBestChainInner E b h s = (r, s')" using assms(7) by (simp add: advance_def)
  note ok = SetBestChainInner_ok [OF best_inv_at [OF assms(1)] assms(2,4) _ assms(5) i assms(8,9)]
  show ?thesis
  proof (cases r)
    case (Inl v)
    then show ?thesis using ok assms(6) True unfolding undone_def by auto
  next
    case (Inr u)
    then have sw: "switched E T h s s'" using ok assms(6) True by simp
    then have "drop_batch s' = s'" by (auto simp: switched_def drop_batch_def)
    moreover have "h \<in> set (path (mapBlockIndex s) h)" using path_unfold [of "mapBlockIndex s" h] assms(1,4) by (simp add: best_inv_def)
    ultimately show ?thesis using sw Inr by (auto simp: reached_def)
  qed
next
  case False
  then have "switch_chain E h s = (r, s')" using assms(7) by (simp add: advance_def)
  then show ?thesis using switch_chain_ok [OF assms(1-3) _ _ assms(8,9)] assms(4) by simp
qed

lemma SetBestChain_ok:
  assumes "chain_inv E s" "no_repeats E (mapBlockIndex s)" "mapBlockIndex s h = Some nd" "ReadFromDisk E (node_bi nd) = Some b"
    "pprev nd = Some (hashPrevBlock b)" "txs_of E T" "pool_good (xe_hash E) T (mempool s)" "SetBestChain E b h s = (r, s')"
  shows "r \<noteq> Inr () \<and> restored s (drop_batch s')
    \<or> (\<exists>c s1. switched E T c s s1 \<and> reached E s h c r \<and> drop_batch s' = (if r = Inr () then set_best E h h s1 else s1))"
proof -
  have c: "best_inv E s" "db_inv (txdb s)" "activeBatch (txdb s) = None" using assms(1) by (simp_all add: chain_inv_def)
  then have t: "tree_inv (mapBlockIndex s)" "pindexGenesisBlock s \<noteq> None" by (simp_all add: best_inv_def)
  have hash: "block_hash E b = h" using assms(4) tree_invD(1) [OF t(1) assms(3)] by (auto simp: ReadFromDisk_def split: option.splits if_splits)
  obtain db where db: "begin_db s = (Inr (), s\<lparr> txdb := db \<rparr>)" "in_txn (pdb (txdb s)) db" "best_inv E (s\<lparr> txdb := db \<rparr>)"
    using begin_db_view [OF assms(1)] by blast
  let ?s0 = "s\<lparr> txdb := db \<rparr>"
  obtain r1 s1 where q: "advance E b h ?s0 = (r1, s1)" by (metis surj_pair)
  have SBC: "(r, s') = (case r1 of Inl v \<Rightarrow> (Inl v, s1) | Inr _ \<Rightarrow> (Inr (), set_best E h h s1))"
    using t(2) q assms(8) by (simp add: SetBestChain_def hash db(1) advance_def split: if_splits)
  then have res: "r1 = r" "s' = (if r = Inr () then set_best E h h s1 else s1)" by (cases r1; simp)+
  have "undone E (pdb (txdb s)) h ?s0 (r, s1) \<or> (\<exists>c. switched E T c ?s0 (drop_batch s1) \<and> reached E ?s0 h c r)"
    using advance_ok [OF db(3) _ _ _ assms(4) _ q assms(6), of "pdb (txdb s)"] db(2) assms(2,3,5,7) unfolding res(1) by simp
  then show ?thesis
  proof (elim disjE exE conjE)
    assume "undone E (pdb (txdb s)) h ?s0 (r, s1)"
    then obtain v s2 where u: "batch_only (pdb (txdb s)) ?s0 s2" "r = Inl v" "s1 = (if thrown v then s2 else InvalidChainFound E h (abort_db s2))"
      by (auto simp: undone_def)
    have "restored s (drop_batch s1)" by (rule failed_restored [OF u(1,3) c(2,3)])
    then show ?thesis using u(2) res(2) by simp
  next
    fix c' assume "switched E T c' ?s0 (drop_batch s1)" "reached E ?s0 h c' r"
    then have "switched E T c' s (drop_batch s1)" "reached E s h c' r" by (simp_all add: switched_txdb reached_def)
    moreover have "drop_batch s' = (if r = Inr () then set_best E h h (drop_batch s1) else drop_batch s1)"
      using res(2) by (simp add: drop_batch_def set_best_def Let_def)
    ultimately show ?thesis by blast
  qed
qed

lemma at_block_set_best: "at_block E c (set_best E h h s) = at_block E c s"
  by (simp add: at_block_def set_best_def Let_def)

lemma chain_inv_at: "chain_inv E s \<Longrightarrow> at_block E c s \<Longrightarrow> c = hashBestChain s"
  by (simp add: chain_inv_def best_inv_def at_block_def)

text \<open>
  C1: setting the best chain, by extending it or by reorganising to a branch, always leaves one block \<open>c\<close> on which the database and
  the index agree: the database records \<open>c\<close> as the best block, \<open>pnext\<close> links exactly the blocks of its chain, the transaction
  index is what connecting these blocks from the genesis block gives, and the memory pool has no conflicts.  On success the best block in
  memory is \<open>h\<close>; on failure, also by an exception, it is the old one, and if nothing was committed then transaction index and
  memory pool are as before once the database object is destroyed.  Memory and database are consistent (\<open>chain_inv\<close>) exactly when
  \<open>c\<close> is the best block in memory.  They disagree only when a block whose connection was postponed, because its parent \<open>c\<close> already has more trust than the
  old best chain, could not be read or connected: then memory names \<open>h\<close> although the database stopped at \<open>c\<close>.  If the parent
  of \<open>h\<close> has no more trust than the best chain nothing is postponed, and the node stays consistent.  No block of the index repeats a transaction of one of its ancestors.
\<close>

theorem SetBestChain_consistent:
  assumes "chain_inv E s" "no_repeats E (mapBlockIndex s)" "mapBlockIndex s h = Some nd" "ReadFromDisk E (node_bi nd) = Some b"
    "pprev nd = Some (hashPrevBlock b)" "txs_of E T" "pool_good (xe_hash E) T (mempool s)" "SetBestChain E b h s = (r, s1)" "s' = drop_batch s1"
  shows "\<exists>c. at_block E c s' \<and> db_inv (txdb s') \<and> activeBatch (txdb s') = None \<and> pool_good (xe_hash E) T (mempool s')
    \<and> hashBestChain s' = (if r = Inr () then h else hashBestChain s)
    \<and> (chain_inv E s' \<longleftrightarrow> c = hashBestChain s')
    \<and> (r \<noteq> Inr () \<and> c = hashBestChain s \<longrightarrow> ReadTxIndex (txdb s') = ReadTxIndex (txdb s) \<and> mempool s' = mempool s)
    \<and> (c \<noteq> hashBestChain s' \<longrightarrow> (\<exists>d sc. d \<in> set (map phashBlock (chain_of (mapBlockIndex s) h)) \<and> parent (mapBlockIndex s) d = Some c
        \<and> nBestChainTrust s < nChainTrust (hd (chain_of (mapBlockIndex s) c)) \<and> at_block E c sc \<and> refuses E d sc))
    \<and> (nChainTrust (hd (chain_of (mapBlockIndex s) (hashPrevBlock b))) \<le> nBestChainTrust s \<longrightarrow> chain_inv E s')"
  using SetBestChain_ok [OF assms(1-8)]
proof (elim disjE conjE exE)
  assume "r \<noteq> Inr ()" "restored s (drop_batch s1)"
  then show ?thesis using restored_inv [OF assms(1), of s'] best_inv_at [of E s'] assms(7) unfolding assms(9)
    by (intro exI [of _ "hashBestChain s"]) (auto simp: chain_inv_def)
next
  fix c s2 assume sw: "switched E T c s s2" and re: "reached E s h c r" and d: "drop_batch s1 = (if r = Inr () then set_best E h h s2 else s2)"
  have i: "best_inv E s" "tree_inv (mapBlockIndex s)" "on_disk (mapBlockIndex s)" "nBestChainTrust s = trust_of (mapBlockIndex s) (hashBestChain s)"
    using assms(1) by (simp_all add: chain_inv_def best_inv_def)
  have Mh: "mapBlockIndex s h \<noteq> None" using assms(3) by simp
  have "mapBlockIndex s c \<noteq> None" using re path_mem [OF i(2) Mh] by (auto simp: reached_def)
  note at = switched_at [OF sw i(2,3) this]
  have h: "hashBestChain s2 = hashBestChain s" using sw by (auto simp: switched_def)
  have s': "s' = (if r = Inr () then set_best E h h s2 else s2)" using d assms(9) by simp
  then have m: "hashBestChain s' = (if r = Inr () then h else hashBestChain s)" using h by (simp add: set_best_def Let_def)
  have at': "at_block E c s'" using at at_block_set_best s' by auto
  have db: "db_inv (txdb s')" "activeBatch (txdb s') = None" "pool_good (xe_hash E) T (mempool s')"
    using at s' by (auto simp: set_best_def Let_def pool_good_def pool_inv_def)
  have good: "chain_inv E s'" if "c = hashBestChain s'"
  proof (cases "r = Inr ()")
    case True
    then have "drop_batch s' = s'" "switched E T h s s2" using that m sw db(2) by (simp_all add: drop_batch_def)
    then show ?thesis using switched_inv [OF i(1) Mh, of T s2] True s' by simp
  next
    case False
    then show ?thesis using that re m i(4) by (auto simp: reached_def)
  qed
  have stuck: "\<exists>d sc. d \<in> set (path (mapBlockIndex s) h) \<and> parent (mapBlockIndex s) d = Some c
      \<and> nBestChainTrust s < trust_of (mapBlockIndex s) c \<and> at_block E c sc \<and> refuses E d sc"
    and par: "nBestChainTrust s < trust_of (mapBlockIndex s) (hashPrevBlock b)" if "c \<noteq> hashBestChain s'"
  proof -
    have "\<not> (c = h \<and> r = Inr ())" using that m by auto
    note st = reached_stuck [OF re this]
    show "\<exists>d sc. d \<in> set (path (mapBlockIndex s) h) \<and> parent (mapBlockIndex s) d = Some c
      \<and> nBestChainTrust s < trust_of (mapBlockIndex s) c \<and> at_block E c sc \<and> refuses E d sc" using st(1,2) by blast
    show "nBestChainTrust s < trust_of (mapBlockIndex s) (hashPrevBlock b)" using st(3) assms(3,5) by (auto simp: parent_def)
  qed
  have "r \<noteq> Inr () \<Longrightarrow> c \<noteq> hashBestChain s" using re i(4) by (auto simp: reached_def)
  moreover have "nChainTrust (hd (chain_of (mapBlockIndex s) (hashPrevBlock b))) \<le> nBestChainTrust s \<Longrightarrow> c = hashBestChain s'" using par by fastforce
  ultimately show ?thesis using at' db m good stuck chain_inv_at [of E s' c] by (intro exI [of _ c]) blast
qed

section \<open>Two blocks on top of the genesis block\<close>

text \<open>
  A node at the genesis block, with a block \<open>80\<close> that connects and a block \<open>0\<close> on top of it, which has no transactions.
  Both are in the index and neither is connected.
\<close>

definition lost_block :: CBlock where
  "lost_block = coin_block\<lparr> hashPrevBlock := 80, blk_nTime := 1432620200, vtx := [] \<rparr>"

definition coin_env :: "unit chain_env" where
  "coin_env = \<lparr> xe_block = sample_block_env\<lparr> be_blk := (\<lambda>_ n. Some (if n = 0 then coin_block else lost_block)) \<rparr>, xe_pool = sample_pool_env, xe_fast = True \<rparr>"

abbreviation (input) genesis_index :: CBlockIndex where
  "genesis_index \<equiv> (sample_index 0 1432620000 0)\<lparr> phashBlock := 1 \<rparr>"

abbreviation (input) coin_index :: CBlockIndex where
  "coin_index \<equiv> (sample_index 1 1442210400 0x1d00ffff)\<lparr> phashBlock := 80, nChainTrust := 1 \<rparr>"

abbreviation (input) lost_index :: CBlockIndex where
  "lost_index \<equiv> (sample_index 2 1432620200 0x1d00ffff)\<lparr> phashBlock := 0, nBlockPos := 1, nChainTrust := 2 \<rparr>"

definition coin_node :: "unit node" where
  "coin_node = \<lparr> mapBlockIndex = [1 \<mapsto> \<lparr> node_bi = genesis_index, pprev = None, pnext = None \<rparr>,
       80 \<mapsto> \<lparr> node_bi = coin_index, pprev = Some 1, pnext = None \<rparr>, 0 \<mapsto> \<lparr> node_bi = lost_index, pprev = Some 80, pnext = None \<rparr>],
     pindexGenesisBlock = Some 1, pindexBest = Some 1, hashBestChain = 1, nBestHeight = 0, nBestChainTrust = 0, nBestInvalidTrust = 0,
     nTimeBestReceived = 0, setStakeSeen = {}, mempool = CTxMemPool_empty, free_limit = ((), 0), mapTurbo = Map.empty, pblockindexFBBHLast = None,
     txdb = \<lparr> pdb = [best_key \<mapsto> ser_word (1 :: uint256)], pdb_ok = True, activeBatch = None, fReadOnly = False \<rparr> \<rparr>"

lemma coin_tree: "tree_inv (mapBlockIndex coin_node)" "chain_of (mapBlockIndex coin_node) 1 = [genesis_index]"
  "chain_of (mapBlockIndex coin_node) 80 = [coin_index, genesis_index]" "chain_of (mapBlockIndex coin_node) 0 = [lost_index, coin_index, genesis_index]"
proof -
  show t: "tree_inv (mapBlockIndex coin_node)" by (auto simp: tree_inv_def coin_node_def sample_index_def height_def)
  note u = chain_unfold [OF t]
  show 1: "chain_of (mapBlockIndex coin_node) 1 = [genesis_index]" 
    by (subst u [where nd = "\<lparr> node_bi = genesis_index, pprev = None, pnext = None \<rparr>"]) (simp_all, simp add: coin_node_def)
  show 2: "chain_of (mapBlockIndex coin_node) 80 = [coin_index, genesis_index]"
    by (subst u [where nd = "\<lparr> node_bi = coin_index, pprev = Some 1, pnext = None \<rparr>"]) (simp_all add: 1, simp add: coin_node_def)
  show "chain_of (mapBlockIndex coin_node) 0 = [lost_index, coin_index, genesis_index]"
    by (subst u [where nd = "\<lparr> node_bi = lost_index, pprev = Some 80, pnext = None \<rparr>"]) (simp_all add: 2, simp add: coin_node_def)
qed

lemma lost_block_hash: "CBlock_GetHash (s_hash check_lib) (ke_hash9 check_sample) lost_block = 0"
  by (simp add: CBlock_GetHash_def lost_block_def check_sample_def)

lemma coin_read: "ReadFromDisk coin_env p = (if nBlockPos p = 0 then (if phashBlock p = 80 then Some coin_block else None)
    else if phashBlock p = 0 then Some lost_block else None)"
  by (simp add: ReadFromDisk_def coin_env_def sample_env_lib coin_block_hash lost_block_hash)

lemma coin_inv: "chain_inv coin_env coin_node"
proof -
  have db: "db_inv (txdb coin_node)" by (simp add: db_inv_def coin_node_def)
  have "kv (txdb coin_node) (tx_key h) = None" for h using key_distinct(2) [of h] by (simp add: coin_node_def kv_def)
  then have "ReadTxIndex (txdb coin_node) h = None" for h using ReadTxIndex_kv [OF db, of h] by simp
  then have r: "ReadTxIndex (txdb coin_node) = Map.empty" by auto
  have "kv (txdb coin_node) best_key = Some (ser_word (1 :: uint256))" by (simp add: coin_node_def kv_def)
  then have h: "ReadHashBestChain (txdb coin_node) = Some 1"
    using u256.unser_ser [of 1 "[]"] ReadHashBestChain_kv [OF db] by simp
  have l: "ledger_at coin_env (mapBlockIndex coin_node) 1 Map.empty"
    by (rule ledger_genesis [of _ _ "\<lparr> node_bi = genesis_index, pprev = None, pnext = None \<rparr>"]) (simp_all add: coin_node_def)
  have p: "pnext_inv (mapBlockIndex coin_node) 1"
    unfolding pnext_inv_def coin_tree(2) by (auto simp: next_of_def parent_def coin_node_def split: if_splits)
  have "on_disk (mapBlockIndex coin_node)" by (auto simp: coin_node_def sample_index_def)
  then have "best_inv coin_env coin_node" unfolding best_inv_def using coin_tree r h l p
    by (simp add: height_def) (auto simp: coin_node_def sample_index_def height_def split: if_splits)
  then show ?thesis using db by (simp add: chain_inv_def) (simp add: coin_node_def)
qed

lemma coin_repeats: "no_repeats coin_env (mapBlockIndex coin_node)"
proof -
  have "tx_ids coin_env (chain_of (mapBlockIndex coin_node) 1) = {}" unfolding coin_tree(2) by (simp add: tx_ids_def coin_read sample_index_def)
  moreover have "tx_ids coin_env [lost_index] = {}" by (simp add: tx_ids_def coin_read sample_index_def) (simp add: lost_block_def)
  moreover have "k = 1 \<or> node_bi nd = lost_index" if "mapBlockIndex coin_node h = Some nd" "pprev nd = Some k" for h nd k
    using that by (auto simp: coin_node_def split: if_splits)
  ultimately show ?thesis unfolding no_repeats_def by (metis inf_bot_left inf_bot_right)
qed

lemma coin_txs: "txs_of coin_env {sample_coinbase}" "pool_good (xe_hash coin_env) {sample_coinbase} (mempool coin_node)"
proof -
  have e: "xe_hash coin_env = s_hash check_lib" "pe_hash (xe_pool coin_env) = s_hash check_lib"
    "\<And>f n. be_blk (xe_block coin_env) f n = Some (if n = 0 then coin_block else lost_block)"
    by (simp_all add: coin_env_def sample_env_lib sample_pool_lib)
  have "{(GetHash (s_hash check_lib) a, GetHash (s_hash check_lib) b) | a b. a \<in> {sample_coinbase} \<and> b \<in> {sample_coinbase}
      \<and> GetHash (s_hash check_lib) a \<in> (op_hash \<circ> prevout) ` set (vin b)} = {}"
    by (simp add: sample_hashes sample_sizes) (simp add: sample_coinbase_def null_outpoint_def)
  then have "sound_hashes (s_hash check_lib) {sample_coinbase}" unfolding sound_hashes_def by (simp only:) (simp add: acyclic_def)
  then show "txs_of coin_env {sample_coinbase}" by (simp add: txs_of_def e coin_block_sel(1)) (simp add: lost_block_def)
  show "pool_good (xe_hash coin_env) {sample_coinbase} (mempool coin_node)"
    by (simp add: coin_node_def pool_good_def pool_inv_empty) (simp add: CTxMemPool_empty_def)
qed

text \<open>Inside the database transaction: the block \<open>80\<close> connects, and the reorganisation to it succeeds.\<close>

lemma coin_connect_at:
  assumes "in_txn P db" "ReadTxIndex db = Map.empty"
  shows "\<exists>s1. connect_at coin_env 80 coin_block (coin_node\<lparr> txdb := db \<rparr>) = (Inr (), s1)"
proof -
  let ?s = "coin_node\<lparr> txdb := db \<rparr>"
  have "be_kernel (state_env coin_env ?s) = check_sample" "be_time (state_env coin_env ?s) = 1442210400"
    by (simp_all add: state_env_def coin_env_def sample_block_env_def)
  from coin_connects [OF this in_txn_inv [OF assms(1)], of "chain_of (mapBlockIndex ?s) 80"] assms(2) obtain p db1 cache where
    "ConnectBlock (state_env coin_env ?s) ReadTxIndex UpdateTxIndex (write_index coin_env) (chain_of (mapBlockIndex ?s) 80)
       (next_hash (mapBlockIndex ?s) 80) False coin_block (mapTurbo ?s) (txdb ?s) = (Inr (p, db1), cache)"
    unfolding write_index_def using coin_tree(3) by (fastforce simp: sample_index_def)
  then show ?thesis by (simp add: connect_at_def)
qed

lemma coin_reorganize:
  assumes "in_txn P db" "ReadTxIndex db = Map.empty"
  shows "\<exists>s'. Reorganize coin_env 80 (coin_node\<lparr> txdb := db \<rparr>) = (Inr (), s')"
proof -
  let ?s = "coin_node\<lparr> txdb := db \<rparr>"
  obtain s1 where c: "connect_at coin_env 80 coin_block ?s = (Inr (), s1)" using coin_connect_at [OF assms] by blast
  have nd: "mapBlockIndex ?s 80 = Some \<lparr> node_bi = coin_index, pprev = Some 1, pnext = None \<rparr>" by (simp add: coin_node_def)
  have t: "tree_inv (mapBlockIndex ?s)" using coin_tree(1) by simp
  from connect_at_view [OF c _ t nd, of P] assms(1) obtain M1 c1 db1 where
    s1: "s1 = ?s\<lparr> mapBlockIndex := M1, mapTurbo := c1, txdb := db1 \<rparr>" "in_txn P db1" by (auto simp: sample_index_def)
  from write_best_view [of P s1 80] s1 obtain db3 where w: "write_best 80 s1 = (Inr (), s1\<lparr> txdb := db3 \<rparr>)" "in_txn P db3" by auto
  from commit_db_view [of P "s1\<lparr> txdb := db3 \<rparr>"] w(2) obtain db4 where m: "commit_db (s1\<lparr> txdb := db3 \<rparr>) = (Inr (), s1\<lparr> txdb := db4 \<rparr>)" by auto
  have ch: "pindexBest ?s = Some 1" "chain_of (mapBlockIndex ?s) 1 = [genesis_index]" "chain_of (mapBlockIndex ?s) 80 = [coin_index, genesis_index]"
    using coin_tree(2,3) by (simp_all, simp add: coin_node_def)
  have f: "find_fork [genesis_index] [coin_index, genesis_index] = Some [genesis_index]"
    by (subst find_fork.simps) (simp add: same_block_def lower_def sample_index_def)
  have a: "above [genesis_index] [genesis_index] = []" "above [genesis_index] [coin_index, genesis_index] = [80]" by (simp_all add: above_def)
  have rd: "ReadFromDisk coin_env (hd (chain_of (mapBlockIndex ?s) 80)) = Some coin_block" using ch(3) by (simp add: coin_read sample_index_def)
  have "pool_good (xe_hash coin_env) {sample_coinbase} (mempool (s1\<lparr> txdb := db4, mapBlockIndex := relink [] [80] (mapBlockIndex s1) \<rparr>))"
    using s1(1) coin_txs(2) by simp
  then have "\<exists>s2. delete_from_pool coin_env True (vtx coin_block) (s1\<lparr> txdb := db4, mapBlockIndex := relink [] [80] (mapBlockIndex s1) \<rparr>) = (Inr (), s2)"
    using delete_from_pool_view [OF coin_txs(1)] coin_block_sel(1) by (metis list.set(1,2) order_refl)
  then show ?thesis using ch f a rd c w(1) m by (auto simp: Reorganize_def Let_def)
qed

lemma lost_refused: "\<exists>v s2. SetBestChainInner coin_env lost_block 0 s = (Inl v, s2) \<and> \<not> thrown v"
proof -
  have "CheckBlock K t lost_block True True False = Inl (DoS 100 ''size limits failed'')" for K t by (simp add: CheckBlock_def lost_block_def)
  then show ?thesis by (simp add: SetBestChainInner_def connect_at_def ConnectBlock_def)
qed

text \<open>
  Setting the best chain to the block \<open>0\<close> succeeds; its parent is connected and recorded in the database, the block itself is not.
\<close>

lemma lost_result:
  "\<exists>s1. SetBestChain coin_env lost_block 0 coin_node = (Inr (), s1) \<and> ReadHashBestChain (txdb (drop_batch s1)) = Some 80"
proof -
  have ci: "db_inv (txdb coin_node)" "activeBatch (txdb coin_node) = None" "at_block coin_env 1 coin_node"
    using coin_inv best_inv_at [of coin_env coin_node] by (simp_all add: chain_inv_def) (simp add: coin_node_def)
  from begin_db_view [OF coin_inv] obtain db where db: "begin_db coin_node = (Inr (), coin_node\<lparr> txdb := db \<rparr>)"
    "in_txn (pdb (txdb coin_node)) db" "best_inv coin_env (coin_node\<lparr> txdb := db \<rparr>)" by blast
  let ?s = "coin_node\<lparr> txdb := db \<rparr>"
  have "ledger_at coin_env (mapBlockIndex ?s) 1 (ReadTxIndex db)" using db(3) by (simp add: best_inv_def) (simp add: coin_node_def)
  then have r: "ReadTxIndex db = Map.empty" by (cases rule: ledger_at.cases) (auto simp: coin_node_def)
  obtain s5 where R: "Reorganize coin_env 80 ?s = (Inr (), s5)" using coin_reorganize [OF db(2) r] by blast
  have M80: "mapBlockIndex ?s 80 \<noteq> None" by (simp add: coin_node_def)
  from Reorganize_ok [OF db(3) _ _ M80 R coin_txs(1)] db(2) coin_repeats coin_txs(2) have sw: "switched coin_env {sample_coinbase} 80 ?s s5" by simp
  have t: "tree_inv (mapBlockIndex ?s)" "on_disk (mapBlockIndex ?s)" using db(3) by (simp_all add: best_inv_def)
  note at = switched_at [OF sw t M80]
  then obtain nd where nd: "mapBlockIndex s5 0 = Some nd" "pprev nd = Some 80" "bare_bi (node_bi nd) = bare_bi lost_index"
    using bare_node [of "mapBlockIndex coin_node" "mapBlockIndex s5" 0 "\<lparr> node_bi = lost_index, pprev = Some 80, pnext = None \<rparr>"] by (auto simp: coin_node_def)
  have rd: "ReadFromDisk coin_env (node_bi nd) = Some lost_block"
    using ReadFromDisk_bare [of coin_env "node_bi nd"] unfolding nd(3) by (simp add: coin_read sample_index_def)
  have a: "at_block coin_env 80 s5" "db_inv (txdb s5)" "activeBatch (txdb s5) = None" "tree_inv (mapBlockIndex s5)" using at by (simp_all add: at_block_def)
  from begin_db_at [OF a(1-3)] obtain db6 where b6: "begin_db s5 = (Inr (), s5\<lparr> txdb := db6 \<rparr>)" "in_txn (pdb (txdb s5)) db6"
    "at_block coin_env 80 (s5\<lparr> txdb := db6 \<rparr>)" by blast
  obtain v s6 where i: "SetBestChainInner coin_env lost_block 0 (s5\<lparr> txdb := db6 \<rparr>) = (Inl v, s6)" "\<not> thrown v" using lost_refused by blast
  from SetBestChainInner_ok [OF b6(3) _ _ nd(2) rd i(1) coin_txs(1)] b6(2) nd(1) at obtain s7 where
    s7: "batch_only (pdb (txdb s5)) (s5\<lparr> txdb := db6 \<rparr>) s7" "s6 = (if thrown v then s7 else InvalidChainFound coin_env 0 (abort_db s7))" by auto
  have "restored s5 (drop_batch s6)" by (rule failed_restored [OF s7 a(2,3)])
  then have h: "ReadHashBestChain (txdb (drop_batch s6)) = Some 80" using a(1) by (auto simp: restored_def at_block_def)
  have "connect_further coin_env [0] s5 = (Inr (), s6)" using rd path_hd [OF a(4) nd(1)] b6(1) i by simp
  moreover have "postpone 0 (chain_of (mapBlockIndex ?s) 0) = ([coin_index, genesis_index], [0])" using coin_tree(4) by (simp add: sample_index_def)
  moreover have "pindexBest ?s = Some 1" "hashBestChain ?s = 1" "pindexGenesisBlock ?s = Some 1" by (simp_all add: coin_node_def)
  moreover have "nChainTrust (hd (chain_of (mapBlockIndex ?s) 1)) = 0" using coin_tree(2) by (simp add: sample_index_def)
  ultimately have "switch_chain coin_env 0 ?s = (Inr (), s6)" using R by (simp add: switch_chain_def)
  moreover have "hashPrevBlock lost_block = 80" "block_hash coin_env lost_block = 0"
    by (simp add: lost_block_def) (simp add: coin_env_def sample_env_lib lost_block_hash)
  ultimately have "SetBestChain coin_env lost_block 0 coin_node = (Inr (), set_best coin_env 0 0 s6)"
    using db(1) \<open>hashBestChain ?s = 1\<close> \<open>pindexGenesisBlock ?s = Some 1\<close> by (simp add: SetBestChain_def Let_def)
  moreover have "ReadHashBestChain (txdb (drop_batch (set_best coin_env 0 0 s6))) = Some 80" using h by (simp add: drop_batch_def set_best_def Let_def)
  ultimately show ?thesis by blast
qed

text \<open>In this state the best block in memory is \<open>0\<close>, the database stopped at \<open>80\<close>, and the node is not consistent.\<close>

theorem SetBestChain_consistent_witness:
  "\<exists>s1. SetBestChain coin_env lost_block 0 coin_node = (Inr (), s1) \<and> hashBestChain (drop_batch s1) = 0
     \<and> ReadHashBestChain (txdb (drop_batch s1)) = Some 80 \<and> at_block coin_env 80 (drop_batch s1) \<and> \<not> chain_inv coin_env (drop_batch s1)"
proof -
  obtain s1 where s1: "SetBestChain coin_env lost_block 0 coin_node = (Inr (), s1)" "ReadHashBestChain (txdb (drop_batch s1)) = Some 80"
    using lost_result by blast
  have nd: "mapBlockIndex coin_node 0 = Some \<lparr> node_bi = lost_index, pprev = Some 80, pnext = None \<rparr>" by (simp add: coin_node_def)
  have rd: "ReadFromDisk coin_env (node_bi \<lparr> node_bi = lost_index, pprev = Some 80, pnext = None \<rparr>) = Some lost_block"
    by (simp add: coin_read sample_index_def)
  from SetBestChain_consistent [OF coin_inv coin_repeats nd rd _ coin_txs s1(1) refl] obtain c where
    c: "at_block coin_env c (drop_batch s1)" "hashBestChain (drop_batch s1) = 0" "chain_inv coin_env (drop_batch s1) \<longleftrightarrow> c = 0"
    by (auto simp: lost_block_def)
  moreover have "c = 80" using c(1) s1(2) by (simp add: at_block_def)
  ultimately show ?thesis using s1 by auto
qed

end
