(* ===== verification/Parsers.thy ===== *)
theory Parsers
  imports Block
begin

text \<open>
  What reading guarantees, for the parsers of \<open>Serialize\<close>, \<open>Transaction\<close> and \<open>Block\<close>: a value read from any
  bytes is well-formed, so that it can be written and read again, and bytes behind those that were read do not matter.
\<close>

section \<open>Parsers\<close>

definition reads :: "(byte list \<Rightarrow> ('a \<times> byte list) option) \<Rightarrow> ('a \<Rightarrow> bool) \<Rightarrow> bool" where
  "reads f P \<longleftrightarrow> (\<forall>s x r. f s = Some (x, r) \<longrightarrow> P x \<and> (\<forall>t. f (s @ t) = Some (x, r @ t)))"

named_theorems reads_intros

lemma readsD: "reads f P \<Longrightarrow> f s = Some (x, r) \<Longrightarrow> P x \<and> f (s @ t) = Some (x, r @ t)"
  by (simp add: reads_def)

lemma reads_weaken: "reads f P \<Longrightarrow> (\<And>x. P x \<Longrightarrow> Q x) \<Longrightarrow> reads f Q"
  by (auto simp: reads_def)

lemma reads_bind [reads_intros]:
  assumes "reads f P" "\<And>x. P x \<Longrightarrow> reads (g x) Q"
  shows "reads (\<lambda>s. Option.bind (f s) (\<lambda>(x, r). g x r)) Q"
  unfolding reads_def
proof (intro allI impI)
  fix s y r assume "Option.bind (f s) (\<lambda>(x, r). g x r) = Some (y, r)"
  then obtain x r1 where x: "f s = Some (x, r1)" "g x r1 = Some (y, r)" by (auto simp: bind_eq_Some_conv)
  have P: "P x" "\<And>t. f (s @ t) = Some (x, r1 @ t)" using assms(1) x(1) by (auto simp: reads_def)
  then show "Q y \<and> (\<forall>t. Option.bind (f (s @ t)) (\<lambda>(x, r). g x r) = Some (y, r @ t))"
    using assms(2) [OF P(1)] x(2) by (simp add: reads_def)
qed

lemma reads_Some [reads_intros]: "P x \<Longrightarrow> reads (\<lambda>s. Some (x, s)) P"
  by (simp add: reads_def)

lemma reads_None [reads_intros]: "reads (\<lambda>s. None) P"
  by (simp add: reads_def)

lemma reads_if [reads_intros]: "(b \<Longrightarrow> reads f P) \<Longrightarrow> (\<not> b \<Longrightarrow> reads g P) \<Longrightarrow> reads (\<lambda>s. if b then f s else g s) P"
  by (cases b) simp_all

lemma reads_bytes: "reads (read_bytes n) (\<lambda>x. length x = n)"
  by (auto simp: reads_def read_bytes_def)

lemma reads_word: "reads unser_word (\<lambda>_. True)"
  unfolding unser_word_def by (intro reads_intros reads_weaken [OF reads_bytes]) simp_all

lemma reads_compact: "reads ReadCompactSize (\<lambda>n. unat n \<le> MAX_SIZE)"
  unfolding ReadCompactSize_def by (intro reads_intros reads_word [THEN reads_weaken]) simp_all

lemma reads_string: "reads unser_string (\<lambda>v. length v \<le> MAX_SIZE)"
  unfolding unser_string_def by (rule reads_bind [OF reads_compact]) (rule reads_weaken [OF reads_bytes], simp)

lemma reads_unser_bytes: "reads unser_bytes (\<lambda>v. length v \<le> MAX_SIZE)"
  using reads_string by (simp add: reads_def unser_bytes_eq)

lemma reads_n: "reads f P \<Longrightarrow> reads (unser_n f k) (\<lambda>v. length v = k \<and> list_all P v)"
proof (induction k)
  case 0
  then show ?case by (simp add: reads_def)
next
  case (Suc k)
  have e: "unser_n f (Suc k) = (\<lambda>s. Option.bind (f s) (\<lambda>(x, r). Option.bind (unser_n f k r) (\<lambda>(xs, r'). Some (x # xs, r'))))" by (simp add: fun_eq_iff)
  show ?case unfolding e
    by (intro reads_bind [OF Suc.prems] reads_bind [OF Suc.IH [OF Suc.prems]] reads_Some) simp
qed

lemma reads_vec:
  assumes "reads f P" "0 < sizeofT" "sizeofT \<le> 5000000"
  shows "reads (unser_vec sizeofT f) (\<lambda>v. length v \<le> MAX_SIZE \<and> list_all P v)"
proof -
  have e: "unser_vec sizeofT f = (\<lambda>is. Option.bind (ReadCompactSize is) (\<lambda>(nSize, r). unser_n f (unat nSize) r))"
    by (rule ext) (rule unser_vec_eq [OF assms(2,3)])
  show ?thesis unfolding e by (rule reads_bind [OF reads_compact]) (rule reads_weaken [OF reads_n [OF assms(1)]], simp)
qed

lemma reads_pair: "reads f P \<Longrightarrow> reads g Q \<Longrightarrow> reads (unser_pair f g) (\<lambda>p. P (fst p) \<and> Q (snd p))"
  unfolding unser_pair_def by (rule reads_bind, assumption, rule reads_bind, assumption, rule reads_Some, simp)

section \<open>Transactions and blocks\<close>

text \<open>The contract of a format: what is read is well-formed, and well-formed values are read back.\<close>

locale format = coder ser unser ok
  for ser :: "'a \<Rightarrow> byte list" and unser :: "byte list \<Rightarrow> ('a \<times> byte list) option" and ok :: "'a \<Rightarrow> bool" +
  assumes reads: "reads unser ok"
begin

lemma typed: "unser s = Some (x, r) \<Longrightarrow> ok x"
  using reads by (simp add: reads_def)

lemma stable: "unser s = Some (x, r) \<Longrightarrow> unser (s @ t) = Some (x, r @ t)"
  using reads by (simp add: reads_def)

lemma reparse: "unser s = Some (x, r) \<Longrightarrow> unser (ser x @ t) = Some (x, t)"
  by (rule unser_ser) (rule typed)

end

lemma reads_COutPoint: "reads unser_COutPoint (\<lambda>_. True)"
  unfolding unser_COutPoint_def by (intro reads_bind [OF reads_word] reads_Some) simp_all

lemma reads_CTxIn: "reads unser_CTxIn ok_CTxIn"
  unfolding unser_CTxIn_def by (intro reads_bind [OF reads_COutPoint] reads_bind [OF reads_unser_bytes] reads_bind [OF reads_word] reads_Some)
    (simp add: ok_CTxIn_def)

lemma reads_CTxOut: "reads unser_CTxOut ok_CTxOut"
  unfolding unser_CTxOut_def by (intro reads_bind [OF reads_unser_bytes] reads_bind [OF reads_word] reads_Some) (simp add: ok_CTxOut_def)

lemma reads_CTransaction: "reads unser_CTransaction ok_CTransaction"
proof -
  have tail: "reads (\<lambda>s. if b then unser_pair unser_string unser_word s else Some (([], 0), s))
      (\<lambda>p. if b then length (fst p) \<le> MAX_SIZE else p = ([], 0 :: u32))" for b
    by (rule reads_if) (auto intro!: reads_Some reads_weaken [OF reads_pair [OF reads_string reads_word]])
  show ?thesis unfolding unser_CTransaction_def
    by (intro reads_bind [OF reads_word] reads_bind [OF reads_vec [OF reads_CTxIn]] reads_bind [OF reads_vec [OF reads_CTxOut]] reads_bind [OF tail])
      (auto intro!: reads_Some simp: ok_CTransaction_def split: if_splits)
qed

interpretation tx_f: format ser_CTransaction unser_CTransaction ok_CTransaction
  by unfold_locales (rule reads_CTransaction)

lemma reads_header: "reads unser_header (\<lambda>_. True)"
  unfolding unser_header_def by (intro reads_bind [OF reads_word] reads_Some) simp_all

lemma reads_CBlock: "reads unser_CBlock ok_CBlock"
  unfolding unser_CBlock_def
  by (intro reads_bind [OF reads_header] reads_bind [OF reads_vec [OF reads_CTransaction]] reads_bind [OF reads_unser_bytes])
    (auto intro!: reads_Some simp: ok_CBlock_def)

interpretation block_f: format ser_CBlock unser_CBlock ok_CBlock
  by unfold_locales (rule reads_CBlock)

text \<open>
  C29: whatever bytes a block is read from, the block is well-formed: sizes are within the limits of the format and version 1 transactions have
  no comment, so the block can be written and read again without change.  What follows the bytes of the block does not matter.
\<close>

theorem unser_CBlock_typed:
  assumes "unser_CBlock s = Some (b, r)"
  shows "ok_CBlock b \<and> list_all ok_CTransaction (vtx b) \<and> unser_CBlock (ser_CBlock b) = Some (b, []) \<and> unser_CBlock (s @ t) = Some (b, r @ t)"
  using block_f.typed [OF assms] block_f.reparse [OF assms, of "[]"] block_f.stable [OF assms] by (simp add: ok_CBlock_def)

theorem unser_CBlock_typed_witness:
  "unser_CBlock (ser_CBlock sample_block @ [7]) = Some (sample_block, [7]) \<and> ok_CBlock sample_block"
proof -
  have "ok_CTransaction sample_tx" by code_simp
  then have "ok_CBlock sample_block" by (simp add: ok_CBlock_def sample_block_def MAX_SIZE_def)
  then have u: "unser_CBlock (ser_CBlock sample_block @ [7]) = Some (sample_block, [7])" by (rule block_c.unser_ser)
  show ?thesis using unser_CBlock_typed [OF u] u by blast
qed

end
