(* ===== verification/BlockFiles.thy ===== *)
theory BlockFiles
  imports ConnectBlock Parsers
begin

text \<open>
  The block files \<open>blk0001.dat\<close>, \<open>blk0002.dat\<close>, \<dots> (\<open>main.cpp\<close>, \<open>main.h\<close>): blocks are appended behind a header of
  message start bytes and size, and read back, blocks and single transactions, at the positions that the block index and the
  transaction index record.  \<open>read_block\<close> is \<open>CBlock::ReadFromDisk\<close> with \<open>fReadTransactions\<close> set, \<open>read_header\<close> without.  The contents of the files are part of the state; the operating system is taken to open, extend and read files
  without errors.
\<close>

section \<open>Files\<close>

record block_files =
  file_data :: "u32 \<rightharpoonup> byte list"
  nCurrentBlockFile :: u32

definition pchMessageStart :: "bool \<Rightarrow> byte list" where
  "pchMessageStart fTest = (if fTest then [0xaf, 0xb9, 0xd9, 0xff] else [0xf1, 0xe3, 0xe5, 0xd9])"

text \<open>Mode \<open>ab\<close> creates a missing file, mode \<open>rb\<close> fails.\<close>

definition OpenBlockFile :: "bool \<Rightarrow> u32 \<Rightarrow> block_files \<Rightarrow> (byte list \<times> block_files) option" where
  "OpenBlockFile fAppend n F =
     (if n < 1 \<or> n = -1 then None
      else case file_data F n of
        None \<Rightarrow> if fAppend then Some ([], F\<lparr> file_data := (file_data F)(n \<mapsto> []) \<rparr>) else None
      | Some d \<Rightarrow> Some (d, F))"

function AppendBlockFile :: "block_files \<Rightarrow> u32 option \<times> block_files" where
  "AppendBlockFile F =
     (let n = nCurrentBlockFile F in
      case OpenBlockFile True n F of
        None \<Rightarrow> (None, F)
      | Some (d, F') \<Rightarrow>
          if int (length d) < 0x7F000000 - int MAX_SIZE then (Some n, F')
          else AppendBlockFile (F'\<lparr> nCurrentBlockFile := n + 1 \<rparr>))"
  by pat_completeness auto
termination
proof (relation "measure (\<lambda>F. 2 ^ 32 - unat (nCurrentBlockFile F))", goal_cases)
  case (2 F n x d F')
  then have n: "n \<noteq> -1" "nCurrentBlockFile F = n" by (auto simp: OpenBlockFile_def split: if_splits)
  then have "1 + n \<noteq> 0" by (metis add_eq_0_iff minus_minus)
  from unatSuc [OF this] have "unat (n + 1) = Suc (unat n)" by (simp add: add.commute)
  moreover have "unat n < 2 ^ 32" using unsigned_less [of n, where ?'a = nat] by simp
  ultimately show ?case using n by simp
qed simp

declare AppendBlockFile.simps [simp del]

definition WriteToDisk :: "bool \<Rightarrow> CBlock \<Rightarrow> block_files \<Rightarrow> (u32 \<times> u32) option \<times> block_files" where
  "WriteToDisk fTest b F =
     (case AppendBlockFile F of
        (None, F') \<Rightarrow> (None, F')
      | (Some n, F') \<Rightarrow>
          (let d = (case file_data F' n of None \<Rightarrow> [] | Some d \<Rightarrow> d);
               d' = d @ pchMessageStart fTest @ ser_word (word_of_nat (size_CBlock b) :: u32)
           in (Some (n, word_of_nat (length d')), F'\<lparr> file_data := (file_data F')(n \<mapsto> d' @ ser_CBlock b) \<rparr>)))"

definition read_block :: "kernel_env \<Rightarrow> block_files \<Rightarrow> u32 \<Rightarrow> u32 \<Rightarrow> CBlock option" where
  "read_block K F n p = do {
     (d, _) \<leftarrow> OpenBlockFile False n F;
     (b, _) \<leftarrow> unser_CBlock (drop (unat p) d);
     if IsProofOfWork b \<and> \<not> CheckProofOfWork (ke_bn K) (ke_params K) (CBlock_GetHash (s_hash (ke_lib K)) (ke_hash9 K) b) (blk_nBits b)
     then None else Some b }"

text \<open>With \<open>fReadTransactions\<close> unset only the header is read, and its proof of work is not checked.\<close>

definition read_header :: "block_files \<Rightarrow> u32 \<Rightarrow> u32 \<Rightarrow> CBlock option" where
  "read_header F n p = do { (d, _) \<leftarrow> OpenBlockFile False n F; (b, _) \<leftarrow> unser_header (drop (unat p) d); Some b }"

definition read_tx :: "block_files \<Rightarrow> CDiskTxPos \<Rightarrow> CTransaction option" where
  "read_tx F pos = do {
     (d, _) \<leftarrow> OpenBlockFile False (pos_nFile pos) F;
     (tx, _) \<leftarrow> unser_CTransaction (drop (unat (pos_nTxPos pos)) d);
     Some tx }"

section \<open>Loading an external file\<close>

text \<open>
  The search for the next message start in a buffer of 65536 bytes, and the loop that reads and processes the blocks.  \<open>process\<close> is
  \<open>ProcessBlock\<close> as a function of the state of the node: it accepts the block, refuses it, or throws.  Every exception, of the stream or of
  \<open>ProcessBlock\<close>, ends the loop.  A shutdown request is not modelled.
\<close>

partial_function (option) find_start :: "byte list \<Rightarrow> byte list \<Rightarrow> u32 \<Rightarrow> u32 option" where
  "find_start start d nPos =
     (let pchData = take 65536 (drop (unat nPos) d); nRead = length pchData in
      if nRead \<le> 8 then Some (-1)
      else let nFind = length (takeWhile (\<lambda>c. c \<noteq> start ! 0) (take (nRead - 3) pchData)) in
        if nFind < nRead - 3
        then (if take 4 (drop nFind pchData) = start then Some (nPos + word_of_nat nFind + 4)
              else find_start start d (nPos + word_of_nat nFind + 1))
        else find_start start d (nPos + 65533))"

partial_function (option) load_loop ::
  "('s \<Rightarrow> CBlock \<Rightarrow> unit checked \<times> 's) \<Rightarrow> byte list \<Rightarrow> byte list \<Rightarrow> u32 \<Rightarrow> nat \<Rightarrow> 's \<Rightarrow> (nat \<times> 's) option"
where
  "load_loop process start d nPos nLoaded s =
     (if nPos = -1 then Some (nLoaded, s)
      else Option.bind (find_start start d nPos) (\<lambda>p.
        if p = -1 then Some (nLoaded, s)
        else case (unser_word (drop (unat p) d) :: (u32 \<times> byte list) option) of
          None \<Rightarrow> Some (nLoaded, s)
        | Some (nSize, r) \<Rightarrow>
            if nSize > 0 \<and> unat nSize \<le> MAX_BLOCK_SIZE
            then (case unser_CBlock r of
                    None \<Rightarrow> Some (nLoaded, s)
                  | Some (b, _) \<Rightarrow>
                      (case process s b of
                         (Inr _, s') \<Rightarrow> load_loop process start d (p + 4 + nSize) (nLoaded + 1) s'
                       | (Inl v, s') \<Rightarrow> if thrown v then Some (nLoaded, s') else load_loop process start d p nLoaded s'))
            else load_loop process start d p nLoaded s))"

definition LoadExternalBlockFile :: "('s \<Rightarrow> CBlock \<Rightarrow> unit checked \<times> 's) \<Rightarrow> bool \<Rightarrow> byte list \<Rightarrow> 's \<Rightarrow> (bool \<times> 's) option" where
  "LoadExternalBlockFile process fTest d s =
     map_option (\<lambda>(nLoaded, s'). (nLoaded > 0, s')) (load_loop process (pchMessageStart fTest) d 0 0 s)"


section \<open>Growing files\<close>

text \<open>Files are only appended to; what could be read stays readable.\<close>

lemma unat_u32: "n < 2 ^ 32 \<Longrightarrow> unat (word_of_nat n :: u32) = n"
  by (simp add: unat_of_nat take_bit_nat_eq_self)

definition grows :: "block_files \<Rightarrow> block_files \<Rightarrow> bool" where
  "grows F F' \<longleftrightarrow> (\<forall>n d. file_data F n = Some d \<longrightarrow> (\<exists>t. file_data F' n = Some (d @ t)))"

lemma grows_refl: "grows F F"
  by (simp add: grows_def)

lemma grows_trans: "grows F F' \<Longrightarrow> grows F' F'' \<Longrightarrow> grows F F''"
  unfolding grows_def by (metis append.assoc)

lemma OpenBlockFile_Some:
  assumes "OpenBlockFile a n F = Some (d, F')"
  shows "n \<noteq> 0" "n \<noteq> -1" "file_data F' n = Some d" "grows F F'" "nCurrentBlockFile F' = nCurrentBlockFile F"
  using assms by (auto simp: OpenBlockFile_def grows_def split: if_splits option.splits)

lemma OpenBlockFile_read: "OpenBlockFile False n F = (if n = 0 \<or> n = -1 then None else map_option (\<lambda>d. (d, F)) (file_data F n))"
  by (auto simp: OpenBlockFile_def word_less_nat_alt unat_eq_zero split: option.splits)

lemma AppendBlockFile_view:
  "AppendBlockFile F = (r, F') \<Longrightarrow> grows F F' \<and>
     (\<forall>n. r = Some n \<longrightarrow> n \<noteq> 0 \<and> n \<noteq> -1 \<and> (\<exists>d. file_data F' n = Some d \<and> length d < 0x7F000000 - MAX_SIZE))"
proof (induction F rule: AppendBlockFile.induct)
  case (1 F)
  let ?n = "nCurrentBlockFile F"
  show ?case
  proof (cases "OpenBlockFile True ?n F")
    case None
    then have "AppendBlockFile F = (None, F)" by (subst AppendBlockFile.simps) simp
    then show ?thesis using 1(2) grows_refl by simp
  next
    case (Some df)
    then obtain d F1 where o: "OpenBlockFile True ?n F = Some (d, F1)" by (cases df) auto
    note v = OpenBlockFile_Some [OF o]
    show ?thesis
    proof (cases "int (length d) < 0x7F000000 - int MAX_SIZE")
      case True
      then have "AppendBlockFile F = (Some ?n, F1)" using o by (subst AppendBlockFile.simps) simp
      then show ?thesis using 1(2) v True by (auto simp: MAX_SIZE_def)
    next
      case False
      then have a: "AppendBlockFile F = AppendBlockFile (F1\<lparr> nCurrentBlockFile := ?n + 1 \<rparr>)" using o by (subst AppendBlockFile.simps) simp
      have g: "grows F (F1\<lparr> nCurrentBlockFile := ?n + 1 \<rparr>)" using v(4) by (simp add: grows_def)
      have "AppendBlockFile (F1\<lparr> nCurrentBlockFile := ?n + 1 \<rparr>) = (r, F')" using a 1(2) by simp
      from 1(1) [OF refl o refl False this] show ?thesis using grows_trans [OF g] by blast
    qed
  qed
qed

text \<open>A block is stored when its bytes stand at its position.\<close>

definition stored :: "block_files \<Rightarrow> u32 \<Rightarrow> u32 \<Rightarrow> CBlock \<Rightarrow> bool" where
  "stored F n p b \<longleftrightarrow> n \<noteq> 0 \<and> n \<noteq> -1 \<and> (\<exists>pre rest. file_data F n = Some (pre @ ser_CBlock b @ rest) \<and> length pre = unat p)"

lemma stored_grows: "stored F n p b \<Longrightarrow> grows F F' \<Longrightarrow> stored F' n p b"
  unfolding stored_def grows_def by (metis append.assoc)

lemma WriteToDisk_stored:
  assumes "WriteToDisk fTest b F = (Some (n, p), F')"
  shows "stored F' n p b \<and> unat p < 0x7F000000 \<and> grows F F'"
proof -
  obtain F1 where a: "AppendBlockFile F = (Some n, F1)" using assms by (auto simp: WriteToDisk_def Let_def split: prod.splits option.splits)
  from AppendBlockFile_view [OF a] obtain d where d: "grows F F1" "n \<noteq> 0" "n \<noteq> -1" "file_data F1 n = Some d" "length d < 0x7F000000 - MAX_SIZE" by blast
  let ?d = "d @ pchMessageStart fTest @ ser_word (word_of_nat (size_CBlock b) :: u32)"
  have len: "length ?d = length d + 8" by (simp add: pchMessageStart_def ser_word_def)
  have w: "p = word_of_nat (length ?d)" "F' = F1\<lparr> file_data := (file_data F1)(n \<mapsto> ?d @ ser_CBlock b) \<rparr>"
    using assms a d(4) by (simp_all add: WriteToDisk_def Let_def)
  have p: "unat p = length ?d" using d(5) len w(1) unat_u32 [of "length ?d"] by (simp add: MAX_SIZE_def)
  have "grows F1 F'" using d(4) unfolding w(2) grows_def by auto
  moreover have "file_data F' n = Some (?d @ ser_CBlock b @ [])" using w(2) by simp
  then have "stored F' n p b" unfolding stored_def using d(2,3) p by metis
  ultimately show ?thesis using d(1,5) len p grows_trans by (auto simp: MAX_SIZE_def)
qed

lemma read_block_grows: "read_block K F n p = Some b \<Longrightarrow> grows F F' \<Longrightarrow> read_block K F' n p = Some b"
proof -
  assume r: "read_block K F n p = Some b" and g: "grows F F'"
  then obtain d r' where d: "n \<noteq> 0" "n \<noteq> -1" "file_data F n = Some d" "unser_CBlock (drop (unat p) d) = Some (b, r')"
    "\<not> (IsProofOfWork b \<and> \<not> CheckProofOfWork (ke_bn K) (ke_params K) (CBlock_GetHash (s_hash (ke_lib K)) (ke_hash9 K) b) (blk_nBits b))"
    by (auto simp: read_block_def OpenBlockFile_read bind_eq_Some_conv split: if_splits)
  obtain t where t: "file_data F' n = Some (d @ t)" using g d(3) by (auto simp: grows_def)
  have "drop (unat p) d \<noteq> []" using d(4) by (auto simp: unser_CBlock_def unser_header_def unser_word_def read_bytes_def)
  then have "drop (unat p) (d @ t) = drop (unat p) d @ t" by simp
  then show ?thesis using d t block_f.stable [OF d(4), of t] by (simp add: read_block_def OpenBlockFile_read)
qed

lemma read_block_header: "read_block K F n p = Some b \<Longrightarrow> read_header F n p = Some (b\<lparr> vtx := [], vchBlockSig := [] \<rparr>)"
  by (auto simp: read_block_def read_header_def unser_CBlock_def unser_header_def bind_eq_Some_conv split: if_splits)

lemma read_tx_grows: "read_tx F pos = Some tx \<Longrightarrow> grows F F' \<Longrightarrow> read_tx F' pos = Some tx"
proof -
  assume r: "read_tx F pos = Some tx" and g: "grows F F'"
  let ?p = "unat (pos_nTxPos pos)"
  from r obtain d r' where d: "pos_nFile pos \<noteq> 0" "pos_nFile pos \<noteq> -1" "file_data F (pos_nFile pos) = Some d" "unser_CTransaction (drop ?p d) = Some (tx, r')"
    by (auto simp: read_tx_def OpenBlockFile_read bind_eq_Some_conv split: if_splits)
  obtain t where t: "file_data F' (pos_nFile pos) = Some (d @ t)" using g d(3) by (auto simp: grows_def)
  have "drop ?p d \<noteq> []" using d(4) by (auto simp: unser_CTransaction_def unser_word_def read_bytes_def)
  then have "drop ?p (d @ t) = drop ?p d @ t" by simp
  then show ?thesis using d t tx_f.stable [OF d(4), of t] by (simp add: read_tx_def OpenBlockFile_read)
qed

lemma stored_read_block:
  assumes "stored F n p b" "ok_CBlock b"
    "IsProofOfWork b \<Longrightarrow> CheckProofOfWork (ke_bn K) (ke_params K) (CBlock_GetHash (s_hash (ke_lib K)) (ke_hash9 K) b) (blk_nBits b)"
  shows "read_block K F n p = Some b"
proof -
  obtain pre rest where "n \<noteq> 0" "n \<noteq> -1" "file_data F n = Some (pre @ ser_CBlock b @ rest)" "length pre = unat p" using assms(1) by (auto simp: stored_def)
  then show ?thesis using assms(2,3) by (simp add: read_block_def OpenBlockFile_read block_c.unser_ser)
qed

text \<open>The position of the transaction with the given index in a stored block.\<close>

lemma stored_read_tx:
  assumes "stored F n p b" "ok_CBlock b" "i < length (vtx b)" "unat p + size_CBlock b < 2 ^ 32"
    "pos = p + 80 + word_of_nat (GetSizeOfCompactSize (word_of_nat (length (vtx b)))) + word_of_nat (sum_list (map size_CTransaction (take i (vtx b))))"
  shows "read_tx F \<lparr> pos_nFile = n, pos_nBlockPos = p, pos_nTxPos = pos \<rparr> = Some (vtx b ! i)"
proof -
  let ?hdr = "ser_header b @ WriteCompactSize (word_of_nat (length (vtx b)))"
  let ?before = "concat (map ser_CTransaction (take i (vtx b)))" and ?after = "concat (map ser_CTransaction (drop (Suc i) (vtx b))) @ ser_bytes (vchBlockSig b)"
  obtain pre rest where f: "n \<noteq> 0" "n \<noteq> -1" "file_data F n = Some (pre @ ser_CBlock b @ rest)" "length pre = unat p" using assms(1) by (auto simp: stored_def)
  have "vtx b = take i (vtx b) @ vtx b ! i # drop (Suc i) (vtx b)" using assms(3) by (rule id_take_nth_drop)
  then have "concat (map ser_CTransaction (vtx b)) = ?before @ ser_CTransaction (vtx b ! i) @ concat (map ser_CTransaction (drop (Suc i) (vtx b)))"
    by (metis concat.simps(2) concat_append list.simps(9) map_append)
  then have s: "ser_CBlock b = (?hdr @ ?before) @ ser_CTransaction (vtx b ! i) @ ?after" by (simp add: ser_CBlock_def ser_vec_def)
  have lb: "length ?before = sum_list (map size_CTransaction (take i (vtx b)))" by (simp add: length_concat comp_def length_ser_CTransaction)
  have lh: "length ?hdr = 80 + GetSizeOfCompactSize (word_of_nat (length (vtx b)))" by (simp add: ser_header_def length_WriteCompactSize)
  have "length (?hdr @ ?before) \<le> size_CBlock b" using arg_cong [OF s, of length] length_ser_CBlock [of b] by simp
  then have lt: "length (pre @ ?hdr @ ?before) < 2 ^ 32" using assms(4) f(4) by simp
  have "length (pre @ ?hdr @ ?before) = unat p + (80 + GetSizeOfCompactSize (word_of_nat (length (vtx b)))) + sum_list (map size_CTransaction (take i (vtx b)))"
    using lb lh f(4) by simp
  then have "pos = word_of_nat (length (pre @ ?hdr @ ?before))" using assms(5) by (simp only:) (simp add: add.assoc)
  then have "unat pos = length (pre @ ?hdr @ ?before)" using unat_u32 [OF lt] by simp
  then have "drop (unat pos) (pre @ ser_CBlock b @ rest) = ser_CTransaction (vtx b ! i) @ ?after @ rest" unfolding s by simp
  moreover have "ok_CTransaction (vtx b ! i)" using assms(2,3) by (simp add: ok_CBlock_def list_all_length)
  ultimately show ?thesis using f(1-3) by (simp add: read_tx_def OpenBlockFile_read tx_c.unser_ser)
qed

section \<open>The transaction index and the files\<close>

text \<open>Every entry of the index names the place of its transaction and has one mark for each of its outputs.\<close>

definition located :: "(CDiskTxPos \<Rightarrow> CTransaction option) \<Rightarrow> hash_lib \<Rightarrow> ledger \<Rightarrow> bool" where
  "located rdtx H V \<longleftrightarrow> (\<forall>h ti. V h = Some ti \<longrightarrow> (\<exists>tx. rdtx (ti_pos ti) = Some tx \<and> GetHash H tx = h \<and> length (vSpent ti) = length (vout tx)))"

lemma located_spend: "located rdtx H V \<Longrightarrow> located rdtx H (spend p a V)"
  unfolding located_def spend_def by (auto split: option.splits)

lemma located_fold: "located rdtx H V \<Longrightarrow> located rdtx H (fold (spend p) outs V)"
  by (induction outs arbitrary: V) (auto intro: located_spend)

lemma located_add: "located rdtx H V \<Longrightarrow> rdtx p = Some tx \<Longrightarrow> located rdtx H (add_tx H p tx V)"
proof -
  assume l: "located rdtx H V" and r: "rdtx p = Some tx"
  have "located rdtx H (W(GetHash H tx \<mapsto> CTxIndex_of p (length (vout tx))))" if "located rdtx H W" for W
    using that r by (auto simp: located_def CTxIndex_of_def)
  then show ?thesis using l located_fold by (simp add: add_tx_def)
qed

lemma located_placed:
  "located rdtx H V \<Longrightarrow> placed H f bp pos txs V V' \<Longrightarrow>
   (\<forall>i < length txs. rdtx \<lparr> pos_nFile = f, pos_nBlockPos = bp, pos_nTxPos = pos + word_of_nat (sum_list (map size_CTransaction (take i txs))) \<rparr> = Some (txs ! i)) \<Longrightarrow>
   located rdtx H V'"
proof (induction txs arbitrary: V pos)
  case (Cons tx r)
  let ?p = "\<lparr> pos_nFile = f, pos_nBlockPos = bp, pos_nTxPos = pos \<rparr>"
  have "rdtx ?p = Some tx" using Cons.prems(3) by force
  then have a: "located rdtx H (add_tx H ?p tx V)" using located_add Cons.prems(1) by blast
  have "rdtx \<lparr> pos_nFile = f, pos_nBlockPos = bp,
      pos_nTxPos = (pos + word_of_nat (size_CTransaction tx)) + word_of_nat (sum_list (map size_CTransaction (take i r))) \<rparr> = Some (r ! i)"
    if "i < length r" for i using Cons.prems(3) [rule_format, of "Suc i"] that by (simp add: add.assoc)
  then show ?case using Cons.IH [OF a, of "pos + word_of_nat (size_CTransaction tx)"] Cons.prems(2) by simp
qed simp

lemma first_pos: "first_tx_pos pindex False b = nBlockPos (hd pindex) + 80 + word_of_nat (GetSizeOfCompactSize (word_of_nat (length (vtx b))))"
  by (simp add: first_tx_pos_def GetSizeOfCompactSize_def)

lemma located_block:
  assumes "located (read_tx F) H V" "placed H n p (first_tx_pos pindex False b) (vtx b) V V'" "nBlockPos (hd pindex) = p"
    "stored F n p b" "ok_CBlock b" "unat p + size_CBlock b < 2 ^ 32"
  shows "located (read_tx F) H V'"
  by (rule located_placed [OF assms(1,2)]) (use stored_read_tx [OF assms(4,5) _ assms(6) refl] first_pos assms(3) in simp)

text \<open>
  C6: a block that was written to the block files is read back at the position that was returned, and everything that could be
  read before, blocks and transactions, still can; the position is below two gigabytes.
\<close>

theorem WriteToDisk_roundtrip:
  assumes "WriteToDisk fTest b F = (Some (n, p), F')" "ok_CBlock b"
    "IsProofOfWork b \<Longrightarrow> CheckProofOfWork (ke_bn K) (ke_params K) (CBlock_GetHash (s_hash (ke_lib K)) (ke_hash9 K) b) (blk_nBits b)"
  shows "read_block K F' n p = Some b \<and> unat p < 2 ^ 31
    \<and> (\<forall>m q c. read_block K F m q = Some c \<longrightarrow> read_block K F' m q = Some c)
    \<and> (\<forall>pos tx. read_tx F pos = Some tx \<longrightarrow> read_tx F' pos = Some tx)"
proof -
  have w: "stored F' n p b" "unat p < 0x7F000000" "grows F F'" using WriteToDisk_stored [OF assms(1)] by simp_all
  then show ?thesis using stored_read_block [OF w(1) assms(2,3)] read_block_grows [OF _ w(3)] read_tx_grows [OF _ w(3)] by auto
qed

text \<open>
  C5: connecting a block that stands in the block files keeps the transaction index true to the files: every entry of the index
  names the position at which its transaction can be read, and has one mark for each output of it.
\<close>

theorem ConnectBlock_locates:
  assumes "ConnectBlock B ReadTxIndex UpdateTxIndex (WriteBlockIndex H Hash9 fFast now) pindex hashNext False b cache db = (Inr (p, db'), cache')"
    "db_inv db" "stored F (nFile (hd pindex)) (nBlockPos (hd pindex)) b" "ok_CBlock b" "unat (nBlockPos (hd pindex)) < 0x7F000000"
    "located (read_tx F) (be_hash B) (ReadTxIndex db)"
  shows "located (read_tx F) (be_hash B) (ReadTxIndex db')"
proof -
  have "nFile (hd pindex) \<noteq> -1" using assms(3) by (simp add: stored_def)
  note v = chaindb.ConnectBlock_view [OF assms(1,2) this]
  have "CheckBlock (be_kernel B) (be_time B) b True True False = Inr ()"
    using assms(1) by (auto simp: ConnectBlock_def Let_def bindr_Inr split: sum.splits prod.splits)
  then have "size_CBlock b \<le> MAX_BLOCK_SIZE" by (auto simp: CheckBlock_def split: if_splits)
  then have "unat (nBlockPos (hd pindex)) + size_CBlock b < 2 ^ 32" using assms(5) by simp
  then show ?thesis using located_block [OF assms(6) _ refl assms(3,4)] v by blast
qed

section \<open>Loading any file\<close>

text \<open>
  What loading does, without buffers and machine integers: look for the first place with a message start and more than eight bytes from
  it on; read the size and the block there; after an accepted block go on behind it, after a refused one or a size out of range right behind the message start.
\<close>

definition next_start :: "byte list \<Rightarrow> byte list \<Rightarrow> nat \<Rightarrow> nat option" where
  "next_start start d q = List.find (\<lambda>i. take 4 (drop i d) = start) [q..<length d - 8]"

lemma next_start_Some: "next_start start d q = Some i \<Longrightarrow> q \<le> i \<and> i < length d - 8 \<and> take 4 (drop i d) = start"
  unfolding next_start_def find_Some_iff by auto

function load_blocks ::
  "('s \<Rightarrow> CBlock \<Rightarrow> unit checked \<times> 's) \<Rightarrow> byte list \<Rightarrow> byte list \<Rightarrow> nat \<Rightarrow> nat \<Rightarrow> 's \<Rightarrow> nat \<times> 's"
where
  "load_blocks process start d q n s =
     (case next_start start d q of
        None \<Rightarrow> (n, s)
      | Some i \<Rightarrow>
         (case (unser_word (drop (i + 4) d) :: (u32 \<times> byte list) option) of
            None \<Rightarrow> (n, s)
          | Some (nSize, r) \<Rightarrow>
             if 0 < nSize \<and> unat nSize \<le> MAX_BLOCK_SIZE
             then (case unser_CBlock r of
                     None \<Rightarrow> (n, s)
                   | Some (b, _) \<Rightarrow>
                      (case process s b of
                         (Inr _, s') \<Rightarrow> load_blocks process start d (i + 8 + unat nSize) (n + 1) s'
                       | (Inl v, s') \<Rightarrow> if thrown v then (n, s') else load_blocks process start d (i + 4) n s'))
             else load_blocks process start d (i + 4) n s))"
  by pat_completeness auto
termination
  by (relation "measure (\<lambda>(process, start, d, q, n, s). length d - q)") (auto dest!: next_start_Some)

declare load_blocks.simps [simp del]

lemma next_start_skip:
  assumes "\<And>i. q \<le> i \<Longrightarrow> i < q' \<Longrightarrow> i < length d - 8 \<Longrightarrow> take 4 (drop i d) \<noteq> start" "q \<le> q'"
  shows "next_start start d q = next_start start d q'"
proof (cases "q' \<le> length d - 8")
  case True
  then obtain k where "length d - 8 = q' + k" using le_Suc_ex by blast
  then have "[q..<length d - 8] = [q..<q'] @ [q'..<length d - 8]" using upt_add_eq_append [OF assms(2)] by simp
  moreover have "List.find (\<lambda>i. take 4 (drop i d) = start) [q..<q'] = None" using assms(1) True by (simp add: find_None_iff)
  moreover have "List.find P xs = None \<Longrightarrow> List.find P (xs @ ys) = List.find P ys" for P and xs ys :: "nat list" by (induction xs) auto
  ultimately show ?thesis by (simp add: next_start_def)
next
  case False
  then have "List.find (\<lambda>i. take 4 (drop i d) = start) [q..<length d - 8] = None" using assms(1) by (simp add: find_None_iff)
  then show ?thesis using False by (simp add: next_start_def)
qed

lemma next_start_here: "take 4 (drop q d) = start \<Longrightarrow> q < length d - 8 \<Longrightarrow> next_start start d q = Some q"
  by (simp add: next_start_def upt_conv_Cons)

lemma takeWhile_holds: "i < length (takeWhile P xs) \<Longrightarrow> P (xs ! i)"
  by (metis nth_mem set_takeWhileD takeWhile_nth)

lemma no_start: "d ! i \<noteq> start ! 0 \<Longrightarrow> i < length d \<Longrightarrow> take 4 (drop i d) \<noteq> start"
  by (auto simp: hd_drop_conv_nth nth_append)


definition found :: "byte list \<Rightarrow> byte list \<Rightarrow> nat \<Rightarrow> u32 option \<Rightarrow> bool" where
  "found start d q r \<longleftrightarrow> (case next_start start d q of
     Some i \<Rightarrow> r = Some (word_of_nat (i + 4))
   | None \<Rightarrow> r = Some (-1) \<or> (\<exists>i. length d \<le> i + 8 \<and> i + 4 \<le> length d \<and> r = Some (word_of_nat (i + 4))))"

lemma find_start_found:
  assumes "length start = 4" "length d < 2 ^ 32 - 2 ^ 20"
  shows "found start d (unat nPos) (find_start start d nPos)"
proof (induction "length d - unat nPos" arbitrary: nPos rule: less_induct)
  case less
  define N where "N = unat nPos"
  define buf where "buf = take 65536 (drop N d)"
  define f where "f = length (takeWhile (\<lambda>c. c \<noteq> start ! 0) (take (length buf - 3) buf))"
  have unfold: "find_start start d nPos = (if length buf \<le> 8 then Some (-1) else if f < length buf - 3
      then (if take 4 (drop f buf) = start then Some (nPos + word_of_nat f + 4) else find_start start d (nPos + word_of_nat f + 1))
      else find_start start d (nPos + 65533))"
    unfolding f_def buf_def N_def by (rule find_start.simps [of start d nPos, unfolded Let_def])
  have len: "length buf = min 65536 (length d - N)" by (simp add: buf_def min.commute)
  show ?case
  proof (cases "length buf \<le> 8")
    case True
    then have "next_start start d N = None" using len by (simp add: next_start_def)
    then show ?thesis using True unfold by (simp add: found_def N_def)
  next
    case False
    then have N: "N + 8 < length d" using len by simp
    have word: "unat (nPos + word_of_nat k) = N + k" "nPos + word_of_nat k = word_of_nat (N + k)" if "k \<le> 65540" for k
      using unat_u32 [of "N + k"] that N assms(2) by (simp_all add: N_def)
    have f: "f \<le> length buf - 3" unfolding f_def using length_takeWhile_le [of _ "take (length buf - 3) buf"] by (simp add: le_trans)
    have skip: "take 4 (drop i d) \<noteq> start" if "N \<le> i" "i < N + f" for i
    proof (rule no_start)
      have "i - N < f" using that by simp
      then have "take (length buf - 3) buf ! (i - N) \<noteq> start ! 0" unfolding f_def by (rule takeWhile_holds)
      then show "d ! i \<noteq> start ! 0" using that f len by (simp add: buf_def)
      show "i < length d" using that f len by simp
    qed
    have go: "found start d N (find_start start d (nPos + word_of_nat k))"
      if k: "0 < k" "k \<le> 65536" "\<And>i. N \<le> i \<Longrightarrow> i < N + k \<Longrightarrow> i < length d - 8 \<Longrightarrow> take 4 (drop i d) \<noteq> start" for k
    proof -
      have "length d - unat (nPos + word_of_nat k) < length d - unat nPos" using k(1,2) N word(1) [of k] by (simp add: N_def)
      from less [OF this] have "found start d (N + k) (find_start start d (nPos + word_of_nat k))" using k(2) word(1) [of k] by simp
      moreover have "next_start start d N = next_start start d (N + k)" by (rule next_start_skip) (use k(3) in auto)
      ultimately show ?thesis by (simp add: found_def)
    qed
    show ?thesis
    proof (cases "f < length buf - 3")
      case True
      have here: "take 4 (drop f buf) = take 4 (drop (N + f) d)" using True len by (simp add: buf_def drop_take min_absorb1 add.commute)
      have p: "nPos + word_of_nat f + 4 = word_of_nat (N + f + 4)" using word(2) [of f] True len by simp
      show ?thesis
      proof (cases "take 4 (drop (N + f) d) = start")
        case st: True
        then have r: "find_start start d nPos = Some (word_of_nat (N + f + 4))" using unfold False True here p by simp
        have "next_start start d N = next_start start d (N + f)" by (rule next_start_skip) (use skip in auto)
        moreover have "N + f < length d - 8 \<Longrightarrow> next_start start d (N + f) = Some (N + f)" using next_start_here [OF st] .
        moreover have "\<not> N + f < length d - 8 \<Longrightarrow> next_start start d (N + f) = None" by (simp add: next_start_def)
        moreover have "N + f + 4 \<le> length d" using True len by simp
        ultimately show ?thesis using r unfolding found_def N_def [symmetric]
          by (cases "N + f < length d - 8") (auto intro!: disjI2 exI [of _ "N + f"])
      next
        case no: False
        have "find_start start d nPos = find_start start d (nPos + word_of_nat (f + 1))" using unfold False True here no by (simp add: ac_simps)
        moreover have "found start d N (find_start start d (nPos + word_of_nat (f + 1)))"
          by (rule go) (use True len skip no in \<open>auto simp: less_Suc_eq\<close>)
        ultimately show ?thesis by (simp add: N_def)
      qed
    next
      case over: False
      have "found start d N (find_start start d (nPos + word_of_nat 65533))"
        by (rule go) (use over f len skip in \<open>auto simp: min_def split: if_splits\<close>)
      then show ?thesis using unfold False over by (simp add: N_def)
    qed
  qed
qed

lemma load_loop_end: "length d \<le> unat nPos + 8 \<Longrightarrow> load_loop process start d nPos n s = Some (n, s)"
proof -
  assume "length d \<le> unat nPos + 8"
  then have "length (take 65536 (drop (unat nPos) d)) \<le> 8" by simp
  then have "find_start start d nPos = Some (-1)" by (subst find_start.simps) (simp only: Let_def if_True)
  then show ?thesis by (subst load_loop.simps) simp
qed

lemma unser_word_rest: "unser_word bs = Some (w :: u32, r) \<Longrightarrow> r = drop 4 bs"
  by (auto simp: unser_word_def read_bytes_def split: if_splits)

lemma unser_CBlock_Nil: "unser_CBlock [] = None"
  by (simp add: unser_CBlock_def unser_header_def unser_word_def read_bytes_def)

text \<open>A message start so close to the end that no block can follow ends the loop.\<close>

lemma load_loop_last:
  assumes "length d \<le> unat p + 4"
  shows "(case (unser_word (drop (unat p) d) :: (u32 \<times> byte list) option) of
      None \<Rightarrow> Some (n, s)
    | Some (nSize, r) \<Rightarrow>
        if nSize > 0 \<and> unat nSize \<le> MAX_BLOCK_SIZE
        then (case unser_CBlock r of None \<Rightarrow> Some (n, s) | Some (b, x) \<Rightarrow> f b nSize)
        else load_loop process start d p n s) = Some (n, s)"
proof -
  have "r = []" if "unser_word (drop (unat p) d) = Some (nSize :: u32, r)" for nSize r
    using unser_word_rest [OF that] assms by simp
  then show ?thesis using load_loop_end [of d p process start n s] assms by (auto simp: unser_CBlock_Nil split: option.split)
qed

lemma load_loop_blocks:
  "length start = 4 \<Longrightarrow> length d < 2 ^ 32 - 2 ^ 20 \<Longrightarrow> q < 2 ^ 32 - 1 \<Longrightarrow>
   load_loop process start d (word_of_nat q) n s = Some (load_blocks process start d q n s)"
proof (induction process start d q n s rule: load_blocks.induct)
  case (1 process start d q n s)
  note IH = 1(1-3) and len = 1(4,5)
  have m: "unat (- 1 :: u32) = 2 ^ 32 - 1" by code_simp
  have word: "unat (word_of_nat k :: u32) = k" "(word_of_nat k :: u32) \<noteq> -1" if "k < 2 ^ 32 - 1" for k
  proof -
    show u: "unat (word_of_nat k :: u32) = k" using unat_u32 [of k] that by simp
    show "(word_of_nat k :: u32) \<noteq> -1" using u m that by (metis less_irrefl)
  qed
  have f: "found start d q (find_start start d (word_of_nat q))" using find_start_found [OF len, of "word_of_nat q"] word(1) [OF 1(6)] by simp
  show ?case
  proof (cases "next_start start d q")
    case None
    then have b: "load_blocks process start d q n s = (n, s)" by (subst load_blocks.simps) simp
    from f None consider "find_start start d (word_of_nat q) = Some (-1)"
      | i where "length d \<le> i + 8" "i + 4 \<le> length d" "find_start start d (word_of_nat q) = Some (word_of_nat (i + 4))"
      unfolding found_def by auto
    then show ?thesis
    proof cases
      case 1
      then show ?thesis unfolding b by (subst load_loop.simps) simp
    next
      case (2 i)
      have "i + 4 < 2 ^ 32 - 1" using 2(2) len(2) by simp
      note p = word [OF this]
      show ?thesis unfolding b using load_loop_last [of d "word_of_nat (i + 4)"] p 2(1,3) word(2) [OF \<open>q < 2 ^ 32 - 1\<close>]
        by (subst load_loop.simps) (simp del: of_nat_add)
    qed
  next
    case (Some i)
    note ns = Some and i = next_start_Some [OF Some]
    have "i + 4 < 2 ^ 32 - 1" using i len(2) by auto
    note p = word [OF this]
    have fs: "find_start start d (word_of_nat q) = Some (word_of_nat (i + 4))" using f Some by (simp add: found_def)
    show ?thesis
    proof (cases "unser_word (drop (i + 4) d) :: (u32 \<times> byte list) option")
      case None
      then have "load_blocks process start d q n s = (n, s)" using Some by (subst load_blocks.simps) simp
      then show ?thesis using None fs p word(2) [OF 1(6)] by (subst load_loop.simps) (simp del: of_nat_add)
    next
      case (Some x)
      then obtain nSize r where x: "unser_word (drop (i + 4) d) = Some (nSize :: u32, r)" by (cases x) auto
      let ?go = "load_loop process start d" and ?ref = "load_blocks process start d" and ?p = "word_of_nat (i + 4) :: u32"
      let ?ok = "0 < nSize \<and> unat nSize \<le> MAX_BLOCK_SIZE"
      have L: "?go (word_of_nat q) n s = (if ?ok then (case unser_CBlock r of None \<Rightarrow> Some (n, s) | Some (b, _) \<Rightarrow>
          (case process s b of (Inr _, s') \<Rightarrow> ?go (?p + 4 + nSize) (n + 1) s' | (Inl v, s') \<Rightarrow> if thrown v then Some (n, s') else ?go ?p n s'))
          else ?go ?p n s)"
        using fs p x word(2) [OF 1(6)] by (subst load_loop.simps) (simp del: of_nat_add)
      have B: "?ref q n s = (if ?ok then (case unser_CBlock r of None \<Rightarrow> (n, s) | Some (b, _) \<Rightarrow>
          (case process s b of (Inr _, s') \<Rightarrow> ?ref (i + 8 + unat nSize) (n + 1) s' | (Inl v, s') \<Rightarrow> if thrown v then (n, s') else ?ref (i + 4) n s'))
          else ?ref (i + 4) n s)"
        using ns x by (subst load_blocks.simps) simp
      have w: "?p + 4 + nSize = word_of_nat (i + 8 + unat nSize)" by simp
      have lt: "i + 4 < 2 ^ 32 - 1" "?ok \<Longrightarrow> i + 8 + unat nSize < 2 ^ 32 - 1" using i len(2) by auto
      note IH' = IH(1) [OF ns x refl _ _ refl _ refl _ len lt(1)] IH(2) [OF ns x refl _ _ refl _ refl len lt(2)] IH(3) [OF ns x refl _ len lt(1)]
      consider "\<not> ?ok" | "?ok" "unser_CBlock r = None" | b z res s' where "?ok" "unser_CBlock r = Some (b, z)" "process s b = (res, s')"
        by (metis not_None_eq surj_pair)
      then show ?thesis
      proof cases
        case 1
        show ?thesis unfolding L B if_not_P [OF 1] by (rule IH'(3) [OF 1])
      next
        case 2
        then show ?thesis unfolding L B by simp
      next
        case (3 b z res s')
        show ?thesis
        proof (cases res)
          case (Inl v)
          then show ?thesis unfolding L B w using IH'(1) [OF 3(1,2), of v s'] 3 by (simp del: of_nat_add)
        next
          case (Inr u)
          then show ?thesis unfolding L B w using IH'(2) [OF 3(1,2), of u s'] 3 by (simp del: of_nat_add)
        qed
      qed
    qed
  qed
qed

definition file_record :: "bool \<Rightarrow> CBlock \<Rightarrow> byte list" where
  "file_record fTest b = pchMessageStart fTest @ ser_word (word_of_nat (size_CBlock b) :: u32) @ ser_CBlock b"

lemma length_record: "length (file_record fTest b) = 8 + size_CBlock b"
  by (simp add: file_record_def pchMessageStart_def ser_word_def length_ser_CBlock)

text \<open>The blocks of a list are accepted one after the other.\<close>

fun accepts_all :: "('s \<Rightarrow> CBlock \<Rightarrow> unit checked \<times> 's) \<Rightarrow> CBlock list \<Rightarrow> 's \<Rightarrow> bool" where
  "accepts_all process [] s \<longleftrightarrow> True"
| "accepts_all process (b # r) s \<longleftrightarrow> fst (process s b) = Inr () \<and> accepts_all process r (snd (process s b))"

lemma load_blocks_records:
  assumes "list_all (\<lambda>b. ok_CBlock b \<and> size_CBlock b \<le> MAX_BLOCK_SIZE) bs"
  shows "accepts_all process bs s \<Longrightarrow> d = pre @ concat (map (file_record fTest) bs) \<Longrightarrow>
    load_blocks process (pchMessageStart fTest) d (length pre) n s = (n + length bs, foldl (\<lambda>s b. snd (process s b)) s bs)"
  using assms
proof (induction bs arbitrary: pre n s)
  case Nil
  then have "next_start (pchMessageStart fTest) d (length pre) = None" by (simp add: next_start_def)
  then show ?case by (subst load_blocks.simps) simp
next
  case (Cons b bs)
  let ?start = "pchMessageStart fTest" and ?rest = "concat (map (file_record fTest) bs)" and ?size = "word_of_nat (size_CBlock b) :: u32"
  have b: "ok_CBlock b" "80 < size_CBlock b" "size_CBlock b \<le> MAX_BLOCK_SIZE" using Cons.prems(3)
    by (simp_all add: size_CBlock_def size_vec_def GetSizeOfCompactSize_def)
  have size: "unat ?size = size_CBlock b" "?size > 0" using b unat_u32 [of "size_CBlock b"] by (simp_all add: word_less_nat_alt)
  have d: "drop (length pre) d = ?start @ ser_word ?size @ ser_CBlock b @ ?rest" using Cons.prems(2) by (simp add: file_record_def [of fTest b])
  have len: "length ?start = 4" by (simp add: pchMessageStart_def)
  have "length pre < length d - 8" using Cons.prems(2) b(2) by (simp add: length_record)
  then have ns: "next_start ?start d (length pre) = Some (length pre)" using next_start_here [of "length pre" d ?start] d len by simp
  have "drop (length pre + 4) d = drop 4 (drop (length pre) d)" by (simp add: add.commute)
  then have "drop (length pre + 4) d = ser_word ?size @ ser_CBlock b @ ?rest" using d len by simp
  then have "unser_word (drop (length pre + 4) d) = Some (?size, ser_CBlock b @ ?rest)" by (simp add: u32.unser_ser)
  moreover have "unser_CBlock (ser_CBlock b @ ?rest) = Some (b, ?rest)" using b(1) by (rule block_c.unser_ser)
  moreover obtain s' where pr: "process s b = (Inr (), s')" using Cons.prems(1) by (cases "process s b") simp
  ultimately have "load_blocks process ?start d (length pre) n s
      = load_blocks process ?start d (length pre + 8 + size_CBlock b) (n + 1) (snd (process s b))"
    using ns size(2) b(3) by (subst load_blocks.simps) (simp add: size(1))
  also have "length pre + 8 + size_CBlock b = length (pre @ file_record fTest b)" by (simp add: length_record)
  also have "load_blocks process ?start d (length (pre @ file_record fTest b)) (n + 1) (snd (process s b))
      = (n + 1 + length bs, foldl (\<lambda>s b. snd (process s b)) (snd (process s b)) bs)"
    by (rule Cons.IH) (use Cons.prems in auto)
  finally show ?case by simp
qed

text \<open>
  C30: loading an external block file ends, whatever the file holds and whatever processing its blocks does: accepting, refusing
  or throwing.  It finds and processes the same blocks as the search over positions without buffers and machine
  integers.  In particular a file of records as \<open>WriteToDisk\<close> appends them, whose blocks are accepted in this order, is processed
  completely.  The file is shorter than \<open>2^32 - 2^20\<close> bytes, so that positions do not overflow 32 bits.
\<close>

theorem LoadExternalBlockFile_total:
  assumes "length d < 2 ^ 32 - 2 ^ 20"
  shows "LoadExternalBlockFile process fTest d s =
      Some (0 < fst (load_blocks process (pchMessageStart fTest) d 0 0 s), snd (load_blocks process (pchMessageStart fTest) d 0 0 s))
    \<and> (d = concat (map (file_record fTest) bs) \<and> list_all (\<lambda>b. ok_CBlock b \<and> size_CBlock b \<le> MAX_BLOCK_SIZE) bs \<and> accepts_all process bs s \<longrightarrow>
       LoadExternalBlockFile process fTest d s = Some (bs \<noteq> [], foldl (\<lambda>s b. snd (process s b)) s bs))"
proof -
  have l: "LoadExternalBlockFile process fTest d s =
      Some (0 < fst (load_blocks process (pchMessageStart fTest) d 0 0 s), snd (load_blocks process (pchMessageStart fTest) d 0 0 s))"
    using load_loop_blocks [OF _ assms, of "pchMessageStart fTest" 0 process 0 s]
    by (simp add: LoadExternalBlockFile_def pchMessageStart_def split_beta)
  moreover have "load_blocks process (pchMessageStart fTest) d 0 0 s = (length bs, foldl (\<lambda>s b. snd (process s b)) s bs)"
    if "d = concat (map (file_record fTest) bs)" "list_all (\<lambda>b. ok_CBlock b \<and> size_CBlock b \<le> MAX_BLOCK_SIZE) bs" "accepts_all process bs s"
    using load_blocks_records [OF that(2,3), of d "[]" fTest 0] that(1) by simp
  ultimately show ?thesis by auto
qed

section \<open>A file with one block\<close>

definition no_files :: block_files where
  "no_files = \<lparr> file_data = Map.empty, nCurrentBlockFile = 1 \<rparr>"

definition coin_files :: block_files where
  "coin_files = no_files\<lparr> file_data := [1 \<mapsto> file_record False coin_block] \<rparr>"

lemma coin_written: "WriteToDisk False coin_block no_files = (Some (1, 8), coin_files)"
proof -
  have "AppendBlockFile no_files = (Some 1, no_files\<lparr> file_data := [1 \<mapsto> []] \<rparr>)"
    by (subst AppendBlockFile.simps) (simp add: no_files_def OpenBlockFile_def MAX_SIZE_def)
  then show ?thesis
    by (simp add: WriteToDisk_def Let_def coin_files_def no_files_def file_record_def) (simp add: pchMessageStart_def ser_word_def)
qed

lemma coin_ok: "ok_CBlock coin_block" "size_CBlock coin_block \<le> MAX_BLOCK_SIZE"
proof -
  have "ok_CTransaction sample_coinbase" by code_simp
  then show "ok_CBlock coin_block" by (simp add: ok_CBlock_def coin_block_sel MAX_SIZE_def) (simp add: sample_block_def)
  show "size_CBlock coin_block \<le> MAX_BLOCK_SIZE"
    by (simp add: size_CBlock_def coin_block_sel size_vec_def sample_sizes size_string_def GetSizeOfCompactSize_def) (simp add: sample_block_def)
qed

theorem WriteToDisk_roundtrip_witness:
  "WriteToDisk False coin_block no_files = (Some (1, 8), coin_files) \<and> read_block check_sample coin_files 1 8 = Some coin_block"
proof -
  have "SetCompact mpi_ref 0x1d00ffff = 0xffff * 256 ^ 26" using mref.SetCompact_value [of "0x1d00ffff"] by simp
  then have "CheckProofOfWork mpi_ref main_params 80 0x1d00ffff"
    by (simp add: CheckProofOfWork_def mref.getuint256_value main_params_def word_less_nat_alt)
  then show ?thesis
    using WriteToDisk_roundtrip [OF coin_written coin_ok(1), of check_sample] coin_written
    by (simp add: check_sample_def coin_block_hash coin_block_sel)
qed

theorem ConnectBlock_locates_witness:
  "\<exists>p db'. ConnectBlock sample_block_env ReadTxIndex UpdateTxIndex (WriteBlockIndex (s_hash check_lib) (\<lambda>_. 0) True 0)
      [(sample_index 1 1442210400 0x1d00ffff)\<lparr> nBlockPos := 8 \<rparr>] 0 False coin_block Map.empty
      \<lparr> pdb = Map.empty, pdb_ok = True, activeBatch = None, fReadOnly = False \<rparr> = (Inr (p, db'), Map.empty)
    \<and> located (read_tx coin_files) (s_hash check_lib) (ReadTxIndex db')"
proof -
  let ?db = "\<lparr> pdb = Map.empty, pdb_ok = True, activeBatch = None, fReadOnly = False \<rparr>"
  let ?c = "[(sample_index 1 1442210400 0x1d00ffff)\<lparr> nBlockPos := 8 \<rparr>]"
  have e: "db_inv ?db" "ReadTxIndex ?db = Map.empty" by (simp_all add: db_inv_def fun_eq_iff ReadTxIndex_kv kv_def)
  obtain p db' where c: "ConnectBlock sample_block_env ReadTxIndex UpdateTxIndex (WriteBlockIndex (s_hash check_lib) (\<lambda>_. 0) True 0)
      ?c 0 False coin_block Map.empty ?db = (Inr (p, db'), Map.empty)"
    using coin_connects [of sample_block_env ?db ?c "s_hash check_lib" "\<lambda>_. 0" True 0 0 Map.empty] e
    by (auto simp: sample_block_env_def sample_index_def)
  have "stored coin_files 1 8 coin_block" using WriteToDisk_stored [OF coin_written] by blast
  then have "located (read_tx coin_files) (be_hash sample_block_env) (ReadTxIndex db')"
    using ConnectBlock_locates [OF c e(1), of coin_files] coin_ok(1) e(2) by (simp add: sample_index_def located_def [of _ _ Map.empty])
  then show ?thesis using c by (simp add: sample_env_lib)
qed

theorem LoadExternalBlockFile_total_witness:
  "LoadExternalBlockFile (\<lambda>s b. (Inr (), s @ [b])) False (file_record False coin_block) [] = Some (True, [coin_block])"
proof -
  have "length (file_record False coin_block) < 2 ^ 32 - 2 ^ 20" using coin_ok(2) length_record [of False coin_block] by simp
  from conjunct2 [OF LoadExternalBlockFile_total [OF this, of "\<lambda>s b. (Inr (), s @ [b])" False "[]" "[coin_block]"]] show ?thesis using coin_ok by simp
qed

end
