(* ===== verification/SyncCheckpoints.thy ===== *)
theory SyncCheckpoints
  imports BestChain
begin

text \<open>
  Replacing the synchronized checkpoint (\<open>checkpoints.cpp\<close>): a signed message, a pending checkpoint whose block has arrived, and the reset
  to the hardened checkpoints.  The state is that of the node with that of the checkpoints.  A call returns true (\<open>Inr\<close>), false
  (\<open>DoS\<close>) or throws.  Messages to peers are left out.  The object of the database that a function owns is destroyed when the
  function returns, which drops an open batch.
\<close>

section \<open>Definitions\<close>

type_synonym 'd synced = "'d node \<times> sync_state"

definition sync_key :: "byte list" where
  "sync_key = ser_string (str_bytes ''hashSyncCheckpoint'')"

definition ReadSyncCheckpoint :: "CTxDB \<Rightarrow> uint256 option" where
  "ReadSyncCheckpoint db = do { v \<leftarrow> db_Read db sync_key; (h, r) \<leftarrow> unser_word v; Some h }"

definition db_WriteSyncCheckpoint :: "uint256 \<Rightarrow> CTxDB \<Rightarrow> (bool \<times> CTxDB) option" where
  "db_WriteSyncCheckpoint h db = db_Write sync_key (ser_word h) db"

definition WriteSyncCheckpoint :: "uint256 \<Rightarrow> 'd synced \<Rightarrow> unit checked \<times> 'd synced" where
  "WriteSyncCheckpoint h = (\<lambda>(s, ss).
     case begin_db s of (Inl v, s0) \<Rightarrow> (Inl v, drop_batch s0, ss) | (Inr _, s0) \<Rightarrow>
     case db_WriteSyncCheckpoint h (txdb s0) of None \<Rightarrow> (Inl (Throw ''assert''), drop_batch s0, ss) | Some (ok, db) \<Rightarrow>
     if \<not> ok then (Inl (DoS 0 ''failed to write to db sync checkpoint''), drop_batch (abort_db (s0\<lparr> txdb := db \<rparr>)), ss)
     else case commit_db (s0\<lparr> txdb := db \<rparr>) of
       (Inl v, s2) \<Rightarrow> (Inl v, drop_batch s2, ss)
     | (Inr _, s2) \<Rightarrow> (Inr (), drop_batch s2, ss\<lparr> hashSyncCheckpoint := h \<rparr>))"

text \<open>
  The common part of the three operations: a checkpoint that is not in the main chain is made the best block.  \<open>fMark\<close> says whether
  a failure of \<open>SetBestChain\<close> records the checkpoint as invalid.
\<close>

definition force_main_chain :: "'d chain_env \<Rightarrow> bool \<Rightarrow> uint256 \<Rightarrow> 'd synced \<Rightarrow> unit checked \<times> 'd synced" where
  "force_main_chain E fMark h = (\<lambda>(s, ss).
     if IsInMainChain (pindexBest s) (mapBlockIndex s) h then (Inr (), s, ss)
     else case ReadFromDisk E (hd (chain_of (mapBlockIndex s) h)) of
       None \<Rightarrow> (Inl (DoS 0 ''ReadFromDisk failed for sync checkpoint''), s, ss)
     | Some b \<Rightarrow>
        (case SetBestChain E b h s of
           (Inl v, s1) \<Rightarrow> (Inl v, drop_batch s1, if fMark \<and> \<not> thrown v then ss\<lparr> hashInvalidCheckpoint := h \<rparr> else ss)
         | (Inr _, s1) \<Rightarrow> (Inr (), drop_batch s1, ss)))"

definition AcceptPendingSyncCheckpoint :: "'d chain_env \<Rightarrow> 'd synced \<Rightarrow> unit checked \<times> 'd synced" where
  "AcceptPendingSyncCheckpoint E = (\<lambda>(s, ss).
     let h = hashPendingCheckpoint ss in
     if h \<noteq> 0 \<and> mapBlockIndex s h \<noteq> None then
       (case ValidateSyncCheckpoint (mapBlockIndex s) h ss of (ok, ss1) \<Rightarrow>
        if \<not> ok then (Inl (DoS 0 ''''), s, ss1\<lparr> hashPendingCheckpoint := 0, checkpointMessagePending := CSyncCheckpoint_null \<rparr>)
        else case force_main_chain E True h (s, ss1) of (Inl v, st) \<Rightarrow> (Inl v, st) | (Inr _, st) \<Rightarrow>
        case WriteSyncCheckpoint h st of (Inl v, st) \<Rightarrow> (Inl v, st)
        | (Inr _, s2, ss2) \<Rightarrow> (Inr (), s2, ss2\<lparr> hashPendingCheckpoint := 0, checkpointMessage := checkpointMessagePending ss2,
            checkpointMessagePending := CSyncCheckpoint_null \<rparr>))
     else (Inl (DoS 0 ''''), s, ss))"

definition ProcessSyncCheckpoint :: "'d chain_env \<Rightarrow> CSyncCheckpoint \<Rightarrow> 'd synced \<Rightarrow> unit checked \<times> 'd synced" where
  "ProcessSyncCheckpoint E m = (\<lambda>(s, ss).
     case CheckSignature (ke_lib (xe_kernel E)) m of Inl v \<Rightarrow> (Inl v, s, ss) | Inr m \<Rightarrow>
     let h = cp_hashCheckpoint m in
     if mapBlockIndex s h = None
     then (Inl (DoS 0 ''pending for sync-checkpoint''), s, ss\<lparr> hashPendingCheckpoint := h, checkpointMessagePending := m \<rparr>)
     else case ValidateSyncCheckpoint (mapBlockIndex s) h ss of (ok, ss1) \<Rightarrow>
       if \<not> ok then (Inl (DoS 0 ''''), s, ss1)
       else case force_main_chain E True h (s, ss1) of (Inl v, st) \<Rightarrow> (Inl v, st) | (Inr _, st) \<Rightarrow>
       case WriteSyncCheckpoint h st of (Inl v, st) \<Rightarrow> (Inl v, st)
       | (Inr _, s2, ss2) \<Rightarrow> (Inr (), s2, ss2\<lparr> checkpointMessage := m, hashPendingCheckpoint := 0, checkpointMessagePending := CSyncCheckpoint_null \<rparr>))"

text \<open>The hardened checkpoints of the main network are used, also on the test network.\<close>

definition ResetSyncCheckpoint :: "'d chain_env \<Rightarrow> 'd synced \<Rightarrow> unit checked \<times> 'd synced" where
  "ResetSyncCheckpoint E = (\<lambda>(s, ss).
     let h = snd (List.last mapCheckpoints) in
     case (if mapBlockIndex s h = None
           then (Inr (), s, ss\<lparr> hashPendingCheckpoint := h, checkpointMessagePending := CSyncCheckpoint_null \<rparr>)
           else force_main_chain E False h (s, ss)) of
       (Inl v, st) \<Rightarrow> (Inl v, st)
     | (Inr _, s1, ss1) \<Rightarrow>
        (case List.find (IsInMainChain (pindexBest s1) (mapBlockIndex s1)) (map snd (rev mapCheckpoints)) of
           None \<Rightarrow> (Inl (DoS 0 ''''), s1, ss1)
         | Some k \<Rightarrow> WriteSyncCheckpoint k (s1, ss1)))"

section \<open>What is written\<close>

lemma WriteSyncCheckpoint_ok:
  assumes "WriteSyncCheckpoint h (s, ss) = (Inr (), s', ss')"
  shows "ss' = ss\<lparr> hashSyncCheckpoint := h \<rparr> \<and> ReadSyncCheckpoint (txdb s') = Some h \<and> (\<exists>db. s' = s\<lparr> txdb := db \<rparr>)"
proof -
  from assms have a: "activeBatch (txdb s) = None" "\<not> fReadOnly (txdb s)" "pdb_ok (txdb s)"
    "s' = s\<lparr> txdb := (txdb s)\<lparr> activeBatch := None, pdb := (pdb (txdb s))(sync_key \<mapsto> ser_word h) \<rparr> \<rparr>" "ss' = ss\<lparr> hashSyncCheckpoint := h \<rparr>"
    by (auto simp: WriteSyncCheckpoint_def begin_db_def TxnBegin_def db_WriteSyncCheckpoint_def db_Write_def commit_db_def TxnCommit_def drop_batch_def
        split: if_splits)
  then have "db_Read (txdb s') sync_key = Some (ser_word h)" by (simp add: db_Read_def db_Get_def)
  then have "ReadSyncCheckpoint (txdb s') = Some h" using u256.unser_ser [of h "[]"] by (simp add: ReadSyncCheckpoint_def)
  then show ?thesis using a by blast
qed

lemma WriteSyncCheckpoint_fail: "WriteSyncCheckpoint h (s, ss) = (Inl v, s', ss') \<Longrightarrow> ss' = ss"
  by (auto simp: WriteSyncCheckpoint_def split: prod.splits sum.splits option.splits if_splits)

lemma set_best_best: "SetBestChain E b h s = (Inr (), s') \<Longrightarrow> pindexBest s' = Some h"
  by (auto simp: SetBestChain_def Let_def set_best_def split: prod.splits sum.splits)

lemma force_main_chain_view:
  assumes "force_main_chain E fMark h (s, ss) = (r, s', ss')"
  shows "(\<exists>i. ss' = ss\<lparr> hashInvalidCheckpoint := i \<rparr>) \<and> (r = Inr () \<longrightarrow> ss' = ss \<and> (IsInMainChain (pindexBest s) (mapBlockIndex s) h \<and> s' = s \<or> pindexBest s' = Some h))"
proof -
  have "ss' = ss \<or> ss' = ss\<lparr> hashInvalidCheckpoint := h \<rparr>"
    using assms by (auto simp: force_main_chain_def split: if_splits option.splits prod.splits sum.splits)
  moreover have "ss = ss\<lparr> hashInvalidCheckpoint := hashInvalidCheckpoint ss \<rparr>" by simp
  moreover have "ss' = ss \<and> (IsInMainChain (pindexBest s) (mapBlockIndex s) h \<and> s' = s \<or> pindexBest s' = Some h)" if "r = Inr ()"
    using assms that by (auto simp: force_main_chain_def drop_batch_def dest: set_best_best split: if_splits option.splits prod.splits sum.splits)
  ultimately show ?thesis by metis
qed

text \<open>The two last steps of accepting a checkpoint: force it into the main chain, then write it.\<close>

lemma replace_view:
  assumes "(case force_main_chain E fMark h (s, ss) of (Inl v, st) \<Rightarrow> (Inl v, st) | (Inr _, st) \<Rightarrow>
      case WriteSyncCheckpoint h st of (Inl v, st) \<Rightarrow> (Inl v, st) | (Inr _, s2, ss2) \<Rightarrow> (Inr (), s2, f ss2)) = (r, s', ss')"
    "\<And>x. hashSyncCheckpoint (f x) = hashSyncCheckpoint x"
  shows "if r = Inr () then hashSyncCheckpoint ss' = h \<and> ReadSyncCheckpoint (txdb s') = Some h
      \<and> (IsInMainChain (pindexBest s) (mapBlockIndex s) h \<or> pindexBest s' = Some h)
    else hashSyncCheckpoint ss' = hashSyncCheckpoint ss"
proof -
  obtain r1 s1 ss1 where f: "force_main_chain E fMark h (s, ss) = (r1, s1, ss1)" by (metis surj_pair)
  note v = force_main_chain_view [OF f]
  show ?thesis
  proof (cases r1)
    case (Inl x)
    then show ?thesis using assms(1) f v by auto
  next
    case (Inr u)
    obtain r2 s2 ss2 where w: "WriteSyncCheckpoint h (s1, ss1) = (r2, s2, ss2)" by (metis surj_pair)
    show ?thesis
    proof (cases r2)
      case (Inl x)
      then show ?thesis using assms(1) f v w Inr WriteSyncCheckpoint_fail [of h s1 ss1 x s2 ss2] by auto
    next
      case r2: (Inr u')
      then have "r = Inr ()" "s' = s2" "ss' = f ss2" using assms(1) f w Inr by auto
      then show ?thesis using WriteSyncCheckpoint_ok [of h s1 ss1 s2 ss2] w r2 Inr v assms(2) by auto
    qed
  qed
qed

section \<open>Only descendants replace the checkpoint\<close>

lemma AcceptPending_view:
  assumes "tree_inv (mapBlockIndex s)" "mapBlockIndex s (hashSyncCheckpoint ss) \<noteq> None" "AcceptPendingSyncCheckpoint E (s, ss) = (r, s', ss')"
  shows "if r = Inr () then hashSyncCheckpoint ss' = hashPendingCheckpoint ss \<and> descends (mapBlockIndex s) (hashPendingCheckpoint ss) (hashSyncCheckpoint ss)
      \<and> ReadSyncCheckpoint (txdb s') = Some (hashPendingCheckpoint ss)
      \<and> (IsInMainChain (pindexBest s) (mapBlockIndex s) (hashPendingCheckpoint ss) \<or> pindexBest s' = Some (hashPendingCheckpoint ss))
    else hashSyncCheckpoint ss' = hashSyncCheckpoint ss"
proof -
  let ?h = "hashPendingCheckpoint ss"
  obtain ok ss1 where v: "ValidateSyncCheckpoint (mapBlockIndex s) ?h ss = (ok, ss1)" by (metis surj_pair)
  have ok: "ok \<longleftrightarrow> descends (mapBlockIndex s) ?h (hashSyncCheckpoint ss)" using ValidateSyncCheckpoint_iff [OF assms(1,2)] v by (metis fst_conv)
  have ss1: "hashSyncCheckpoint ss1 = hashSyncCheckpoint ss" using ValidateSyncCheckpoint_state [OF v] by auto
  show ?thesis
  proof (cases "?h \<noteq> 0 \<and> mapBlockIndex s ?h \<noteq> None \<and> ok")
    case True
    then have "(case force_main_chain E True ?h (s, ss1) of (Inl v, st) \<Rightarrow> (Inl v, st) | (Inr _, st) \<Rightarrow>
      case WriteSyncCheckpoint ?h st of (Inl v, st) \<Rightarrow> (Inl v, st) | (Inr _, s2, ss2) \<Rightarrow> (Inr (), s2,
        ss2\<lparr> hashPendingCheckpoint := 0, checkpointMessage := checkpointMessagePending ss2, checkpointMessagePending := CSyncCheckpoint_null \<rparr>)) = (r, s', ss')"
      using assms(3) v by (simp add: AcceptPendingSyncCheckpoint_def Let_def)
    from replace_view [OF this] show ?thesis using True ok ss1 by simp
  next
    case False
    then show ?thesis using assms(3) v ss1 by (auto simp: AcceptPendingSyncCheckpoint_def Let_def split: if_splits)
  qed
qed

lemma ProcessSync_view:
  assumes "tree_inv (mapBlockIndex s)" "mapBlockIndex s (hashSyncCheckpoint ss) \<noteq> None" "ProcessSyncCheckpoint E m (s, ss) = (r, s', ss')"
  shows "if r = Inr () then (\<exists>m'. CheckSignature (ke_lib (xe_kernel E)) m = Inr m' \<and> hashSyncCheckpoint ss' = cp_hashCheckpoint m')
      \<and> descends (mapBlockIndex s) (hashSyncCheckpoint ss') (hashSyncCheckpoint ss) \<and> ReadSyncCheckpoint (txdb s') = Some (hashSyncCheckpoint ss')
      \<and> (IsInMainChain (pindexBest s) (mapBlockIndex s) (hashSyncCheckpoint ss') \<or> pindexBest s' = Some (hashSyncCheckpoint ss'))
    else hashSyncCheckpoint ss' = hashSyncCheckpoint ss"
proof (cases "CheckSignature (ke_lib (xe_kernel E)) m")
  case (Inl v)
  then show ?thesis using assms(3) by (auto simp: ProcessSyncCheckpoint_def)
next
  case (Inr m')
  let ?h = "cp_hashCheckpoint m'"
  obtain ok ss1 where v: "ValidateSyncCheckpoint (mapBlockIndex s) ?h ss = (ok, ss1)" by (metis surj_pair)
  have ok: "ok \<longleftrightarrow> descends (mapBlockIndex s) ?h (hashSyncCheckpoint ss)" using ValidateSyncCheckpoint_iff [OF assms(1,2)] v by (metis fst_conv)
  have ss1: "hashSyncCheckpoint ss1 = hashSyncCheckpoint ss" using ValidateSyncCheckpoint_state [OF v] by auto
  show ?thesis
  proof (cases "mapBlockIndex s ?h \<noteq> None \<and> ok")
    case True
    then obtain y where y: "mapBlockIndex s ?h = Some y" "ok" by blast
    then have "(case force_main_chain E True ?h (s, ss1) of (Inl v, st) \<Rightarrow> (Inl v, st) | (Inr _, st) \<Rightarrow>
      case WriteSyncCheckpoint ?h st of (Inl v, st) \<Rightarrow> (Inl v, st) | (Inr _, s2, ss2) \<Rightarrow> (Inr (), s2,
        ss2\<lparr> checkpointMessage := m', hashPendingCheckpoint := 0, checkpointMessagePending := CSyncCheckpoint_null \<rparr>)) = (r, s', ss')"
      using assms(3) v Inr by (simp add: ProcessSyncCheckpoint_def Let_def)
    from replace_view [OF this] show ?thesis using True ok ss1 Inr by (auto split: if_splits)
  next
    case False
    then show ?thesis using assms(3) v ss1 Inr by (auto simp: ProcessSyncCheckpoint_def Let_def split: if_splits)
  qed
qed

lemma find_in: "List.find P xs = Some k \<Longrightarrow> k \<in> set xs \<and> P k"
  by (induction xs) (auto split: if_splits)

lemma ResetSync_view:
  assumes "ResetSyncCheckpoint E (s, ss) = (r, s', ss')"
  shows "if r = Inr () then hashSyncCheckpoint ss' \<in> set (map snd mapCheckpoints) \<and> IsInMainChain (pindexBest s') (mapBlockIndex s') (hashSyncCheckpoint ss')
      \<and> ReadSyncCheckpoint (txdb s') = Some (hashSyncCheckpoint ss')
    else hashSyncCheckpoint ss' = hashSyncCheckpoint ss"
proof -
  let ?h = "snd (List.last mapCheckpoints)"
  obtain r1 s1 ss1 where f: "(if mapBlockIndex s ?h = None
       then (Inr (), s, ss\<lparr> hashPendingCheckpoint := ?h, checkpointMessagePending := CSyncCheckpoint_null \<rparr>) else force_main_chain E False ?h (s, ss)) = (r1, s1, ss1)"
    by (metis surj_pair)
  have ss1: "hashSyncCheckpoint ss1 = hashSyncCheckpoint ss" using f force_main_chain_view [of E False ?h s ss r1 s1 ss1] by (auto split: if_splits)
  show ?thesis
  proof (cases r1)
    case (Inl v)
    then show ?thesis using assms f ss1 by (auto simp: ResetSyncCheckpoint_def Let_def)
  next
    case (Inr u)
    show ?thesis
    proof (cases "List.find (IsInMainChain (pindexBest s1) (mapBlockIndex s1)) (map snd (rev mapCheckpoints))")
      case None
      then show ?thesis using assms f ss1 Inr by (auto simp: ResetSyncCheckpoint_def Let_def)
    next
      case (Some k)
      have k: "k \<in> set (map snd mapCheckpoints)" "IsInMainChain (pindexBest s1) (mapBlockIndex s1) k" using find_in [OF Some] by simp_all
      have w: "WriteSyncCheckpoint k (s1, ss1) = (r, s', ss')" using assms f Inr Some by (simp add: ResetSyncCheckpoint_def Let_def)
      show ?thesis
      proof (cases r)
        case (Inl v)
        then show ?thesis using WriteSyncCheckpoint_fail [of k s1 ss1 v s' ss'] w ss1 by simp
      next
        case (Inr u)
        then show ?thesis using WriteSyncCheckpoint_ok [of k s1 ss1 s' ss'] w k by auto
      qed
    qed
  qed
qed

text \<open>
  C24: the synchronized checkpoint admits only its own chain and moves only up it.  \<open>CheckSync\<close> accepts a block exactly when the block descends from
  the checkpoint, is the checkpoint, or is a known block below it.  A pending checkpoint and a checkpoint message, which must carry a valid
  signature, replace the checkpoint only by a proper descendant of it, which is in the main chain or has become the best block, and the database
  records it; when the call does not succeed the checkpoint stays.  \<open>ResetSyncCheckpoint\<close> alone may choose a block that is no descendant: a hardened
  checkpoint in the main chain.  The block index is a tree that holds the current checkpoint.
\<close>

theorem sync_checkpoint_descendants:
  assumes "tree_inv (mapBlockIndex s)" "mapBlockIndex s (hashSyncCheckpoint ss) \<noteq> None" "mapBlockIndex s hashPrev \<noteq> None"
    "AcceptPendingSyncCheckpoint E (s, ss) = (ra, sa, ssa)" "ProcessSyncCheckpoint E m (s, ss) = (rp, sp, ssp)" "ResetSyncCheckpoint E (s, ss) = (rr, sr, ssr)"
  shows "CheckSync False (mapBlockIndex s) ss hashBlock hashPrev = Some (hashSyncCheckpoint ss \<in> set (map phashBlock (chain_of (mapBlockIndex s) hashPrev))
      \<or> height (mapBlockIndex s) hashPrev + 1 = height (mapBlockIndex s) (hashSyncCheckpoint ss) \<and> hashBlock = hashSyncCheckpoint ss
      \<or> height (mapBlockIndex s) hashPrev + 1 < height (mapBlockIndex s) (hashSyncCheckpoint ss) \<and> mapBlockIndex s hashBlock \<noteq> None)
    \<and> (if ra = Inr () then hashSyncCheckpoint ssa = hashPendingCheckpoint ss \<and> descends (mapBlockIndex s) (hashSyncCheckpoint ssa) (hashSyncCheckpoint ss)
        \<and> ReadSyncCheckpoint (txdb sa) = Some (hashSyncCheckpoint ssa)
        \<and> (IsInMainChain (pindexBest s) (mapBlockIndex s) (hashSyncCheckpoint ssa) \<or> pindexBest sa = Some (hashSyncCheckpoint ssa))
      else hashSyncCheckpoint ssa = hashSyncCheckpoint ss)
    \<and> (if rp = Inr () then (\<exists>m'. CheckSignature (ke_lib (xe_kernel E)) m = Inr m' \<and> hashSyncCheckpoint ssp = cp_hashCheckpoint m')
        \<and> descends (mapBlockIndex s) (hashSyncCheckpoint ssp) (hashSyncCheckpoint ss) \<and> ReadSyncCheckpoint (txdb sp) = Some (hashSyncCheckpoint ssp)
        \<and> (IsInMainChain (pindexBest s) (mapBlockIndex s) (hashSyncCheckpoint ssp) \<or> pindexBest sp = Some (hashSyncCheckpoint ssp))
      else hashSyncCheckpoint ssp = hashSyncCheckpoint ss)
    \<and> (if rr = Inr () then hashSyncCheckpoint ssr \<in> set (map snd mapCheckpoints) \<and> IsInMainChain (pindexBest sr) (mapBlockIndex sr) (hashSyncCheckpoint ssr)
        \<and> ReadSyncCheckpoint (txdb sr) = Some (hashSyncCheckpoint ssr)
      else hashSyncCheckpoint ssr = hashSyncCheckpoint ss)"
proof (intro conjI)
  show "if ra = Inr () then hashSyncCheckpoint ssa = hashPendingCheckpoint ss \<and> descends (mapBlockIndex s) (hashSyncCheckpoint ssa) (hashSyncCheckpoint ss)
      \<and> ReadSyncCheckpoint (txdb sa) = Some (hashSyncCheckpoint ssa)
      \<and> (IsInMainChain (pindexBest s) (mapBlockIndex s) (hashSyncCheckpoint ssa) \<or> pindexBest sa = Some (hashSyncCheckpoint ssa))
    else hashSyncCheckpoint ssa = hashSyncCheckpoint ss"
    using AcceptPending_view [OF assms(1,2,4)] by (simp split: if_splits)
qed (rule CheckSync_iff [OF assms(1-3)], rule ProcessSync_view [OF assms(1,2,5)], rule ResetSync_view [OF assms(6)])

text \<open>A pending checkpoint on the block \<open>80\<close>, which is the best block, replaces the genesis block.\<close>

theorem sync_checkpoint_descendants_witness:
  "\<exists>sa ssa. AcceptPendingSyncCheckpoint coin_env (coin_node\<lparr> pindexBest := Some 80 \<rparr>, sync_init\<lparr> hashSyncCheckpoint := 1, hashPendingCheckpoint := 80 \<rparr>)
      = (Inr (), sa, ssa) \<and> hashSyncCheckpoint ssa = 80 \<and> ReadSyncCheckpoint (txdb sa) = Some 80"
proof -
  let ?s = "coin_node\<lparr> pindexBest := Some 80 \<rparr>" and ?ss = "sync_init\<lparr> hashSyncCheckpoint := 1, hashPendingCheckpoint := 80 \<rparr>"
  have t: "tree_inv (mapBlockIndex ?s)" "mapBlockIndex ?s (hashSyncCheckpoint ?ss) \<noteq> None" using coin_tree(1) by (simp_all, simp add: coin_node_def)
  have M80: "mapBlockIndex ?s 80 = Some \<lparr> node_bi = coin_index, pprev = Some 1, pnext = None \<rparr>" by (simp add: coin_node_def)
  have "descends (mapBlockIndex ?s) 80 (hashSyncCheckpoint ?ss)" using coin_tree(3) M80 by (simp add: descends_def)
  then have "fst (ValidateSyncCheckpoint (mapBlockIndex ?s) 80 ?ss)" using ValidateSyncCheckpoint_iff [OF t] by blast
  then obtain ss1 where v: "ValidateSyncCheckpoint (mapBlockIndex ?s) 80 ?ss = (True, ss1)" by (cases "ValidateSyncCheckpoint (mapBlockIndex ?s) 80 ?ss") simp
  have "force_main_chain coin_env True 80 (?s, ss1) = (Inr (), ?s, ss1)" using M80 by (simp add: force_main_chain_def IsInMainChain_def)
  moreover have "\<exists>s2 ss2. WriteSyncCheckpoint 80 (?s, ss1) = (Inr (), s2, ss2)"
    by (simp add: WriteSyncCheckpoint_def begin_db_def TxnBegin_def db_WriteSyncCheckpoint_def db_Write_def commit_db_def TxnCommit_def coin_node_def)
  ultimately obtain sa ssa where a: "AcceptPendingSyncCheckpoint coin_env (?s, ?ss) = (Inr (), sa, ssa)"
    using v M80 by (auto simp: AcceptPendingSyncCheckpoint_def Let_def)
  obtain rp sp ssp where p: "ProcessSyncCheckpoint coin_env CSyncCheckpoint_null (?s, ?ss) = (rp, sp, ssp)" by (rule prod_cases3)
  obtain rr sr ssr where r: "ResetSyncCheckpoint coin_env (?s, ?ss) = (rr, sr, ssr)" by (rule prod_cases3)
  from sync_checkpoint_descendants [OF t t(2) a p r] have "hashSyncCheckpoint ssa = 80" "ReadSyncCheckpoint (txdb sa) = Some 80" by simp_all
  then show ?thesis using a by blast
qed

end
