(* ===== verification/Spec2Isabelle.thy ===== *)
theory Spec2Isabelle
  imports Uint256 DataStream Standard BlockIndex TxDB TxConnect Base58 Subsidy Rewards CheckBlock ConnectBlock Mempool BlockTree Checkpoints BestChain BlockFiles SyncCheckpoints
begin

text \<open>
  A verification development for the Synergy full node, a proof-of-work and proof-of-stake currency descended from
  Bitcoin, PPCoin and NovaCoin.  The C++ sources are under \<open>src/src\<close>.

  \<^bold>\<open>The program.\<close>  A node receives transactions and blocks.  A transaction is deserialized (\<open>serialize.h\<close>,
  \<open>main.h\<close>), checked on its own (\<open>CheckTransaction\<close>), matched with the outputs it spends (\<open>FetchInputs\<close>), and its
  scripts are run (\<open>script.cpp\<close>) before it enters the memory pool.  A block is checked on its own (\<open>CheckBlock\<close>);
  its difficulty and, for proof of stake, its kernel are checked against the chain before it (\<open>GetNextTargetRequired\<close>,
  \<open>kernel.cpp\<close>); connecting it spends and creates outputs in the transaction index, which LevelDB stores, and limits what
  it mints (\<open>ConnectBlock\<close>, the reward functions); disconnecting it undoes this.

  \<^bold>\<open>Representation.\<close>  Bytes are \<^typ>\<open>8 word\<close>, byte vectors and scripts are lists of bytes, and stored machine
  integers are words of their width, read with \<open>uint\<close>, \<open>unat\<close> or \<open>sint\<close>; amounts are \<open>64 word\<close> read with \<open>sint\<close>, so that
  every overflow of the sources is an overflow of the model.  A \<open>uint256\<close> is a \<open>256 word\<close>; \<open>Uint256\<close> shows that the
  loops over 32-bit limbs compute that arithmetic.  A \<open>CBigNum\<close> is an integer.  Classes are records, enumerations are
  datatypes.  A \<open>std::map\<close> that is iterated is the list of its entries in the order of the keys (\<open>map_put\<close>), other maps
  are functions to options.  A pointer to a \<open>CBlockIndex\<close> whose ancestors are followed is the list of the block and its
  ancestors; the null pointer is the empty list.  A rejected transaction or block is \<open>DoS n reason\<close>, with the score that
  the sources assign to the peer, and an exception or a failed assertion is \<open>Throw reason\<close>.  Locks, logging and wallet
  notifications are left out.

  \<^bold>\<open>Parameters.\<close>  Code that is not in the repository or is only an interface to hardware is an argument of the
  definitions that use it: hash functions (\<open>hash_lib\<close>), elliptic-curve signatures and the key store (\<open>script_lib\<close>),
  OpenSSL's number format (\<open>bn_lib\<close>, with the locale \<open>mpi_lib\<close> for its documented behaviour and the interpretation \<open>mref\<close>
  on an executable instance), the block files, the clock, random numbers.  The database is used through its
  operations; the locales \<open>tx_store\<close> and \<open>chain_store\<close> say what they promise, and the interpretations \<open>txdb\<close> and \<open>chaindb\<close>
  discharge this for the model of \<open>CTxDB\<close>.

  \<^bold>\<open>Theories and what they show.\<close>
  \<^item> \<open>Prelude\<close>: machine types, the little-endian image of words, the result type of the checks, ordered maps.
  \<^item> \<open>Uint256\<close> (\<open>uint256.h\<close>): addition, subtraction, shifts, comparison and hexadecimal text of limb arrays; the locale
    \<open>uint_impl\<close> is the contract of modular arithmetic, interpreted for 160, 256 and 512 bits.
  \<^item> \<open>Serialize\<close>, \<open>DataStream\<close> (\<open>serialize.h\<close>): compact sizes, strings, vectors read in batches, pairs; the
    buffer of \<open>CDataStream\<close>.  The locale \<open>coder\<close> says that what was written is read back; it is interpreted for every
    serialized type, up to transactions, blocks and index entries.  \<open>byte_queue\<close> is the contract of a stream.
  \<^item> \<open>Bignum\<close> (\<open>bignum.h\<close>): conversions of numbers, compact targets and script numbers, with their round trips.
  \<^item> \<open>Opcodes\<close>, \<open>ScriptBase\<close>, \<open>ScriptEval\<close>, \<open>ScriptVerify\<close>, \<open>Standard\<close> (\<open>script.h\<close>, \<open>script.cpp\<close>): building and decoding
    scripts, the interpreter with its limits, signature hashes and the signature cache, \<open>VerifyScript\<close>, standard templates,
    signing.  A signed pay-to-public-key-hash input verifies; a pay-to-script-hash input verifies exactly when its
    redeem script has the committed hash and succeeds; the multi-signature loop finds signatures in the order of keys; the cache
    of signatures never changes an answer.
  \<^item> \<open>Transaction\<close> (\<open>main.h\<close>, \<open>main.cpp\<close>): transactions, their serialization, \<open>CheckTransaction\<close> as a set of rules, fees.
  \<^item> \<open>Block\<close>: block headers, hashes and Merkle trees; the tree built in place has the root of the recursive definition, and the
    branch of each transaction leads to it.
  \<^item> \<open>BlockIndex\<close>: median time, version majorities, difficulty, proof of work, block trust, locators.
  \<^item> \<open>Subsidy\<close>, \<open>Rewards\<close>: the proof-of-work subsidy and its total, the proof-of-stake reward with the turbo stake
    multiplier and its cache of addresses, coin age; no 64-bit computation overflows.
  \<^item> \<open>Kernel\<close> (\<open>kernel.cpp\<close>): stake modifiers, the kernel hash and the proof-of-stake check.
  \<^item> \<open>TxDB\<close>, \<open>BlockDB\<close> (\<open>txdb-leveldb.cpp\<close>): reads, writes and transactions of the database over a map from keys to values; the
    transaction index, block index entries and the hash of the best chain.
  \<^item> \<open>TxConnect\<close>, \<open>CheckBlock\<close>, \<open>ConnectBlock\<close> (\<open>main.cpp\<close>): connecting transactions and blocks.  Accepted transactions spend
    unspent outputs once and pay for their outputs and fees; disconnecting a connected block restores the transaction index;
    a block mints at most its reward, except for a proof-of-work block that contains coin stakes, for which an
    instance shows the opposite.
  \<^item> \<open>Mempool\<close> (\<open>main.cpp\<close>): the memory pool and the orphan transactions.  In every reachable state no output is spent twice;
    removing a transaction with its descendants terminates and removes exactly these; the rate limiter is unreachable.
  \<^item> \<open>Base58\<close> (\<open>base58.h\<close>): addresses and exported keys survive printing and parsing.

  \<^bold>\<open>Bounds and fuel.\<close>  Loops over lists are structural recursions.  Three loops are driven by other measures:
  \<open>remove\<close> of the memory pool gets one unit of fuel more than the pool has transactions, which is shown to suffice because every
  level of the recursion removes another transaction; the number of random draws of an eviction is bounded by the number of
  entries to evict; the remaining ones have termination proofs next to their definitions.  Sizes are bounded by the limits of the
  wire format (\<open>MAX_SIZE\<close>, \<open>MAX_BLOCK_SIZE\<close>) where a conversion to a machine integer needs it.

  \<^bold>\<open>Not modelled.\<close>  Sockets, threads and message dispatch (\<open>net.cpp\<close>, \<open>ProcessMessage\<close>), the wallet and its
  database, the RPC server, the graphical interface, secure messaging and stealth addresses, start-up: these are input and
  output around the validation code.  The sphlib hash functions, LevelDB, OpenSSL, Tor and the other bundled libraries
  are parameters.  Floating point occurs in the proof-of-work subsidy, where the exact floor is computed instead, and in
  the rate limiter of the memory pool, where it is a parameter.  Reading blocks and transactions from the block files
  is a parameter.
\<close>

end
